(* ===== verification/Rex_Prelude.thy ===== *)
theory Rex_Prelude
  imports Main "HOL-Library.Word" "HOL-Library.Multiset"
begin

text \<open>
  Shared vocabulary of the development: how a panic is represented, how code that mutates
  shared state is written (state passing with an outcome), the \<open>Vec\<close> operations the crate
  uses, and the generic lemmas and fact collections the component theories draw on.
\<close>

section \<open>Fact collections\<close>

named_theorems cmd_simps "unfolding rules for commands and their outcomes"
named_theorems keeps_rules "rules for what a command keeps"
named_theorems effect_rules "rules for the effect of a command on a view of the state"
named_theorems vec_simps "lengths, element sets and contents of vectors after an update"

section \<open>Panics and outcomes\<close>

text \<open>
  One constructor per panicking site of the crate: the assertions, the \<open>unwrap\<close>s and
  \<open>expect\<close>s, the explicit \<open>panic!\<close>s, an index out of bounds and the overflow panic of
  \<open>Instant + Duration\<close>.
\<close>

datatype panic =
    NilId
  | UnwrapNone
  | NotInTree
  | IndexOutOfBounds
  | MissingIdForUpdate
  | MissingSmTree
  | DuplicateKinds nat nat
  | DuplicateRouters
  | InstantOverflow
  | AddOverflow
  | EmptyRouters
  | IngressUninitialized
  | OutboundUninitialized
  | InboundRxMissing
  | AssertionFailed
  | ZeroInterval
  | Unreachable
  | Unimplemented

text \<open>A computation returns a value or panics; a command also leaves a state behind.\<close>

datatype 'a outcome = Returned 'a | Panicked panic

type_synonym ('w, 'a) cmd = "'w \<Rightarrow> 'a outcome \<times> 'w"

primrec map_outcome_to :: "('a \<Rightarrow> 'b outcome) \<Rightarrow> 'a outcome \<Rightarrow> 'b outcome" where
  "map_outcome_to f (Returned x) = f x"
| "map_outcome_to f (Panicked p) = Panicked p"

definition unwrap :: "panic \<Rightarrow> 'a option \<Rightarrow> 'a outcome" where
  "unwrap p x = (case x of None \<Rightarrow> Panicked p | Some y \<Rightarrow> Returned y)"

lemma unwrap_simps [simp]:
  "unwrap p None = Panicked p"
  "unwrap p (Some y) = Returned y"
  by (simp_all add: unwrap_def)

lemma map_outcome_to_Returned_iff:
  "map_outcome_to f m = Returned y \<longleftrightarrow> (\<exists>x. m = Returned x \<and> f x = Returned y)"
  by (cases m) auto

definition ret :: "'a \<Rightarrow> ('w, 'a) cmd" where
  "ret x = (\<lambda>w. (Returned x, w))"

definition panicking :: "panic \<Rightarrow> ('w, 'a) cmd" where
  "panicking p = (\<lambda>w. (Panicked p, w))"

definition bindc :: "('w, 'a) cmd \<Rightarrow> ('a \<Rightarrow> ('w, 'b) cmd) \<Rightarrow> ('w, 'b) cmd" where
  "bindc m f = (\<lambda>w. case m w of
     (Returned x, w') \<Rightarrow> f x w'
   | (Panicked p, w') \<Rightarrow> (Panicked p, w'))"

definition seqc :: "('w, 'a) cmd \<Rightarrow> ('w, 'b) cmd \<Rightarrow> ('w, 'b) cmd" where
  "seqc m n = bindc m (\<lambda>_. n)"

definition gets :: "('w \<Rightarrow> 'a) \<Rightarrow> ('w, 'a) cmd" where
  "gets f = (\<lambda>w. (Returned (f w), w))"

definition modifies :: "('w \<Rightarrow> 'w) \<Rightarrow> ('w, unit) cmd" where
  "modifies f = (\<lambda>w. (Returned (), f w))"

definition lift_outcome :: "'a outcome \<Rightarrow> ('w, 'a) cmd" where
  "lift_outcome m = (\<lambda>w. (m, w))"

definition assert_cmd :: "panic \<Rightarrow> bool \<Rightarrow> ('w, unit) cmd" where
  "assert_cmd p b = (if b then ret () else panicking p)"

lemma cmd_apply [cmd_simps]:
  "ret x w = (Returned x, w)"
  "panicking p w = (Panicked p, w)"
  "gets f w = (Returned (f w), w)"
  "modifies g w = (Returned (), g w)"
  "lift_outcome m w = (m, w)"
  by (simp_all add: ret_def panicking_def gets_def modifies_def lift_outcome_def)

lemma assert_cmd_apply [cmd_simps]:
  "assert_cmd p b w = (if b then (Returned (), w) else (Panicked p, w))"
  by (simp add: assert_cmd_def ret_def panicking_def)

lemma bindc_apply [cmd_simps]:
  "bindc m f w = (case m w of (Returned x, w') \<Rightarrow> f x w' | (Panicked p, w') \<Rightarrow> (Panicked p, w'))"
  "seqc m n w = (case m w of (Returned x, w') \<Rightarrow> n w' | (Panicked p, w') \<Rightarrow> (Panicked p, w'))"
  by (simp_all add: bindc_def seqc_def)

lemma bindc_Returned_iff:
  "bindc m f w = (Returned y, w'') \<longleftrightarrow>
   (\<exists>x w'. m w = (Returned x, w') \<and> f x w' = (Returned y, w''))"
  by (auto simp: bindc_def split: prod.splits outcome.splits)

lemma bindc_assoc: "bindc (bindc m f) g = bindc m (\<lambda>x. bindc (f x) g)"
  by (rule ext) (simp add: bindc_def split: prod.splits outcome.splits)

lemma ret_bindc [simp]: "bindc (ret x) f = f x"
  by (rule ext) (simp add: bindc_def ret_def)

lemma bindc_ret [simp]: "bindc m ret = m"
  by (rule ext) (simp add: bindc_def ret_def split: prod.splits outcome.splits)

subsection \<open>Running a command over a list\<close>

text \<open>A \<open>for\<close> loop or a \<open>map\<close> whose body has effects; the first panic stops it.\<close>

fun traverse :: "('a \<Rightarrow> ('w, 'b) cmd) \<Rightarrow> 'a list \<Rightarrow> ('w, 'b list) cmd" where
  "traverse f [] = ret []"
| "traverse f (x # xs) = bindc (f x) (\<lambda>y. bindc (traverse f xs) (\<lambda>ys. ret (y # ys)))"

lemma traverse_cong [fundef_cong]:
  assumes "xs = ys" and "\<And>x. x \<in> set ys \<Longrightarrow> f x = g x"
  shows "traverse f xs = traverse g ys"
  using assms(2) unfolding assms(1) by (induction ys) simp_all

lemma traverse_pure:
  assumes "\<And>x w. x \<in> set xs \<Longrightarrow> f x w = (Returned (g x), h x w)"
  shows "traverse f xs w = (Returned (map g xs), fold h xs w)"
  using assms by (induction xs arbitrary: w) (simp_all add: cmd_simps)

section \<open>Vectors\<close>

text \<open>
  \<open>Vec::swap_remove(i)\<close> returns element \<open>i\<close> and puts the last element in its place;
  \<open>slice::swap(i, j)\<close> exchanges two elements. Both panic on an index out of bounds.
\<close>

definition swap_remove :: "'a list \<Rightarrow> nat \<Rightarrow> ('a \<times> 'a list) outcome" where
  "swap_remove xs i =
     (if i < length xs then Returned (xs ! i, (butlast xs)[i := last xs])
      else Panicked IndexOutOfBounds)"

definition vec_swap :: "'a list \<Rightarrow> nat \<Rightarrow> nat \<Rightarrow> 'a list outcome" where
  "vec_swap xs i j =
     (if i < length xs \<and> j < length xs then Returned (xs[i := xs ! j, j := xs ! i])
      else Panicked IndexOutOfBounds)"

lemma length_swap_removed [vec_simps]:
  "length ((butlast xs)[i := y]) = length xs - 1"
  by simp

text \<open>Pushing the element back and swapping undoes a \<open>swap_remove\<close>, with any element.\<close>

lemma swap_remove_undo:
  assumes "i < length xs"
  shows "vec_swap ((butlast xs)[i := last xs] @ [y]) i (length xs - 1) = Returned (xs[i := y])"
proof (cases "i = length xs - 1")
  case True
  with assms have ne: "xs \<noteq> []" by auto
  then obtain zs z where xs: "xs = zs @ [z]" by (metis rev_exhaust)
  with True show ?thesis by (simp add: vec_swap_def nth_append list_update_append list_update_beyond)
next
  case False
  with assms have ne: "xs \<noteq> []" by auto
  then obtain zs z where xs: "xs = zs @ [z]" by (metis rev_exhaust)
  with False assms have "i < length zs" by simp
  then show ?thesis
    by (simp add: xs vec_swap_def nth_append list_update_append)
qed

lemma map_list_update_eq:
  assumes "j < length xs" and "f y = g (xs ! j)"
    and "\<And>k. k < length xs \<Longrightarrow> k \<noteq> j \<Longrightarrow> f (xs ! k) = g (xs ! k)"
  shows "map f (xs[j := y]) = map g xs"
  using assms by (auto intro!: nth_equalityI simp: nth_list_update)

lemma mset_concat_update:
  assumes "j < length xs" and "mset ys = add_mset y (mset (xs ! j))"
  shows "mset (concat (xs[j := ys])) = add_mset y (mset (concat xs))"
proof -
  have xs: "xs = take j xs @ xs ! j # drop (Suc j) xs"
    using assms(1) by (rule id_take_nth_drop)
  have "mset (concat (xs[j := ys])) =
      mset (concat (take j xs)) + mset ys + mset (concat (drop (Suc j) xs))"
    using assms(1) by (simp add: upd_conv_take_nth_drop)
  also have "\<dots> = add_mset y (mset (concat (take j xs @ xs ! j # drop (Suc j) xs)))"
    using assms(2) by simp
  finally show ?thesis using xs by simp
qed

lemma map_of_map_values:
  "map_of (map (\<lambda>(i, s). (i, g i s)) xs) i = map_option (g i) (map_of xs i)"
  by (induction xs) auto

lemma nth_find_index:
  assumes "List.find P xs = Some x"
  obtains i where "i < length xs" and "xs ! i = x" and "P x" and "\<forall>j < i. \<not> P (xs ! j)"
  using assms by (auto simp: find_Some_iff)

lemma find_Some_set: "List.find P xs = Some x \<Longrightarrow> x \<in> set xs \<and> P x"
  by (auto simp: find_Some_iff)

lemma distinct_two: "distinct xs \<Longrightarrow> set xs = {x, y} \<Longrightarrow> x \<noteq> y \<Longrightarrow> xs = [x, y] \<or> xs = [y, x]"
proof -
  assume xs: "distinct xs" "set xs = {x, y}" "x \<noteq> y"
  then have "length xs = 2" using distinct_card [OF xs(1)] by simp
  then obtain a b where "xs = [a, b]" by (auto simp: numeral_2_eq_2 length_Suc_conv)
  with xs show "xs = [x, y] \<or> xs = [y, x]" by (auto simp: doubleton_eq_iff)
qed

lemma distinct_set_single: "distinct xs \<Longrightarrow> set xs = {x} \<Longrightarrow> xs = [x]"
  by (cases xs; cases "tl xs") auto

lemma size_list_mem [termination_simp]: "x \<in> set xs \<Longrightarrow> size x < Suc (size_list size xs)"
  by (induction xs) auto

section \<open>State machines of operations\<close>

text \<open>
  The interface behind every invariant of the development: a family of operations on a
  state, each of which keeps a predicate. Running any sequence of operations keeps it too.
\<close>

primrec run_ops :: "('o \<Rightarrow> 's \<Rightarrow> 's) \<Rightarrow> 'o list \<Rightarrow> 's \<Rightarrow> 's" where
  "run_ops step [] s = s"
| "run_ops step (x # xs) s = run_ops step xs (step x s)"

lemma run_ops_append: "run_ops step (xs @ ys) s = run_ops step ys (run_ops step xs s)"
  by (induction xs arbitrary: s) auto

locale invariant_ops =
  fixes step :: "'o \<Rightarrow> 's \<Rightarrow> 's"
    and ok :: "'o \<Rightarrow> bool"
    and inv :: "'s \<Rightarrow> bool"
  assumes step_inv: "ok x \<Longrightarrow> inv s \<Longrightarrow> inv (step x s)"
begin

lemma run_inv: "inv s \<Longrightarrow> \<forall>x \<in> set xs. ok x \<Longrightarrow> inv (run_ops step xs s)"
  by (induction xs arbitrary: s) (auto intro: step_inv)

end

text \<open>
  An abstraction: a concrete family of operations that simulates an abstract one on the
  states of the invariant.
\<close>

locale simulation_ops = invariant_ops step ok inv
  for step :: "'o \<Rightarrow> 's \<Rightarrow> 's"
  and ok :: "'o \<Rightarrow> bool"
  and inv :: "'s \<Rightarrow> bool" +
  fixes abs_step :: "'o \<Rightarrow> 'a \<Rightarrow> 'a"
    and rel :: "'s \<Rightarrow> 'a \<Rightarrow> bool"
  assumes step_rel: "ok x \<Longrightarrow> inv s \<Longrightarrow> rel s a \<Longrightarrow> rel (step x s) (abs_step x a)"
begin

lemma run_rel:
  "inv s \<Longrightarrow> rel s a \<Longrightarrow> \<forall>x \<in> set xs. ok x \<Longrightarrow>
   inv (run_ops step xs s) \<and> rel (run_ops step xs s) (run_ops abs_step xs a)"
  by (induction xs arbitrary: s a) (auto intro: step_rel step_inv)

end

text \<open>
  Commands that may panic: a contract with a precondition on the abstract state. A script
  whose preconditions hold at each step returns, keeps the invariant and ends in the abstract
  state the abstract steps give.
\<close>

primrec run_cmds :: "('o \<Rightarrow> ('w, unit) cmd) \<Rightarrow> 'o list \<Rightarrow> ('w, unit) cmd" where
  "run_cmds step [] = ret ()"
| "run_cmds step (x # xs) = seqc (step x) (run_cmds step xs)"

primrec script_ok :: "('o \<Rightarrow> 'a \<Rightarrow> bool) \<Rightarrow> ('o \<Rightarrow> 'a \<Rightarrow> 'a) \<Rightarrow> 'o list \<Rightarrow> 'a \<Rightarrow> bool" where
  "script_ok ok abs_step [] a = True"
| "script_ok ok abs_step (x # xs) a = (ok x a \<and> script_ok ok abs_step xs (abs_step x a))"

locale cmd_refinement =
  fixes step :: "'o \<Rightarrow> ('w, unit) cmd"
    and inv :: "'w \<Rightarrow> bool"
    and abs :: "'w \<Rightarrow> 'a"
    and ok :: "'o \<Rightarrow> 'a \<Rightarrow> bool"
    and abs_step :: "'o \<Rightarrow> 'a \<Rightarrow> 'a"
  assumes step_refines: "inv w \<Longrightarrow> ok x (abs w) \<Longrightarrow>
    \<exists>w'. step x w = (Returned (), w') \<and> inv w' \<and> abs w' = abs_step x (abs w)"
begin

lemma run_refines:
  "inv w \<Longrightarrow> script_ok ok abs_step xs (abs w) \<Longrightarrow>
   \<exists>w'. run_cmds step xs w = (Returned (), w') \<and> inv w' \<and> abs w' = run_ops abs_step xs (abs w)"
proof (induction xs arbitrary: w)
  case Nil
  then show ?case by (simp add: cmd_simps)
next
  case (Cons x xs)
  from Cons.prems step_refines [of w x] obtain w1 where
    w1: "step x w = (Returned (), w1)" "inv w1" "abs w1 = abs_step x (abs w)" by auto
  with Cons.IH [of w1] Cons.prems show ?case by (simp add: cmd_simps)
qed

end

section \<open>Reasoning about commands\<close>

text \<open>
  \<open>keeps I P m\<close>: whatever the outcome, \<open>m\<close> leaves the invariant \<open>I\<close> standing, and if it
  panics then with a panic of \<open>P\<close>.
\<close>

definition keeps :: "('w \<Rightarrow> bool) \<Rightarrow> panic set \<Rightarrow> ('w, 'a) cmd \<Rightarrow> bool" where
  "keeps I P m \<longleftrightarrow> (\<forall>w x w'. I w \<longrightarrow> m w = (x, w') \<longrightarrow> I w' \<and> (\<forall>p. x = Panicked p \<longrightarrow> p \<in> P))"

lemma keepsI:
  "(\<And>w x w'. I w \<Longrightarrow> m w = (x, w') \<Longrightarrow> I w' \<and> (\<forall>p. x = Panicked p \<longrightarrow> p \<in> P)) \<Longrightarrow> keeps I P m"
  unfolding keeps_def by blast

lemma keepsD:
  assumes "keeps I P m" and "I w" and "m w = (x, w')"
  shows "I w'" and "x = Panicked p \<Longrightarrow> p \<in> P"
  using assms unfolding keeps_def by blast+

lemma keeps_ret [keeps_rules]: "keeps I P (ret x)" "keeps I P (gets f)"
  by (auto simp: keeps_def cmd_simps)

lemma keeps_panicking [keeps_rules]: "p \<in> P \<Longrightarrow> keeps I P (panicking p)"
  by (auto simp: keeps_def cmd_simps)

lemma keeps_assert [keeps_rules]: "p \<in> P \<Longrightarrow> keeps I P (assert_cmd p b)"
  by (auto simp: keeps_def cmd_simps split: if_splits)

lemma keeps_unwrap [keeps_rules]: "p \<in> P \<Longrightarrow> keeps I P (lift_outcome (unwrap p x))"
  by (cases x) (auto simp: keeps_def cmd_simps)

lemma keeps_modifies [keeps_rules]: "(\<And>w. I w \<Longrightarrow> I (f w)) \<Longrightarrow> keeps I P (modifies f)"
  by (auto simp: keeps_def cmd_simps)

lemma keeps_bindc [keeps_rules]:
  assumes "keeps I P m" and "\<And>x. keeps I P (f x)"
  shows "keeps I P (bindc m f)"
proof (rule keepsI)
  fix w y w''
  assume I: "I w" and run: "bindc m f w = (y, w'')"
  obtain x w' where m: "m w = (x, w')" by fastforce
  show "I w'' \<and> (\<forall>p. y = Panicked p \<longrightarrow> p \<in> P)"
  proof (cases x)
    case (Returned v)
    with m run have "f v w' = (y, w'')" by (simp add: bindc_def)
    with keepsD(1) [OF assms(1) I m] keepsD [OF assms(2)] show ?thesis by blast
  next
    case (Panicked p)
    with m run have "y = Panicked p" "w'' = w'" by (simp_all add: bindc_def)
    with keepsD [OF assms(1) I m] Panicked show ?thesis by simp
  qed
qed

lemma keeps_seqc [keeps_rules]: "keeps I P m \<Longrightarrow> keeps I P n \<Longrightarrow> keeps I P (seqc m n)"
  by (simp add: seqc_def keeps_bindc)

lemma keeps_if [keeps_rules]: "keeps I P m \<Longrightarrow> keeps I P n \<Longrightarrow> keeps I P (if b then m else n)"
  by simp

lemma keeps_mono: "keeps I P m \<Longrightarrow> P \<subseteq> Q \<Longrightarrow> keeps I Q m"
  unfolding keeps_def by blast

text \<open>
  \<open>effect V m a x a'\<close>: from every state that shows the view \<open>a\<close>, \<open>m\<close> returns \<open>x\<close> in a
  state that shows \<open>a'\<close>. \<open>V w a\<close> says that the state \<open>w\<close> shows the view \<open>a\<close>.
\<close>

definition effect :: "('w \<Rightarrow> 'v \<Rightarrow> bool) \<Rightarrow> ('w, 'a) cmd \<Rightarrow> 'v \<Rightarrow> 'a \<Rightarrow> 'v \<Rightarrow> bool" where
  "effect V m a x a' \<longleftrightarrow> (\<forall>w. V w a \<longrightarrow> (\<exists>w'. m w = (Returned x, w') \<and> V w' a'))"

lemma effectI: "(\<And>w. V w a \<Longrightarrow> \<exists>w'. m w = (Returned x, w') \<and> V w' a') \<Longrightarrow> effect V m a x a'"
  unfolding effect_def by blast

lemma effectD: "effect V m a x a' \<Longrightarrow> V w a \<Longrightarrow> \<exists>w'. m w = (Returned x, w') \<and> V w' a'"
  unfolding effect_def by blast

lemma effect_ret [effect_rules]: "effect V (ret x) a x a"
  by (simp add: effect_def cmd_simps)

lemma effect_bindc [effect_rules]:
  "effect V m a x a' \<Longrightarrow> effect V (f x) a' y a'' \<Longrightarrow> effect V (bindc m f) a y a''"
  unfolding effect_def bindc_def by fastforce

lemma effect_seqc [effect_rules]:
  "effect V m a x a' \<Longrightarrow> effect V n a' y a'' \<Longrightarrow> effect V (seqc m n) a y a''"
  unfolding seqc_def by (rule effect_bindc)

lemma effect_Returned [effect_rules]: "m = Returned x \<Longrightarrow> effect V (lift_outcome m) a x a"
  by (simp add: effect_def cmd_simps)

lemma effect_assert [effect_rules]: "b \<Longrightarrow> effect V (assert_cmd p b) a () a"
  by (simp add: effect_def cmd_simps)

lemma effect_if: "(b \<Longrightarrow> effect V m a x a') \<Longrightarrow> (\<not> b \<Longrightarrow> effect V n a x a') \<Longrightarrow> effect V (if b then m else n) a x a'"
  by simp

lemma effect_eq: "effect V m a x a' \<Longrightarrow> x = y \<Longrightarrow> a' = a'' \<Longrightarrow> effect V m a y a''"
  by simp

end
