(* ===== verification/Rex_Ids.thy ===== *)
theory Rex_Ids
  imports Rex_Prelude
begin

text \<open>
  The crate's root module (\<open>src/lib.rs\<close>): identifiers of state machines and the traits a user
  implements. \<open>StateId\<close> is a record; the traits \<open>Kind\<close>, \<open>Rex\<close>, \<open>Timeout\<close>,
  \<open>RexMessage\<close>, \<open>GetTopic\<close> and \<open>TimeoutMessage\<close> are records of the functions an
  implementation supplies, an argument of every definition that calls them. Also here are the
  data the traits mention: instants, durations, timeout operations and unary requests.
\<close>

section \<open>Time\<close>

text \<open>
  An \<open>Instant\<close> is the reading of the monotonic clock, in nanoseconds since the clock's
  epoch. A \<open>Duration\<close> holds 64-bit seconds and 32-bit nanoseconds. The sum of an instant
  and a duration panics when its seconds leave the signed 64-bit range the platform's
  \<open>timespec\<close> has.
\<close>

type_synonym instant = nat
type_synonym u64 = "64 word"
type_synonym u32 = "32 word"

record duration =
  secs :: u64
  nanos :: u32

definition nanos_per_sec :: nat where
  "nanos_per_sec = 1000000000"

definition duration_nanos :: "duration \<Rightarrow> nat" where
  "duration_nanos d = unat (secs d) * nanos_per_sec + unat (nanos d)"

definition duration_wf :: "duration \<Rightarrow> bool" where
  "duration_wf d \<longleftrightarrow> unat (nanos d) < nanos_per_sec"

definition duration_from_millis :: "u64 \<Rightarrow> duration" where
  "duration_from_millis ms =
     \<lparr>secs = ms div 1000, nanos = ucast (ms mod 1000) * 1000000\<rparr>"

definition duration_from_secs :: "u64 \<Rightarrow> duration" where
  "duration_from_secs s = \<lparr>secs = s, nanos = 0\<rparr>"

definition subsec_millis :: "duration \<Rightarrow> nat" where
  "subsec_millis d = unat (nanos d) div 1000000"

definition instant_limit :: nat where
  "instant_limit = 2 ^ 63 * nanos_per_sec"

definition instant_add :: "instant \<Rightarrow> duration \<Rightarrow> instant outcome" where
  "instant_add t d =
     (if t + duration_nanos d < instant_limit then Returned (t + duration_nanos d)
      else Panicked InstantOverflow)"

lemma instant_add_Returned_iff:
  "instant_add t d = Returned u \<longleftrightarrow> u = t + duration_nanos d \<and> u < instant_limit"
  by (auto simp: instant_add_def)

lemma unat_millis_nanos:
  "unat ((ucast (ms mod 1000) :: u32) * 1000000) = unat (ms mod 1000 :: u64) * 1000000"
proof -
  have m: "unat (ms mod 1000) < 1000"
    by (simp add: unat_mod)
  then have "unat (ucast (ms mod 1000) :: u32) = unat (ms mod 1000)"
    by (simp add: unsigned_ucast_eq take_bit_nat_eq_self)
  with m show ?thesis by (simp add: unat_word_ariths)
qed

lemma duration_from_millis_wf: "duration_wf (duration_from_millis ms)"
proof -
  have "unat (ms mod 1000) < 1000"
    by (simp add: unat_mod)
  then show ?thesis
    by (simp add: duration_wf_def duration_from_millis_def nanos_per_sec_def unat_millis_nanos)
qed

lemma duration_nanos_from_millis:
  "duration_nanos (duration_from_millis ms) = unat ms * 1000000"
proof -
  have "unat (ms div 1000) * 1000 + unat (ms mod 1000) = unat ms"
    by (simp add: unat_div unat_mod)
  then have "(unat (ms div 1000) * 1000 + unat (ms mod 1000)) * 1000000 = unat ms * 1000000"
    by simp
  then show ?thesis
    by (simp add: duration_nanos_def duration_from_millis_def nanos_per_sec_def
        unat_millis_nanos algebra_simps)
qed

section \<open>State identifiers\<close>

type_synonym uuid = "128 word"

record 'k state_id =
  kind :: 'k
  uuid :: uuid

definition state_id_new :: "'k \<Rightarrow> uuid \<Rightarrow> 'k state_id" where
  "state_id_new k u = \<lparr>kind = k, uuid = u\<rparr>"

text \<open>\<open>new_rand\<close> takes the identifier \<open>Uuid::new_v4\<close> returned.\<close>

definition state_id_new_rand :: "'k \<Rightarrow> uuid \<Rightarrow> 'k state_id" where
  "state_id_new_rand k v4 = state_id_new k v4"

definition state_id_nil :: "'k \<Rightarrow> 'k state_id" where
  "state_id_nil k = state_id_new k 0"

definition is_nil :: "'k state_id \<Rightarrow> bool" where
  "is_nil i \<longleftrightarrow> uuid i = 0"

definition new_with_u128 :: "'k \<Rightarrow> 128 word \<Rightarrow> 'k state_id" where
  "new_with_u128 k v = \<lparr>kind = k, uuid = v\<rparr>"

text \<open>
  The \<open>Display\<close> form; \<open>dbg\<close> is the kind's \<open>Debug\<close> form and \<open>b58\<close> the encoder of the
  \<open>bs58\<close> crate.
\<close>

definition state_id_fmt :: "('k \<Rightarrow> string) \<Rightarrow> (uuid \<Rightarrow> string) \<Rightarrow> 'k state_id \<Rightarrow> string" where
  "state_id_fmt dbg b58 i =
     dbg (kind i) @ ''<'' @ (if \<not> is_nil i then b58 (uuid i) else ''NIL'') @ ''>''"

lemma state_id_new_sel [simp]:
  "kind (state_id_new k u) = k" "uuid (state_id_new k u) = u"
  by (simp_all add: state_id_new_def)

lemma is_nil_new [simp]: "is_nil (state_id_new k u) \<longleftrightarrow> u = 0"
  by (simp add: is_nil_def)

lemma state_id_new_inject [simp]:
  "state_id_new k u = state_id_new l v \<longleftrightarrow> k = l \<and> u = v"
  by (simp add: state_id_new_def)

subsection \<open>A linear order on identifiers\<close>

text \<open>
  Ordered by kind, then by uuid. The crate itself does not order identifiers; the order gives
  a concrete enumeration of a finite set of them, which instantiates the unspecified
  iteration order of a \<open>HashSet\<close>.
\<close>

instantiation state_id_ext :: (linorder, linorder) linorder
begin

definition less_eq_state_id_ext :: "('a, 'b) state_id_ext \<Rightarrow> ('a, 'b) state_id_ext \<Rightarrow> bool" where
  "less_eq_state_id_ext x y \<longleftrightarrow>
     kind x < kind y \<or> kind x = kind y \<and>
       (uuid x < uuid y \<or> uuid x = uuid y \<and> state_id.more x \<le> state_id.more y)"

definition less_state_id_ext :: "('a, 'b) state_id_ext \<Rightarrow> ('a, 'b) state_id_ext \<Rightarrow> bool" where
  "less_state_id_ext x y \<longleftrightarrow> x \<le> y \<and> \<not> y \<le> (x :: ('a, 'b) state_id_ext)"

instance
  by standard
    (auto simp: less_eq_state_id_ext_def less_state_id_ext_def intro!: state_id.equality)

end

section \<open>The traits \<open>State\<close> and \<open>Kind\<close>\<close>

text \<open>\<open>kind_of\<close> is \<open>State: AsRef<Kind>\<close>.\<close>

record ('k, 's) kind_ops =
  new_state :: "'k \<Rightarrow> 's"
  failed_state :: "'k \<Rightarrow> 's"
  completed_state :: "'k \<Rightarrow> 's"
  kind_of :: "'s \<Rightarrow> 'k"

definition is_terminal :: "('k, 's, 'z) kind_ops_scheme \<Rightarrow> 's \<Rightarrow> bool" where
  "is_terminal K s =
     (let k = kind_of K s in completed_state K k = s \<or> failed_state K k = s)"

text \<open>
  What an implementation of \<open>Kind\<close> promises: the states it makes for a kind belong to that
  kind, and a new state is not yet terminal.
\<close>

locale lawful_kind =
  fixes K :: "('k, 's, 'z) kind_ops_scheme"
  assumes kind_of_new: "kind_of K (new_state K k) = k"
    and kind_of_failed: "kind_of K (failed_state K k) = k"
    and kind_of_completed: "kind_of K (completed_state K k) = k"
    and new_not_completed: "new_state K k \<noteq> completed_state K k"
    and new_not_failed: "new_state K k \<noteq> failed_state K k"
begin

lemma terminal_states:
  "is_terminal K s \<longleftrightarrow> (\<exists>k. s = completed_state K k \<or> s = failed_state K k)"
  unfolding is_terminal_def Let_def by (metis kind_of_failed kind_of_completed)

lemma new_not_terminal: "\<not> is_terminal K (new_state K k)"
  unfolding is_terminal_def Let_def kind_of_new
  by (metis new_not_completed new_not_failed)

lemma failed_terminal: "is_terminal K (failed_state K k)"
  by (simp add: is_terminal_def Let_def kind_of_failed)

lemma completed_terminal: "is_terminal K (completed_state K k)"
  by (simp add: is_terminal_def Let_def kind_of_completed)

lemma new_state_inj: "new_state K k = new_state K l \<Longrightarrow> k = l"
  by (metis kind_of_new)

end

section \<open>Timeout operations and requests\<close>

datatype 'r operation =
    Cancel
  | Set instant
  | Retain 'r instant

primrec operation_fmt :: "'r operation \<Rightarrow> string" where
  "operation_fmt Cancel = ''timeout::Cancel''"
| "operation_fmt (Set i) = ''timeout::Set''"
| "operation_fmt (Retain x i) = ''timeout::Retain''"

record ('k, 'o) unary_request =
  req_id :: "'k state_id"
  req_op :: 'o

type_synonym ('k, 'r) timeout_input = "('k, 'r operation) unary_request"

definition unary_request_new :: "'k state_id \<Rightarrow> 'o \<Rightarrow> ('k, 'o) unary_request" where
  "unary_request_new i o' = \<lparr>req_id = i, req_op = o'\<rparr>"

text \<open>\<open>Request::request\<close> and \<open>RequestInner::request_inner\<close>, the latter through a conversion.\<close>

definition request :: "'o \<Rightarrow> 'k state_id \<Rightarrow> ('k, 'o) unary_request" where
  "request o' i = \<lparr>req_id = i, req_op = o'\<rparr>"

definition request_inner :: "('a \<Rightarrow> 'o) \<Rightarrow> 'a \<Rightarrow> 'k state_id \<Rightarrow> ('k, 'o) unary_request" where
  "request_inner into x i = \<lparr>req_id = i, req_op = into x\<rparr>"

section \<open>The traits \<open>Rex\<close>, \<open>Timeout\<close> and \<open>TimeoutMessage\<close>\<close>

text \<open>
  The associated functions of \<open>Rex\<close> (\<open>state_input\<close>, \<open>timeout_input\<close>) and \<open>Timeout\<close>
  (\<open>return_item\<close>), the topic of a message and the conversions between messages and timeout
  requests: \<open>from_timeout\<close> is \<open>From<UnaryRequest<..>>\<close>, \<open>try_timeout\<close> is \<open>TryInto\<close> with
  \<open>None\<close> for the conversion error. A \<open>Notification\<close> is a newtype over the message and is
  represented by it.
\<close>

record ('k, 's, 'i, 'r, 'm, 't) rex = "('k, 's) kind_ops" +
  state_input :: "'k \<Rightarrow> 's \<Rightarrow> 'i option"
  timeout_input :: "'k \<Rightarrow> instant \<Rightarrow> 'i option"
  return_item :: "'k \<Rightarrow> 'r \<Rightarrow> 'i option"
  get_topic :: "'m \<Rightarrow> 't"
  from_timeout :: "('k, 'r) timeout_input \<Rightarrow> 'm"
  try_timeout :: "'m \<Rightarrow> ('k, 'r) timeout_input option"

text \<open>The default body of \<open>Timeout::return_item\<close>.\<close>

definition default_return_item :: "'k \<Rightarrow> 'r \<Rightarrow> 'i option" where
  "default_return_item k x = None"

record ('k, 'i) signal =
  sig_id :: "'k state_id"
  sig_input :: 'i

end
