(* ===== verification/Rex_Queue.thy ===== *)
theory Rex_Queue
  imports Rex_Ids
begin

text \<open>
  \<open>src/queue.rs\<close>: the two-lane queue \<open>StreamableDeque\<close> with its waiting receivers. The
  \<open>AtomicBool\<close>s shared between a receiver and its notifier are cells of the heap \<open>flags\<close>;
  \<open>wakes\<close> records, oldest first, the wakers on which \<open>wake\<close> was called.
\<close>

section \<open>State\<close>

type_synonym waker = nat
type_synonym flag_ref = nat

record receiver_notifier =
  handle :: waker
  awake :: flag_ref

record 'a deque =
  front_values :: "'a list"
  back_values :: "'a list"
  rx_notifiers :: "receiver_notifier list"
  flags :: "bool list"
  wakes :: "waker list"

record stream_receiver =
  rx_awake :: "flag_ref option"

datatype 'a poll = Ready 'a | Pending

definition deque_new :: "'a deque" where
  "deque_new =
     \<lparr>front_values = [], back_values = [], rx_notifiers = [], flags = [], wakes = []\<rparr>"

definition stream :: stream_receiver where
  "stream = \<lparr>rx_awake = None\<rparr>"

section \<open>Operations\<close>

definition notify_rx :: "'a deque \<Rightarrow> 'a deque" where
  "notify_rx q = (case rx_notifiers q of
     [] \<Rightarrow> q
   | n # ns \<Rightarrow> q\<lparr>rx_notifiers := ns, wakes := wakes q @ [handle n],
                flags := (flags q)[awake n := True]\<rparr>)"

definition push_front :: "'a \<Rightarrow> 'a deque \<Rightarrow> 'a deque" where
  "push_front x q = notify_rx (q\<lparr>front_values := front_values q @ [x]\<rparr>)"

definition push_back :: "'a \<Rightarrow> 'a deque \<Rightarrow> 'a deque" where
  "push_back x q = notify_rx (q\<lparr>back_values := back_values q @ [x]\<rparr>)"

definition pop_front :: "'a deque \<Rightarrow> 'a option \<times> 'a deque" where
  "pop_front q = (case front_values q of
     x # xs \<Rightarrow> (Some x, q\<lparr>front_values := xs\<rparr>)
   | [] \<Rightarrow> (case back_values q of
       y # ys \<Rightarrow> (Some y, q\<lparr>back_values := ys\<rparr>)
     | [] \<Rightarrow> (None, q)))"

definition pop_back :: "'a deque \<Rightarrow> 'a option \<times> 'a deque" where
  "pop_back q =
     (if back_values q \<noteq> []
      then (Some (last (back_values q)), q\<lparr>back_values := butlast (back_values q)\<rparr>)
      else if front_values q \<noteq> []
      then (Some (last (front_values q)), q\<lparr>front_values := butlast (front_values q)\<rparr>)
      else (None, q))"

text \<open>
  \<open>poll_next\<close> by a task whose waker is \<open>w\<close>: a value, or a fresh flag and a notifier at the
  end of the waiting list.
\<close>

definition poll_next ::
  "waker \<Rightarrow> stream_receiver \<Rightarrow> 'a deque \<Rightarrow> 'a option poll \<times> stream_receiver \<times> 'a deque" where
  "poll_next w rx q = (case pop_front q of
     (Some v, q') \<Rightarrow> (Ready (Some v), rx\<lparr>rx_awake := None\<rparr>, q')
   | (None, q') \<Rightarrow>
       (let a = length (flags q') in
        (Pending, rx\<lparr>rx_awake := Some a\<rparr>,
         q'\<lparr>flags := flags q' @ [False],
            rx_notifiers := rx_notifiers q' @ [\<lparr>handle = w, awake = a\<rparr>]\<rparr>)))"

text \<open>
  Dropping a receiver whose flag was set passes the wake-up on. The code pops a notifier,
  sets its flag and wakes it, in the other order than \<open>notify_rx\<close> does: the same effect.
\<close>

definition drop_receiver :: "stream_receiver \<Rightarrow> 'a deque \<Rightarrow> 'a deque" where
  "drop_receiver rx q =
     (if map_option (\<lambda>a. flags q ! a) (rx_awake rx) = Some True then notify_rx q else q)"

section \<open>The contents of a queue\<close>

definition queue_values :: "'a deque \<Rightarrow> 'a list" where
  "queue_values q = front_values q @ back_values q"

lemma notify_rx_values [simp]:
  "front_values (notify_rx q) = front_values q"
  "back_values (notify_rx q) = back_values q"
  by (simp_all add: notify_rx_def split: list.splits)

lemma push_values [simp]:
  "front_values (push_front x q) = front_values q @ [x]"
  "back_values (push_front x q) = back_values q"
  "front_values (push_back x q) = front_values q"
  "back_values (push_back x q) = back_values q @ [x]"
  by (simp_all add: push_front_def push_back_def)

lemma deque_new_values [simp]:
  "front_values deque_new = []" "back_values deque_new = []"
  by (simp_all add: deque_new_def)

lemma pop_front_None: "pop_front q = (None, q') \<longleftrightarrow> queue_values q = [] \<and> q' = q"
  by (auto simp: pop_front_def queue_values_def split: list.splits)

lemma pop_front_result: "fst (pop_front q) = (case queue_values q of [] \<Rightarrow> None | x # _ \<Rightarrow> Some x)"
  by (auto simp: pop_front_def queue_values_def split: list.splits)

lemma pop_front_lanes:
  "front_values (snd (pop_front q)) = tl (front_values q)"
  "back_values (snd (pop_front q)) =
     (if front_values q = [] then tl (back_values q) else back_values q)"
  by (auto simp: pop_front_def split: list.splits)

lemma pop_front_frame [simp]:
  "rx_notifiers (snd (pop_front q)) = rx_notifiers q"
  "flags (snd (pop_front q)) = flags q"
  "wakes (snd (pop_front q)) = wakes q"
  by (auto simp: pop_front_def split: list.splits)

lemma poll_next_cases:
  obtains (popped) v q' where "pop_front q = (Some v, q')"
      and "poll_next w rx q = (Ready (Some v), rx\<lparr>rx_awake := None\<rparr>, q')"
  | (empty) "queue_values q = []"
      and "poll_next w rx q =
        (Pending, rx\<lparr>rx_awake := Some (length (flags q))\<rparr>,
         q\<lparr>flags := flags q @ [False],
           rx_notifiers := rx_notifiers q @ [\<lparr>handle = w, awake = length (flags q)\<rparr>]\<rparr>)"
proof (cases "pop_front q")
  case (Pair r q')
  show thesis
  proof (cases r)
    case None
    with Pair have "pop_front q = (None, q)" and "queue_values q = []"
      by (simp_all add: pop_front_None)
    then show thesis using empty by (simp add: poll_next_def Let_def)
  next
    case (Some v)
    with Pair show thesis using popped by (simp add: poll_next_def)
  qed
qed

lemma poll_next_Ready:
  assumes "poll_next w rx q = (Ready (Some m), rx', q')"
  shows "queue_values q = m # queue_values q'" and "rx' = rx\<lparr>rx_awake := None\<rparr>"
    and "rx_notifiers q' = rx_notifiers q" and "flags q' = flags q" and "wakes q' = wakes q"
proof -
  have pop: "pop_front q = (Some m, q')" and rx: "rx' = rx\<lparr>rx_awake := None\<rparr>"
    using assms by (cases rule: poll_next_cases [where q = q and w = w and rx = rx]; simp)+
  then have q': "q' = snd (pop_front q)" by simp
  show "queue_values q = m # queue_values q'"
    using pop by (auto simp: pop_front_def queue_values_def split: list.splits)
  show "rx_notifiers q' = rx_notifiers q" "flags q' = flags q" "wakes q' = wakes q"
    unfolding q' by simp_all
  show "rx' = rx\<lparr>rx_awake := None\<rparr>" by (rule rx)
qed

section \<open>The interface: a queue with a priority lane\<close>

text \<open>
  What the rest of the crate relies on: pushes append to one of two lanes, and a pop takes
  the oldest value of the priority lane, or of the other lane when that one is empty.
\<close>

primrec pops :: "('q \<Rightarrow> 'a option \<times> 'q) \<Rightarrow> nat \<Rightarrow> 'q \<Rightarrow> 'a list \<times> 'q" where
  "pops pop 0 q = ([], q)"
| "pops pop (Suc n) q = (case pop q of
     (None, q') \<Rightarrow> ([], q')
   | (Some x, q') \<Rightarrow> (let (xs, q'') = pops pop n q' in (x # xs, q'')))"

locale priority_fifo =
  fixes hi :: "'q \<Rightarrow> 'a list"
    and lo :: "'q \<Rightarrow> 'a list"
    and push_hi :: "'a \<Rightarrow> 'q \<Rightarrow> 'q"
    and push_lo :: "'a \<Rightarrow> 'q \<Rightarrow> 'q"
    and pop :: "'q \<Rightarrow> 'a option \<times> 'q"
  assumes hi_push_hi: "hi (push_hi x q) = hi q @ [x]"
    and lo_push_hi: "lo (push_hi x q) = lo q"
    and hi_push_lo: "hi (push_lo x q) = hi q"
    and lo_push_lo: "lo (push_lo x q) = lo q @ [x]"
    and pop_hi: "hi q = x # xs \<Longrightarrow> \<exists>q'. pop q = (Some x, q') \<and> hi q' = xs \<and> lo q' = lo q"
    and pop_lo: "hi q = [] \<Longrightarrow> lo q = x # xs \<Longrightarrow>
      \<exists>q'. pop q = (Some x, q') \<and> hi q' = [] \<and> lo q' = xs"
    and pop_none: "hi q = [] \<Longrightarrow> lo q = [] \<Longrightarrow> pop q = (None, q)"
begin

lemmas push_laws = hi_push_hi lo_push_hi hi_push_lo lo_push_lo

lemma fold_push_hi:
  "hi (fold push_hi xs q) = hi q @ xs" "lo (fold push_hi xs q) = lo q"
  by (induction xs arbitrary: q) (auto simp: push_laws)

lemma fold_push_lo:
  "hi (fold push_lo xs q) = hi q" "lo (fold push_lo xs q) = lo q @ xs"
  by (induction xs arbitrary: q) (auto simp: push_laws)

text \<open>Any interleaving of pushes: each lane keeps its own order.\<close>

lemma run_pushes:
  "hi (run_ops (\<lambda>(b, x). if b then push_hi x else push_lo x) ps q) = hi q @ map snd (filter fst ps)"
  "lo (run_ops (\<lambda>(b, x). if b then push_hi x else push_lo x) ps q) =
     lo q @ map snd (filter (Not \<circ> fst) ps)"
  by (induction ps arbitrary: q) (auto simp: push_laws)

lemma pop_cons:
  assumes "hi q @ lo q = x # xs"
  shows "\<exists>q'. pop q = (Some x, q') \<and> hi q' @ lo q' = xs"
proof (cases "hi q")
  case Nil
  with assms pop_lo show ?thesis by fastforce
next
  case (Cons y ys)
  with assms have "y = x" and "ys @ lo q = xs" by auto
  with pop_hi [OF Cons] show ?thesis by auto
qed

lemma pops_values: "fst (pops pop n q) = take n (hi q @ lo q)"
proof (induction n arbitrary: q)
  case 0
  then show ?case by simp
next
  case (Suc n)
  show ?case
  proof (cases "hi q @ lo q")
    case Nil
    with pop_none [of q] show ?thesis by simp
  next
    case (Cons x xs)
    from pop_cons [OF Cons] obtain q' where "pop q = (Some x, q')" and "hi q' @ lo q' = xs"
      by blast
    with Suc.IH [of q'] Cons show ?thesis by (simp add: split_beta)
  qed
qed

end

interpretation deque_fifo: priority_fifo front_values back_values push_front push_back pop_front
  by unfold_locales (auto simp: pop_front_def split: list.splits)

section \<open>Order of delivery\<close>

datatype 'a push = Push_front 'a | Push_back 'a

primrec run_push :: "'a push \<Rightarrow> 'a deque \<Rightarrow> 'a deque" where
  "run_push (Push_front x) q = push_front x q"
| "run_push (Push_back x) q = push_back x q"

primrec is_front :: "'a push \<Rightarrow> bool" where
  "is_front (Push_front x) = True"
| "is_front (Push_back x) = False"

primrec pushed :: "'a push \<Rightarrow> 'a" where
  "pushed (Push_front x) = x"
| "pushed (Push_back x) = x"

lemma run_push_ops:
  "run_ops run_push ps q =
   run_ops (\<lambda>(b, x). if b then push_front x else push_back x)
     (map (\<lambda>p. (is_front p, pushed p)) ps) q"
proof (induction ps arbitrary: q)
  case (Cons p ps)
  then show ?case by (cases p) auto
qed simp

lemma run_push_lanes:
  "front_values (run_ops run_push ps q) = front_values q @ map pushed (filter is_front ps)"
  "back_values (run_ops run_push ps q) = back_values q @ map pushed (filter (Not \<circ> is_front) ps)"
  by (simp_all add: run_push_ops deque_fifo.run_pushes filter_map comp_def)

text \<open>
  After any mixture of push_front and push_back on a new queue, popping as many values as
  were pushed yields the values of push_front, oldest first, and then those of push_back, oldest
  first: the priority lane is itself first in, first out.
\<close>

theorem drain_order:
  "fst (pops pop_front (length ps) (run_ops run_push ps deque_new)) =
   map pushed (filter is_front ps) @ map pushed (filter (Not \<circ> is_front) ps)"
proof -
  have "length (map pushed (filter is_front ps) @ map pushed (filter (Not \<circ> is_front) ps)) =
      length ps"
    using sum_length_filter_compl [of is_front ps] by (simp add: comp_def)
  then show ?thesis
    by (simp add: deque_fifo.pops_values run_push_lanes)
qed

section \<open>A consumer and its wake-ups\<close>

text \<open>
  A task that reads a queue through one stream, as the manager's and the notification
  manager's loops do. The environment pushes values and may poll the task at any time,
  woken or not; \<open>mark\<close> is the number of wake-ups made before the task last parked, and
  \<open>taken\<close> what the task received.
\<close>

record 'a consumer =
  cq :: "'a deque"
  crx :: stream_receiver
  parked :: bool
  mark :: nat
  taken :: "'a list"

datatype 'a queue_event = Pushed "'a push" | Polled

definition consumer_init :: "'a consumer" where
  "consumer_init = \<lparr>cq = deque_new, crx = stream, parked = False, mark = 0, taken = []\<rparr>"

primrec consumer_step :: "waker \<Rightarrow> 'a queue_event \<Rightarrow> 'a consumer \<Rightarrow> 'a consumer" where
  "consumer_step w (Pushed p) s = s\<lparr>cq := run_push p (cq s)\<rparr>"
| "consumer_step w Polled s = (case poll_next w (crx s) (cq s) of
     (Ready (Some v), rx, q) \<Rightarrow>
       s\<lparr>cq := q, crx := rx, parked := False, taken := taken s @ [v]\<rparr>
   | (_, rx, q) \<Rightarrow> s\<lparr>cq := q, crx := rx, parked := True, mark := length (wakes q)\<rparr>)"

definition woken :: "waker \<Rightarrow> 'a consumer \<Rightarrow> bool" where
  "woken w s \<longleftrightarrow> w \<in> set (drop (mark s) (wakes (cq s)))"

definition wake_inv :: "waker \<Rightarrow> 'a consumer \<Rightarrow> bool" where
  "wake_inv w s \<longleftrightarrow>
     mark s \<le> length (wakes (cq s)) \<and>
     (\<forall>n \<in> set (rx_notifiers (cq s)). handle n = w) \<and>
     (parked s \<and> \<not> woken w s \<longrightarrow> queue_values (cq s) = [] \<and> rx_notifiers (cq s) \<noteq> [])"

lemma run_push_queue:
  "wakes (run_push p q) = wakes q @ (case rx_notifiers q of [] \<Rightarrow> [] | n # _ \<Rightarrow> [handle n])"
  "rx_notifiers (run_push p q) = tl (rx_notifiers q)"
  by (cases p; simp add: push_front_def push_back_def notify_rx_def split: list.splits)+

lemma consumer_push_inv:
  assumes "wake_inv w s"
  shows "wake_inv w (s\<lparr>cq := run_push p (cq s)\<rparr>)"
proof (cases "rx_notifiers (cq s)")
  case Nil
  with assms have "parked s \<longrightarrow> woken w s" by (auto simp: wake_inv_def)
  with assms Nil show ?thesis by (auto simp: wake_inv_def woken_def run_push_queue)
next
  case (Cons n ns)
  with assms have "handle n = w" and "mark s \<le> length (wakes (cq s))"
    and "\<forall>n \<in> set ns. handle n = w" by (auto simp: wake_inv_def)
  with Cons show ?thesis by (auto simp: wake_inv_def woken_def run_push_queue)
qed

lemma consumer_poll_inv:
  assumes "wake_inv w s"
  shows "wake_inv w (consumer_step w Polled s)"
proof (cases rule: poll_next_cases [where q = "cq s" and w = w and rx = "crx s"])
  case (popped v q')
  then have "q' = snd (pop_front (cq s))" by simp
  then have "rx_notifiers q' = rx_notifiers (cq s)" and "wakes q' = wakes (cq s)" by simp_all
  with assms popped show ?thesis by (auto simp: wake_inv_def)
next
  case empty
  with assms show ?thesis by (auto simp: wake_inv_def woken_def queue_values_def)
qed

interpretation consumer_ops: invariant_ops "consumer_step w" "\<lambda>_. True" "wake_inv w" for w
proof
  fix s :: "'a consumer" and e
  assume "wake_inv w s"
  then show "wake_inv w (consumer_step w e s)"
    by (cases e) (simp add: consumer_push_inv, simp only: consumer_poll_inv)
qed

lemma wake_inv_init: "wake_inv w consumer_init"
  by (simp add: wake_inv_def consumer_init_def deque_new_def)

text \<open>
  C7. For a task that reads a queue through one stream, in every interleaving of pushes and
  polls (spurious polls included): whenever the task is parked and the queue is not empty, a
  wake-up of the task's waker has been made since it parked.
\<close>

theorem no_lost_wakeup:
  assumes "s = run_ops (consumer_step w) es consumer_init"
    and "parked s"
    and "queue_values (cq s) \<noteq> []"
  shows "woken w s"
  using consumer_ops.run_inv [OF wake_inv_init, of es w] assms
  by (auto simp: wake_inv_def)

theorem no_lost_wakeup_witness:
  "woken 7 (run_ops (consumer_step 7) [Polled, Pushed (Push_back (3::nat))] consumer_init)"
  by (rule no_lost_wakeup [OF refl])
    (simp_all add: consumer_init_def poll_next_def pop_front_def deque_new_def push_back_def
      notify_rx_def queue_values_def)

subsection \<open>What the consumer receives\<close>

definition lanes_inv :: "'a queue_event list \<Rightarrow> 'a consumer \<Rightarrow> bool" where
  "lanes_inv es s \<longleftrightarrow> (\<exists>hs ls.
     [pushed p. Pushed p \<leftarrow> es, is_front p] = hs @ front_values (cq s) \<and>
     [pushed p. Pushed p \<leftarrow> es, \<not> is_front p] = ls @ back_values (cq s) \<and>
     taken s \<in> shuffles hs ls)"

lemma snoc_shuffles:
  "zs \<in> shuffles xs ys \<Longrightarrow> zs @ [x] \<in> shuffles (xs @ [x]) ys"
  "zs \<in> shuffles xs ys \<Longrightarrow> zs @ [x] \<in> shuffles xs (ys @ [x])"
proof (induction zs arbitrary: xs ys)
  case Nil
  { case 1 with Nil show ?case by simp }
  { case 2 with Nil show ?case by simp }
next
  case (Cons z zs)
  { case 1 with Cons show ?case by (auto simp: Cons_in_shuffles_iff neq_Nil_conv) }
  { case 2 with Cons show ?case by (auto simp: Cons_in_shuffles_iff neq_Nil_conv) }
qed

lemma lanes_step:
  assumes "lanes_inv es s"
  shows "lanes_inv (es @ [e]) (consumer_step w e s)"
proof (cases e)
  case (Pushed p)
  with assms show ?thesis by (cases p) (auto simp: lanes_inv_def)
next
  case Polled
  from assms obtain hs ls where
    hs: "[pushed p. Pushed p \<leftarrow> es, is_front p] = hs @ front_values (cq s)" and
    ls: "[pushed p. Pushed p \<leftarrow> es, \<not> is_front p] = ls @ back_values (cq s)" and
    sh: "taken s \<in> shuffles hs ls"
    by (auto simp: lanes_inv_def)
  show ?thesis
  proof (cases rule: poll_next_cases [where q = "cq s" and w = w and rx = "crx s"])
    case (popped v q')
    show ?thesis
    proof (cases "front_values (cq s)")
      case Nil
      with popped obtain ys where "back_values (cq s) = v # ys" and
        "q' = (cq s)\<lparr>back_values := ys\<rparr>"
        by (auto simp: pop_front_def split: list.splits)
      with Nil hs ls snoc_shuffles(2) [OF sh] popped Polled show ?thesis
        by (auto simp: lanes_inv_def intro!: exI [of _ hs] exI [of _ "ls @ [v]"])
    next
      case (Cons y ys)
      with popped have "y = v" and "q' = (cq s)\<lparr>front_values := ys\<rparr>"
        by (auto simp: pop_front_def)
      with Cons hs ls snoc_shuffles(1) [OF sh] popped Polled show ?thesis
        by (auto simp: lanes_inv_def intro!: exI [of _ "hs @ [v]"] exI [of _ ls])
    qed
  next
    case empty
    with hs ls sh Polled show ?thesis by (auto simp: lanes_inv_def)
  qed
qed

lemma lanes_run: "lanes_inv es (run_ops (consumer_step w) es consumer_init)"
proof (induction es rule: rev_induct)
  case Nil
  show ?case by (simp add: lanes_inv_def consumer_init_def)
next
  case (snoc e es)
  then show ?case by (simp add: run_ops_append lanes_step)
qed

text \<open>
  C8. For every interleaving of pushes and polls, the values pushed at the front lane are those
  already taken from it followed by those still in it, likewise for the back lane, and what the
  consumer received is an interleaving of the two taken parts: nothing is lost or duplicated and
  each lane keeps its order.
\<close>

theorem consumer_delivery:
  "\<exists>hs ls. [pushed p. Pushed p \<leftarrow> es, is_front p] =
      hs @ front_values (cq (run_ops (consumer_step w) es consumer_init)) \<and>
    [pushed p. Pushed p \<leftarrow> es, \<not> is_front p] =
      ls @ back_values (cq (run_ops (consumer_step w) es consumer_init)) \<and>
    taken (run_ops (consumer_step w) es consumer_init) \<in> shuffles hs ls"
  using lanes_run [of es w] by (simp add: lanes_inv_def)

end
