(* ===== verification/Rex_Kinds.thy ===== *)
theory Rex_Kinds
  imports Rex_Ids
begin

text \<open>
  The implementations of the crate's traits that its own tests define: \<open>Game\<close> of
  \<open>src/manager.rs\<close>, \<open>TestKind\<close> and the \<open>node_state!\<close> kinds of \<open>src/test_support.rs\<close> (here
  for the five names \<open>src/node.rs\<close> gives the macro). All three satisfy the contract
  \<open>lawful_kind\<close>, and \<open>Game\<close> is the concrete \<open>Rex\<close> the later theories evaluate on.
\<close>

section \<open>\<open>Game\<close>\<close>

datatype game = Ping | Pong | Menu

instantiation game :: linorder
begin

primrec game_rank :: "game \<Rightarrow> nat" where
  "game_rank Ping = 0"
| "game_rank Pong = 1"
| "game_rank Menu = 2"

definition less_eq_game :: "game \<Rightarrow> game \<Rightarrow> bool" where
  "less_eq_game x y \<longleftrightarrow> game_rank x \<le> game_rank y"

definition less_game :: "game \<Rightarrow> game \<Rightarrow> bool" where
  "less_game x y \<longleftrightarrow> game_rank x < game_rank y"

instance
proof
  fix x y z :: game
  show "(x < y) = (x \<le> y \<and> \<not> y \<le> x)" by (auto simp: less_eq_game_def less_game_def)
  show "x \<le> x" by (simp add: less_eq_game_def)
  show "x \<le> y \<Longrightarrow> y \<le> z \<Longrightarrow> x \<le> z" by (simp add: less_eq_game_def)
  show "x \<le> y \<Longrightarrow> y \<le> x \<Longrightarrow> x = y" by (cases x; cases y) (simp_all add: less_eq_game_def)
  show "x \<le> y \<or> y \<le> x" by (auto simp: less_eq_game_def)
qed

end

datatype menu_state = Menu_Ready | Menu_Done | Menu_Failed

datatype ping_state = Ping_Ready | Ping_Sending | Ping_Done | Ping_Failed

datatype pong_state = Pong_Ready | Pong_Responding | Pong_Done | Pong_Failed

datatype game_state = State_Ping ping_state | State_Pong pong_state | State_Menu menu_state

text \<open>\<open>WhoHolds\<close> is a newtype over \<open>Option<Game>\<close>, \<open>Hold\<close> one over the packet.\<close>

type_synonym who_holds = "game option"

record packet =
  msg :: u64
  sender :: "game state_id"
  who_holds :: who_holds

datatype menu_input = Play who_holds | PingPongComplete | FailedPing | FailedPong

datatype ping_input =
    StartSending "game state_id" who_holds
  | Ping_Returned packet
  | Ping_Packet packet
  | Ping_RecvTimeout instant

datatype pong_input =
    Pong_Packet packet
  | Pong_RecvTimeout instant
  | Pong_Returned packet

datatype game_input = Input_Ping ping_input | Input_Pong pong_input | Input_Menu menu_input

datatype game_msg = GameMsg "(game, packet) timeout_input"

primrec game_as_ref :: "game_state \<Rightarrow> game" where
  "game_as_ref (State_Ping s) = Ping"
| "game_as_ref (State_Pong s) = Pong"
| "game_as_ref (State_Menu s) = Menu"

primrec game_new_state :: "game \<Rightarrow> game_state" where
  "game_new_state Ping = State_Ping Ping_Ready"
| "game_new_state Pong = State_Pong Pong_Ready"
| "game_new_state Menu = State_Menu Menu_Ready"

primrec game_failed_state :: "game \<Rightarrow> game_state" where
  "game_failed_state Ping = State_Ping Ping_Failed"
| "game_failed_state Pong = State_Pong Pong_Failed"
| "game_failed_state Menu = State_Menu Menu_Failed"

primrec game_completed_state :: "game \<Rightarrow> game_state" where
  "game_completed_state Ping = State_Ping Ping_Done"
| "game_completed_state Pong = State_Pong Pong_Done"
| "game_completed_state Menu = State_Menu Menu_Done"

definition game_state_input :: "game \<Rightarrow> game_state \<Rightarrow> game_input option" where
  "game_state_input k s =
     (if k \<noteq> Menu then None
      else map_option Input_Menu (case s of
          State_Ping Ping_Done \<Rightarrow> Some PingPongComplete
        | State_Ping Ping_Failed \<Rightarrow> Some FailedPing
        | State_Pong Pong_Failed \<Rightarrow> Some FailedPong
        | _ \<Rightarrow> None))"

primrec game_timeout_input :: "game \<Rightarrow> instant \<Rightarrow> game_input option" where
  "game_timeout_input Ping t = Some (Input_Ping (Ping_RecvTimeout t))"
| "game_timeout_input Pong t = Some (Input_Pong (Pong_RecvTimeout t))"
| "game_timeout_input Menu t = None"

primrec game_return_item :: "game \<Rightarrow> packet \<Rightarrow> game_input option" where
  "game_return_item Ping x = Some (Input_Ping (Ping_Returned x))"
| "game_return_item Pong x = Some (Input_Pong (Pong_Returned x))"
| "game_return_item Menu x = None"

primrec game_msg_timeout :: "game_msg \<Rightarrow> (game, packet) timeout_input" where
  "game_msg_timeout (GameMsg x) = x"

text \<open>\<open>From<TimeoutInput>\<close> and \<open>GetTopic\<close>; \<open>TimeoutTopic\<close> has one value.\<close>

definition game_msg_from :: "(game, packet) timeout_input \<Rightarrow> game_msg" where
  "game_msg_from x = GameMsg x"

definition game_get_topic :: "game_msg \<Rightarrow> unit" where
  "game_get_topic m = ()"

definition game_rex :: "(game, game_state, game_input, packet, game_msg, unit) rex" where
  "game_rex = \<lparr>new_state = game_new_state, failed_state = game_failed_state,
     completed_state = game_completed_state, kind_of = game_as_ref,
     state_input = game_state_input, timeout_input = game_timeout_input,
     return_item = game_return_item, get_topic = game_get_topic, from_timeout = game_msg_from,
     try_timeout = (\<lambda>m. Some (game_msg_timeout m))\<rparr>"

lemma game_rex_sel [simp]:
  "new_state game_rex = game_new_state" "failed_state game_rex = game_failed_state"
  "completed_state game_rex = game_completed_state" "kind_of game_rex = game_as_ref"
  "state_input game_rex = game_state_input" "timeout_input game_rex = game_timeout_input"
  "return_item game_rex = game_return_item" "get_topic game_rex = (\<lambda>_. ())"
  "from_timeout game_rex = GameMsg" "try_timeout game_rex = (\<lambda>m. Some (game_msg_timeout m))"
  by (simp_all add: game_rex_def game_msg_from_def game_get_topic_def fun_eq_iff)

interpretation game_kind: lawful_kind game_rex
proof
  fix k :: game
  show "kind_of game_rex (new_state game_rex k) = k" by (cases k) simp_all
  show "kind_of game_rex (failed_state game_rex k) = k" by (cases k) simp_all
  show "kind_of game_rex (completed_state game_rex k) = k" by (cases k) simp_all
  show "new_state game_rex k \<noteq> completed_state game_rex k" by (cases k) simp_all
  show "new_state game_rex k \<noteq> failed_state game_rex k" by (cases k) simp_all
qed

section \<open>\<open>TestKind\<close>\<close>

datatype test_kind = TestKind

datatype test_state = Test_New | Test_Awaiting | Test_Completed | Test_Failed

datatype test_topic = Topic_Timeout | Topic_Ingress | Topic_Other

type_synonym in_packet = string
type_synonym out_packet = string

datatype test_input = Test_Timeout instant | Test_Packet in_packet

datatype no_retain = NoRetain

datatype test_msg =
    Msg_TimeoutInput "(test_kind, no_retain) timeout_input"
  | Msg_Ingress out_packet
  | Msg_Other

definition test_kind_ops :: "(test_kind, test_state) kind_ops" where
  "test_kind_ops = \<lparr>new_state = (\<lambda>_. Test_New), failed_state = (\<lambda>_. Test_Failed),
     completed_state = (\<lambda>_. Test_Completed), kind_of = (\<lambda>_. TestKind)\<rparr>"

primrec test_get_topic :: "test_msg \<Rightarrow> test_topic" where
  "test_get_topic (Msg_TimeoutInput x) = Topic_Timeout"
| "test_get_topic (Msg_Ingress x) = Topic_Ingress"
| "test_get_topic Msg_Other = Topic_Other"

primrec test_try_out :: "test_msg \<Rightarrow> out_packet option" where
  "test_try_out (Msg_TimeoutInput x) = None"
| "test_try_out (Msg_Ingress x) = Some x"
| "test_try_out Msg_Other = None"

primrec test_try_timeout :: "test_msg \<Rightarrow> (test_kind, no_retain) timeout_input option" where
  "test_try_timeout (Msg_TimeoutInput x) = Some x"
| "test_try_timeout (Msg_Ingress x) = None"
| "test_try_timeout Msg_Other = None"

definition test_timeout_input :: "test_kind \<Rightarrow> instant \<Rightarrow> test_input option" where
  "test_timeout_input k t = Some (Test_Timeout t)"

lemma test_kind_single: "k = TestKind" by (cases k) simp

interpretation test_kind: lawful_kind test_kind_ops
  by unfold_locales (auto simp: test_kind_ops_def intro: test_kind_single [symmetric])

section \<open>\<open>node_state!(Alice, Bob, Charlie, Dave, Eve)\<close>\<close>

datatype node_kind = Alice | Bob | Charlie | Dave | Eve

datatype node_phase = New | Awaiting | Completed | Failed

datatype node_state = Node_State node_kind node_phase

primrec node_as_ref :: "node_state \<Rightarrow> node_kind" where
  "node_as_ref (Node_State k p) = k"

definition node_kind_ops :: "(node_kind, node_state) kind_ops" where
  "node_kind_ops = \<lparr>new_state = (\<lambda>k. Node_State k New), failed_state = (\<lambda>k. Node_State k Failed),
     completed_state = (\<lambda>k. Node_State k Completed), kind_of = node_as_ref\<rparr>"

interpretation node_kind: lawful_kind node_kind_ops
  by unfold_locales (simp_all add: node_kind_ops_def)

lemma node_kind_ops_sel [simp]:
  "new_state node_kind_ops = (\<lambda>k. Node_State k New)"
  "failed_state node_kind_ops = (\<lambda>k. Node_State k Failed)"
  "completed_state node_kind_ops = (\<lambda>k. Node_State k Completed)"
  "kind_of node_kind_ops = node_as_ref"
  by (simp_all add: node_kind_ops_def)

text \<open>Ids for examples.\<close>

abbreviation alice :: "node_kind state_id" where
  "alice \<equiv> \<lparr>kind = Alice, uuid = 1\<rparr>"

abbreviation bob :: "node_kind state_id" where
  "bob \<equiv> \<lparr>kind = Bob, uuid = 2\<rparr>"

abbreviation menu_1 :: "game state_id" where
  "menu_1 \<equiv> \<lparr>kind = Menu, uuid = 1\<rparr>"

abbreviation ping_2 :: "game state_id" where
  "ping_2 \<equiv> \<lparr>kind = Ping, uuid = 2\<rparr>"

abbreviation pong_3 :: "game state_id" where
  "pong_3 \<equiv> \<lparr>kind = Pong, uuid = 3\<rparr>"

end
