(* ===== verification/Rex_Notification.thy ===== *)
theory Rex_Notification
  imports Rex_Queue Rex_Kinds
begin

text \<open>
  \<open>src/notification.rs\<close>: the notification queue and the manager that routes each notification
  by topic to the channels of its subscribers. An unbounded channel is a list of the messages
  sent and not yet received, and a flag that its receiver was dropped; a failed send is only
  logged by the code.
\<close>

section \<open>Queue and channels\<close>

definition nq_send :: "'m \<Rightarrow> 'm deque \<Rightarrow> 'm deque" where
  "nq_send m q = push_back m q"

definition nq_priority_send :: "'m \<Rightarrow> 'm deque \<Rightarrow> 'm deque" where
  "nq_priority_send m q = push_front m q"

type_synonym channel = nat

record 'm channels =
  chan_queue :: "channel \<Rightarrow> 'm list"
  chan_closed :: "channel \<Rightarrow> bool"

definition channels_new :: "'m channels" where
  "channels_new = \<lparr>chan_queue = (\<lambda>_. []), chan_closed = (\<lambda>_. False)\<rparr>"

definition chan_send :: "channel \<Rightarrow> 'm \<Rightarrow> 'm channels \<Rightarrow> 'm channels" where
  "chan_send c m ch =
     (if chan_closed ch c then ch
      else ch\<lparr>chan_queue := (chan_queue ch)(c := chan_queue ch c @ [m])\<rparr>)"

definition chan_recv :: "channel \<Rightarrow> 'm channels \<Rightarrow> 'm option \<times> 'm channels" where
  "chan_recv c ch = (case chan_queue ch c of
     [] \<Rightarrow> (None, ch)
   | m # ms \<Rightarrow> (Some m, ch\<lparr>chan_queue := (chan_queue ch)(c := ms)\<rparr>))"

section \<open>Subscriptions\<close>

text \<open>
  A processor: the sending half \<open>init\<close> returns for its channel, and the topics it subscribes to.
\<close>

record 't processor =
  np_channel :: channel
  np_topics :: "'t list"

type_synonym 't subscriptions = "'t \<rightharpoonup> channel list"

definition subscribe :: "channel \<Rightarrow> 't \<Rightarrow> 't subscriptions \<Rightarrow> 't subscriptions" where
  "subscribe c t subs = subs(t \<mapsto> (case subs t of None \<Rightarrow> [] | Some cs \<Rightarrow> cs) @ [c])"

definition nm_new :: "'t processor list \<Rightarrow> 't subscriptions" where
  "nm_new ps = fold (\<lambda>p. fold (subscribe (np_channel p)) (np_topics p)) ps Map.empty"

section \<open>Routing\<close>

definition nm_route ::
  "('k, 's, 'i, 'r, 'm, 't, 'z) rex_scheme \<Rightarrow> 't subscriptions \<Rightarrow> 'm \<Rightarrow> 'm channels \<Rightarrow> 'm channels" where
  "nm_route R subs m ch = (case subs (get_topic R m) of
     Some cs \<Rightarrow>
       if cs = [] then ch
       else chan_send (last cs) m (fold (\<lambda>c. chan_send c m) (butlast cs) ch)
   | None \<Rightarrow> ch)"

text \<open>
  One poll of the spawned task: the \<open>while let\<close> loop runs until the stream is pending.
\<close>

function nm_poll ::
  "('k, 's, 'i, 'r, 'm, 't, 'z) rex_scheme \<Rightarrow> 't subscriptions \<Rightarrow> waker \<Rightarrow>
   stream_receiver \<Rightarrow> 'm deque \<Rightarrow> 'm channels \<Rightarrow> stream_receiver \<times> 'm deque \<times> 'm channels" where
  "nm_poll R subs w rx q ch = (case poll_next w rx q of
     (Ready (Some m), rx', q') \<Rightarrow> nm_poll R subs w rx' q' (nm_route R subs m ch)
   | (Ready None, rx', q') \<Rightarrow> (rx', q', ch)
   | (Pending, rx', q') \<Rightarrow> (rx', q', ch))"
  by pat_completeness auto

termination
  by (relation "measure (\<lambda>(R, subs, w, rx, q, ch). length (queue_values q))")
    (auto dest!: poll_next_Ready(1) [OF sym])

declare nm_poll.simps [simp del]

section \<open>Laws\<close>

lemma chan_send_queue:
  "chan_queue (chan_send c m ch) d =
     (if d = c \<and> \<not> chan_closed ch c then chan_queue ch d @ [m] else chan_queue ch d)"
  "chan_closed (chan_send c m ch) = chan_closed ch"
  by (simp_all add: chan_send_def)

lemma fold_send_queue:
  "chan_queue (fold (\<lambda>c. chan_send c m) cs ch) d =
     (if chan_closed ch d then chan_queue ch d
      else chan_queue ch d @ replicate (count_list cs d) m)"
  "chan_closed (fold (\<lambda>c. chan_send c m) cs ch) = chan_closed ch"
  by (induction cs arbitrary: ch) (auto simp: chan_send_queue replicate_app_Cons_same)

text \<open>Sending to all but the last and then to the last is sending to all, in order.\<close>

lemma nm_route_fold:
  "nm_route R subs m ch =
    fold (\<lambda>c. chan_send c m) (case subs (get_topic R m) of None \<Rightarrow> [] | Some cs \<Rightarrow> cs) ch"
proof (cases "subs (get_topic R m)")
  case None
  then show ?thesis by (simp add: nm_route_def)
next
  case (Some cs)
  show ?thesis
  proof (cases "cs = []")
    case True
    with Some show ?thesis by (simp add: nm_route_def)
  next
    case False
    then have "fold (\<lambda>c. chan_send c m) cs ch = fold (\<lambda>c. chan_send c m) (butlast cs @ [last cs]) ch"
      by simp
    with Some False show ?thesis by (simp add: nm_route_def del: append_butlast_last_id)
  qed
qed

lemma fold_subscribe:
  "fold (subscribe c) ts subs t =
    (if t \<in> set ts then Some ((case subs t of None \<Rightarrow> [] | Some cs \<Rightarrow> cs) @ replicate (count_list ts t) c)
     else subs t)"
proof (induction ts arbitrary: subs)
  case (Cons u ts)
  then show ?case by (auto simp: subscribe_def)
qed simp

definition channels_of :: "'t processor list \<Rightarrow> 't \<Rightarrow> channel list" where
  "channels_of ps t = concat (map (\<lambda>p. replicate (count_list (np_topics p) t) (np_channel p)) ps)"

lemma nm_new_fold:
  "(case fold (\<lambda>p. fold (subscribe (np_channel p)) (np_topics p)) ps subs t of None \<Rightarrow> [] | Some cs \<Rightarrow> cs) =
   (case subs t of None \<Rightarrow> [] | Some cs \<Rightarrow> cs) @ channels_of ps t"
proof (induction ps arbitrary: subs)
  case (Cons p ps)
  have "count_list (np_topics p) t = 0" if "t \<notin> set (np_topics p)"
    using that by (simp add: count_list_0_iff)
  with Cons [of "fold (subscribe (np_channel p)) (np_topics p) subs"] show ?case
    by (simp add: fold_subscribe channels_of_def)
qed (simp add: channels_of_def)

lemma nm_new_channels: "(case nm_new ps t of None \<Rightarrow> [] | Some cs \<Rightarrow> cs) = channels_of ps t"
  by (simp add: nm_new_def nm_new_fold)

lemma route_queue:
  "chan_queue (nm_route R (nm_new ps) m ch) d =
    (if chan_closed ch d then chan_queue ch d
     else chan_queue ch d @ replicate (count_list (channels_of ps (get_topic R m)) d) m)"
  "chan_closed (nm_route R subs m ch) = chan_closed ch"
  by (simp_all add: nm_route_fold nm_new_channels fold_send_queue)

lemma nm_poll_drains:
  "nm_poll R subs w rx q ch = (rx', q', ch') \<Longrightarrow>
   ch' = fold (nm_route R subs) (queue_values q) ch \<and> queue_values q' = [] \<and> rx_awake rx' \<noteq> None"
proof (induction R subs w rx q ch rule: nm_poll.induct)
  case (1 R subs w rx q ch)
  show ?case
  proof (cases rule: poll_next_cases [where q = q and w = w and rx = rx])
    case (popped v q1)
    with "1.prems" have "nm_poll R subs w (rx\<lparr>rx_awake := None\<rparr>) q1 (nm_route R subs v ch) = (rx', q', ch')"
      by (subst (asm) nm_poll.simps) simp
    with "1.IH" [OF popped(2) [symmetric] refl] popped poll_next_Ready(1) [OF popped(2)]
    show ?thesis by simp
  next
    case empty
    with "1.prems" show ?thesis
      by (subst (asm) nm_poll.simps) (auto simp: queue_values_def)
  qed
qed

lemma fold_route_queue:
  "\<not> chan_closed ch d \<Longrightarrow>
   chan_queue (fold (nm_route R (nm_new ps)) ms ch) d = chan_queue ch d @
     concat (map (\<lambda>m. replicate (count_list (channels_of ps (get_topic R m)) d) m) ms)"
  by (induction ms arbitrary: ch) (simp_all add: route_queue)

section \<open>Properties\<close>

text \<open>
  One poll of the notification manager empties its queue, and an open channel receives, in
  queue order, each notification as many times as that channel was subscribed to the
  notification's topic; notifications nobody subscribed to are dropped.
\<close>

theorem notifications_delivered:
  assumes "nm_poll R (nm_new ps) w rx q ch = (rx', q', ch')"
    and "\<not> chan_closed ch d"
  shows "queue_values q' = [] \<and>
    chan_queue ch' d = chan_queue ch d @
      concat (map (\<lambda>m. replicate (count_list (channels_of ps (get_topic R m)) d) m) (queue_values q))"
  using nm_poll_drains [OF assms(1)] assms(2) by (simp add: fold_route_queue)

theorem notifications_delivered_witness:
  "\<exists>rx q ch. nm_poll game_rex (nm_new [\<lparr>np_channel = 4, np_topics = [()]\<rparr>]) 7 stream
      (nq_send (GameMsg \<lparr>req_id = ping_2, req_op = Cancel\<rparr>) deque_new) channels_new = (rx, q, ch) \<and>
    chan_queue ch 4 = [GameMsg \<lparr>req_id = ping_2, req_op = Cancel\<rparr>]"
proof -
  let ?m = "GameMsg \<lparr>req_id = ping_2, req_op = Cancel\<rparr>" and ?ps = "[\<lparr>np_channel = 4, np_topics = [()]\<rparr>]"
  obtain rx q ch where p: "nm_poll game_rex (nm_new ?ps) 7 stream (nq_send ?m deque_new) channels_new =
      (rx, q, ch)" by (metis prod_cases3)
  have "chan_queue ch 4 = [?m]"
    using notifications_delivered [OF p, of 4]
    by (simp add: channels_new_def channels_of_def queue_values_def nq_send_def)
  with p show ?thesis by blast
qed

lemma count_list_distinct: "distinct xs \<Longrightarrow> count_list xs x = (if x \<in> set xs then 1 else 0)"
  by (induction xs) auto

lemma count_replicate: "count_list (replicate n c) d = (if c = d then n else 0)"
  by (induction n) auto

lemma channels_of_other: "d \<notin> np_channel ` set ps \<Longrightarrow> count_list (channels_of ps t) d = 0"
  by (induction ps) (auto simp: channels_of_def count_replicate)

lemma count_channels:
  assumes "distinct (map np_channel ps)" and "p \<in> set ps" and "distinct (np_topics p)"
  shows "count_list (channels_of ps t) (np_channel p) = (if t \<in> set (np_topics p) then 1 else 0)"
  using assms(1,2)
proof (induction ps)
  case (Cons q ps)
  show ?case
  proof (cases "p = q")
    case True
    with Cons.prems(1) channels_of_other [of "np_channel p" ps t] count_list_distinct [OF assms(3)]
    show ?thesis by (simp add: channels_of_def count_replicate)
  next
    case False
    with Cons.prems have "p \<in> set ps" and "np_channel q \<noteq> np_channel p" by force+
    with Cons show ?thesis by (simp add: channels_of_def count_replicate)
  qed
qed simp

text \<open>
  C26. When the processors' channels are distinct, a processor that lists its topics without
  repetition and whose receiver is alive gets, after one poll of the notification manager,
  exactly the queued notifications whose topic it subscribed to, each once, the priority lane
  before the other and each lane in order.
\<close>

theorem each_subscriber_once:
  assumes "distinct (map np_channel ps)" and "p \<in> set ps" and "distinct (np_topics p)"
    and "\<not> chan_closed ch (np_channel p)"
    and "nm_poll R (nm_new ps) w rx q ch = (rx', q', ch')"
  shows "chan_queue ch' (np_channel p) = chan_queue ch (np_channel p) @
    filter (\<lambda>m. get_topic R m \<in> set (np_topics p)) (front_values q @ back_values q)"
proof -
  have "concat (map (\<lambda>m. replicate (if get_topic R m \<in> set (np_topics p) then 1 else 0) m) ms) =
      filter (\<lambda>m. get_topic R m \<in> set (np_topics p)) ms" for ms
    by (induction ms) auto
  moreover have "chan_queue ch' (np_channel p) = chan_queue ch (np_channel p) @
      concat (map (\<lambda>m. replicate (count_list (channels_of ps (get_topic R m)) (np_channel p)) m)
        (queue_values q))"
    using nm_poll_drains [OF assms(5)] assms(4) by (simp add: fold_route_queue)
  ultimately show ?thesis
    by (simp add: count_channels [OF assms(1-3)] queue_values_def)
qed

theorem each_subscriber_once_witness:
  "\<exists>rx q ch. nm_poll game_rex (nm_new [\<lparr>np_channel = 4, np_topics = [()]\<rparr>]) 7 stream
      (nq_send (GameMsg \<lparr>req_id = ping_2, req_op = Cancel\<rparr>) deque_new) channels_new = (rx, q, ch) \<and>
    length (chan_queue ch 4) = 1"
proof -
  let ?m = "GameMsg \<lparr>req_id = ping_2, req_op = Cancel\<rparr>" and ?p = "\<lparr>np_channel = 4, np_topics = [()]\<rparr>"
  obtain rx q ch where p: "nm_poll game_rex (nm_new [?p]) 7 stream (nq_send ?m deque_new) channels_new =
      (rx, q, ch)" by (metis prod_cases3)
  have "chan_queue ch (np_channel ?p) = [?m]"
    using each_subscriber_once [OF _ _ _ _ p, of ?p] by (simp add: channels_new_def nq_send_def)
  with p show ?thesis by auto
qed

end
