(* ===== verification/Rex_Ingress.thy ===== *)
theory Rex_Ingress
  imports Rex_Notification Rex_Kinds
begin

text \<open>
  \<open>src/ingress.rs\<close>: packets from outside become signals, notifications become packets. The
  conversions a user implements (\<open>TryFrom\<close> and \<open>TryInto\<close> of the trait \<open>Ingress\<close>) are
  fields of a record that extends \<open>Rex\<close>, with \<open>None\<close> for the conversion error.
\<close>

section \<open>Routers\<close>

datatype rex_error = RexError

record ('k, 's, 'i, 'r, 'm, 't, 'p, 'q) ingress = "('k, 's, 'i, 'r, 'm, 't) rex" +
  packet_kind :: "'p \<Rightarrow> 'k option"
  packet_input :: "'p \<Rightarrow> 'i option"
  message_out :: "'m \<Rightarrow> 'q option"

text \<open>\<open>StateRouter\<close>: \<open>get_id\<close> gives an id, no id, or an error, and may itself panic.\<close>

type_synonym 'k routed = "rex_error + 'k state_id option"

record ('k, 'p) state_router =
  router_get_id :: "'p \<Rightarrow> 'k routed outcome"
  router_kind :: 'k

type_synonym ('k, 'p) packet_router = "'k \<rightharpoonup> ('k, 'p) state_router"

fun insert_routers ::
  "('k, 'p) state_router list \<Rightarrow> ('k, 'p) packet_router \<Rightarrow> ('k, 'p) packet_router outcome" where
  "insert_routers [] m = Returned m"
| "insert_routers (r # rs) m = (case m (router_kind r) of
     Some old \<Rightarrow> Panicked DuplicateRouters
   | None \<Rightarrow> insert_routers rs (m(router_kind r \<mapsto> r)))"

definition packet_router_new :: "('k, 'p) state_router list \<Rightarrow> ('k, 'p) packet_router outcome" where
  "packet_router_new rs = insert_routers rs Map.empty"

definition packet_get_id ::
  "('k, 's, 'i, 'r, 'm, 't, 'p, 'q) ingress \<Rightarrow> ('k, 'p) packet_router \<Rightarrow> 'p \<Rightarrow> 'k routed outcome" where
  "packet_get_id I pr p = (case packet_kind I p of
     None \<Rightarrow> Returned (Inl RexError)
   | Some k \<Rightarrow> (case pr k of
       None \<Rightarrow> Returned (Inr None)
     | Some r \<Rightarrow> router_get_id r p))"

section \<open>The two tasks\<close>

text \<open>
  One turn of \<open>process_inbound\<close> on the signal queue: what cannot be routed or converted is
  logged and dropped.
\<close>

definition inbound_step ::
  "('k, 's, 'i, 'r, 'm, 't, 'p, 'q) ingress \<Rightarrow> ('k, 'p) packet_router \<Rightarrow> 'p \<Rightarrow>
   (('k, 'i) signal deque, unit) cmd" where
  "inbound_step I pr p =
     bindc (lift_outcome (packet_get_id I pr p)) (\<lambda>r. case r of
       Inl e \<Rightarrow> ret ()
     | Inr None \<Rightarrow> ret ()
     | Inr (Some i) \<Rightarrow> (case packet_input I p of
         Some x \<Rightarrow> modifies (push_back \<lparr>sig_id = i, sig_input = x\<rparr>)
       | None \<Rightarrow> ret ()))"

text \<open>The task on the packets of its channel; a panic ends it and the rest is never read.\<close>

definition process_inbound ::
  "('k, 's, 'i, 'r, 'm, 't, 'p, 'q) ingress \<Rightarrow> ('k, 'p) packet_router \<Rightarrow> 'p list \<Rightarrow>
   (('k, 'i) signal deque, unit) cmd" where
  "process_inbound I pr ps = run_cmds (inbound_step I pr) ps"

text \<open>The task \<open>init\<close> spawns: notifications are converted and sent to the outbound channel.\<close>

definition outbound_step ::
  "('k, 's, 'i, 'r, 'm, 't, 'p, 'q) ingress \<Rightarrow> channel \<Rightarrow> 'm \<Rightarrow> 'q channels \<Rightarrow> 'q channels" where
  "outbound_step I c m ch = (case message_out I m of
     Some p \<Rightarrow> chan_send c p ch
   | None \<Rightarrow> ch)"

definition process_outbound ::
  "('k, 's, 'i, 'r, 'm, 't, 'p, 'q) ingress \<Rightarrow> channel \<Rightarrow> 'm list \<Rightarrow> 'q channels \<Rightarrow> 'q channels" where
  "process_outbound I c ms = fold (outbound_step I c) ms"

section \<open>The adapter\<close>

record ('k, 'p, 't) ingress_adapter =
  outbound_tx :: channel
  router :: "('k, 'p) packet_router"
  inbound_tx :: channel
  inbound_rx :: "channel option"
  ingress_topic :: 't

text \<open>\<open>IngressAdapter::new\<close>; \<open>c\<close> is the unbounded channel it makes.\<close>

definition adapter_new ::
  "channel \<Rightarrow> channel \<Rightarrow> ('k, 'p) state_router list \<Rightarrow> 't \<Rightarrow> ('k, 'p, 't) ingress_adapter outcome" where
  "adapter_new c out_tx rs t =
     map_outcome_to (\<lambda>pr. Returned \<lparr>outbound_tx = out_tx, router = pr, inbound_tx = c,
       inbound_rx = Some c, ingress_topic = t\<rparr>) (packet_router_new rs)"

definition spawn_inbound :: "(('k, 'p, 't) ingress_adapter, channel) cmd" where
  "spawn_inbound = (\<lambda>ad. case inbound_rx ad of
     None \<Rightarrow> (Panicked InboundRxMissing, ad)
   | Some c \<Rightarrow> (Returned c, ad\<lparr>inbound_rx := None\<rparr>))"

text \<open>
  \<open>init\<close> and \<open>get_topics\<close>: the processor as the notification manager sees it, when \<open>c\<close> is
  the channel \<open>init\<close> makes.
\<close>

definition adapter_init :: "channel \<Rightarrow> (('k, 'p, 't) ingress_adapter, 't processor) cmd" where
  "adapter_init c = seqc spawn_inbound
     (gets (\<lambda>ad. \<lparr>np_channel = c, np_topics = [ingress_topic ad]\<rparr>))"

section \<open>The router and the conversions of \<open>src/test_support.rs\<close>\<close>

definition starts_with :: "string \<Rightarrow> string \<Rightarrow> bool" where
  "starts_with s p \<longleftrightarrow> take (length p) s = p"

definition test_router :: "(test_kind, in_packet) state_router" where
  "test_router = \<lparr>router_get_id = (\<lambda>p.
       if starts_with p ''unsupported'' then Returned (Inl RexError)
       else if starts_with p ''unknown'' then Returned (Inr None)
       else if starts_with p ''new_state'' then Returned (Inr (Some (new_with_u128 TestKind 1)))
       else Panicked Unimplemented),
     router_kind = TestKind\<rparr>"

text \<open>\<open>state_input\<close> of \<open>TestKind\<close> is \<open>unimplemented!()\<close> and nothing here calls it.\<close>

definition test_ingress ::
  "(test_kind \<Rightarrow> test_state \<Rightarrow> test_input option) \<Rightarrow>
   (test_kind, test_state, test_input, no_retain, test_msg, test_topic, in_packet, out_packet) ingress" where
  "test_ingress si = \<lparr>new_state = new_state test_kind_ops, failed_state = failed_state test_kind_ops,
     completed_state = completed_state test_kind_ops, kind_of = kind_of test_kind_ops,
     state_input = si, timeout_input = test_timeout_input,
     return_item = default_return_item, get_topic = test_get_topic,
     from_timeout = Msg_TimeoutInput, try_timeout = test_try_timeout,
     packet_kind = (\<lambda>_. Some TestKind), packet_input = (\<lambda>p. Some (Test_Packet p)),
     message_out = test_try_out\<rparr>"

section \<open>Laws\<close>

lemma insert_routers_spec:
  "insert_routers rs m =
    (if distinct (map router_kind rs) \<and> router_kind ` set rs \<inter> dom m = {}
     then Returned (m ++ map_of (map (\<lambda>r. (router_kind r, r)) rs))
     else Panicked DuplicateRouters)"
proof (induction rs arbitrary: m)
  case (Cons r rs)
  show ?case
  proof (cases "m (router_kind r)")
    case None
    define m' where "m' = m(router_kind r \<mapsto> r)"
    have dom: "dom m' = insert (router_kind r) (dom m)" by (simp add: m'_def)
    have "m' ++ map_of (map (\<lambda>r. (router_kind r, r)) rs) =
        m ++ map_of (map (\<lambda>r. (router_kind r, r)) (r # rs))"
      if "router_kind r \<notin> router_kind ` set rs"
    proof (rule ext)
      fix k
      have "map_of (map (\<lambda>r. (router_kind r, r)) rs) (router_kind r) = None"
        using that by (force simp: map_of_eq_None_iff)
      then show "(m' ++ map_of (map (\<lambda>r. (router_kind r, r)) rs)) k =
          (m ++ map_of (map (\<lambda>r. (router_kind r, r)) (r # rs))) k"
        by (auto simp: m'_def map_add_def split: option.splits)
    qed
    moreover have "insert_routers (r # rs) m = insert_routers rs m'" using None by (simp add: m'_def)
    moreover have "router_kind ` set rs \<inter> dom m' = {} \<longleftrightarrow>
        router_kind r \<notin> router_kind ` set rs \<and> router_kind ` set rs \<inter> dom m = {}"
      unfolding dom by auto
    moreover have "router_kind r \<notin> dom m" using None by auto
    ultimately show ?thesis using Cons.IH [of m']
      by (cases "router_kind r \<in> router_kind ` set rs"; cases "distinct (map router_kind rs)";
        cases "router_kind ` set rs \<inter> dom m = {}") (simp_all del: map_of.simps fun_upd_apply)
  next
    case (Some old)
    then show ?thesis by auto
  qed
qed simp

text \<open>The signal a packet stands for, if any.\<close>

definition packet_signal ::
  "('k, 's, 'i, 'r, 'm, 't, 'p, 'q) ingress \<Rightarrow> ('k, 'p) packet_router \<Rightarrow> 'p \<Rightarrow> ('k, 'i) signal option" where
  "packet_signal I pr p = (case packet_get_id I pr p of
     Returned (Inr (Some i)) \<Rightarrow> map_option (\<lambda>x. \<lparr>sig_id = i, sig_input = x\<rparr>) (packet_input I p)
   | _ \<Rightarrow> None)"

lemma inbound_step_apply:
  "inbound_step I pr p q = (case packet_get_id I pr p of
     Panicked e \<Rightarrow> (Panicked e, q)
   | Returned _ \<Rightarrow> (Returned (), fold push_back (case packet_signal I pr p of None \<Rightarrow> [] | Some s \<Rightarrow> [s]) q))"
  by (auto simp: inbound_step_def packet_signal_def cmd_simps split: outcome.splits sum.splits option.splits)

lemma process_inbound_signals:
  assumes "\<forall>p \<in> set ps. \<exists>r. packet_get_id I pr p = Returned r"
  shows "process_inbound I pr (ps @ qs) q =
    process_inbound I pr qs (fold push_back (List.map_filter (packet_signal I pr) ps) q)"
  using assms
proof (induction ps arbitrary: q)
  case (Cons p ps)
  then obtain r where "packet_get_id I pr p = Returned r" by auto
  with Cons show ?case
    by (simp add: process_inbound_def cmd_simps inbound_step_apply map_filter_simps split: option.splits)
qed (simp add: map_filter_simps)

lemma process_outbound_queue:
  "\<not> chan_closed ch c \<Longrightarrow>
   chan_queue (process_outbound I c ms ch) c = chan_queue ch c @ List.map_filter (message_out I) ms \<and>
   chan_closed (process_outbound I c ms ch) = chan_closed ch"
  unfolding process_outbound_def
proof (induction ms arbitrary: ch)
  case (Cons m ms)
  have "\<not> chan_closed (outbound_step I c m ch) c" and
    "chan_closed (outbound_step I c m ch) = chan_closed ch" and
    "chan_queue (outbound_step I c m ch) c =
      chan_queue ch c @ (case message_out I m of None \<Rightarrow> [] | Some p \<Rightarrow> [p])"
    using Cons.prems by (auto simp: outbound_step_def chan_send_queue split: option.splits)
  with Cons.IH [of "outbound_step I c m ch"] show ?case
    by (auto simp: map_filter_simps split: option.splits)
qed (simp add: map_filter_simps)

section \<open>Properties\<close>

text \<open>
  PacketRouter::new returns the table of the routers by kind when no two share a kind, and
  panics on duplicates otherwise.
\<close>

theorem packet_router_new_spec:
  "(case packet_router_new rs of
     Returned pr \<Rightarrow> distinct (map router_kind rs) \<and>
       pr = map_of (map (\<lambda>r. (router_kind r, r)) rs)
   | Panicked p \<Rightarrow> p = DuplicateRouters \<and> \<not> distinct (map router_kind rs))"
  by (simp add: packet_router_new_def insert_routers_spec)

text \<open>
  C34. When no router panics, the inbound task appends to the back lane of the signal queue, in
  the order of the packets, exactly one signal for each packet that a router gives an id and
  that converts to an input; unroutable, failing and unconvertible packets leave no trace, and
  the priority lane is untouched.
\<close>

theorem inbound_routes:
  assumes "\<forall>p \<in> set ps. \<exists>r. packet_get_id I pr p = Returned r"
  shows "\<exists>q'. process_inbound I pr ps q = (Returned (), q') \<and>
    front_values q' = front_values q \<and>
    back_values q' = back_values q @ List.map_filter (packet_signal I pr) ps"
  using process_inbound_signals [OF assms, of "[]" q]
  by (auto simp: process_inbound_def cmd_simps deque_fifo.fold_push_lo)

theorem inbound_routes_witness:
  "\<exists>q'. process_inbound (test_ingress (\<lambda>_ _. None)) [TestKind \<mapsto> test_router]
      [''unknown_packet'', ''new_state'', ''unsupported_packet''] deque_new = (Returned (), q') \<and>
    back_values q' = [\<lparr>sig_id = \<lparr>kind = TestKind, uuid = 1\<rparr>, sig_input = Test_Packet ''new_state''\<rparr>]"
  using inbound_routes [of "[''unknown_packet'', ''new_state'', ''unsupported_packet'']"
      "test_ingress (\<lambda>_ _. None)" "[TestKind \<mapsto> test_router]" deque_new]
  by (auto simp: packet_get_id_def packet_signal_def test_ingress_def test_router_def starts_with_def
      map_filter_simps new_with_u128_def)

text \<open>
  If a router panics on a packet, the inbound task ends with that panic: the signals of the
  packets before it are in the queue, and the packets behind it are never looked at.
\<close>

theorem inbound_panic_stops:
  assumes "\<forall>p \<in> set ps. \<exists>r. packet_get_id I pr p = Returned r"
    and "packet_get_id I pr p = Panicked e"
  shows "\<exists>q'. process_inbound I pr (ps @ p # rest) q = (Panicked e, q') \<and>
    queue_values q' = queue_values q @ List.map_filter (packet_signal I pr) ps"
  using process_inbound_signals [OF assms(1), of "p # rest" q] assms(2)
  by (simp add: process_inbound_def cmd_simps inbound_step_apply deque_fifo.fold_push_lo queue_values_def)

theorem inbound_panic_stops_witness:
  "\<exists>q'. process_inbound (test_ingress (\<lambda>_ _. None)) [TestKind \<mapsto> test_router]
      [''new_state'', ''other'', ''new_state''] deque_new = (Panicked Unimplemented, q') \<and>
    length (queue_values q') = 1"
proof -
  let ?I = "test_ingress (\<lambda>_ _. None)" and ?pr = "[TestKind \<mapsto> test_router]"
  have "\<forall>p \<in> set [''new_state'']. \<exists>r. packet_get_id ?I ?pr p = Returned r"
    and "packet_get_id ?I ?pr ''other'' = Panicked Unimplemented"
    and "List.map_filter (packet_signal ?I ?pr) [''new_state''] =
      [\<lparr>sig_id = \<lparr>kind = TestKind, uuid = 1\<rparr>, sig_input = Test_Packet ''new_state''\<rparr>]"
    by (simp_all add: packet_get_id_def packet_signal_def test_ingress_def test_router_def
        starts_with_def map_filter_simps new_with_u128_def)
  from inbound_panic_stops [OF this(1,2), of "[''new_state'']" deque_new] this(3) show ?thesis
    by (fastforce simp: queue_values_def)
qed

text \<open>
  For an ingress adapter that is initialised and is the only processor, after one poll of
  the notification manager and the adapter's outbound task, the outbound channel has received,
  in queue order, the packets of exactly those queued notifications that have the adapter's
  topic and convert to a packet.
\<close>

theorem outbound_delivered:
  assumes "adapter_new c out_tx rs t = Returned ad"
    and "adapter_init n ad = (Returned proc, ad')"
    and "nm_poll I (nm_new [proc]) w rx q ch = (rx', q', ch')"
    and "chan_queue ch n = []" and "\<not> chan_closed ch n" and "\<not> chan_closed out out_tx"
  shows "chan_queue (process_outbound I out_tx (chan_queue ch' n) out) out_tx =
    chan_queue out out_tx @
    List.map_filter (message_out I) (filter (\<lambda>m. get_topic I m = t) (front_values q @ back_values q))"
proof -
  have n: "proc = \<lparr>np_channel = n, np_topics = [t]\<rparr>"
    using assms(1,2)
    by (auto simp: adapter_new_def adapter_init_def spawn_inbound_def cmd_simps
        map_outcome_to_Returned_iff)
  have "concat (map (\<lambda>m. replicate (count_list (channels_of [proc] (get_topic I m)) n) m) ms) =
      filter (\<lambda>m. get_topic I m = t) ms" for ms
    by (induction ms) (simp_all add: n channels_of_def)
  moreover have "chan_queue ch' n = chan_queue ch n @ concat (map (\<lambda>m.
      replicate (count_list (channels_of [proc] (get_topic I m)) n) m) (front_values q @ back_values q))"
    using nm_poll_drains [OF assms(3)]
      fold_route_queue [OF assms(5), of I "[proc]" "front_values q @ back_values q"]
    by (simp add: queue_values_def)
  ultimately have "chan_queue ch' n = filter (\<lambda>m. get_topic I m = t) (front_values q @ back_values q)"
    using assms(4) by simp
  with process_outbound_queue [OF assms(6), of I "chan_queue ch' n"] show ?thesis by simp
qed

theorem outbound_delivered_witness:
  "\<exists>rx q ch. nm_poll (test_ingress (\<lambda>_ _. None)) (nm_new [\<lparr>np_channel = 3, np_topics = [Topic_Ingress]\<rparr>]) 7
      stream (nq_send Msg_Other (nq_send (Msg_Ingress ''hi'') deque_new)) channels_new = (rx, q, ch) \<and>
    chan_queue (process_outbound (test_ingress (\<lambda>_ _. None)) 2 (chan_queue ch 3) channels_new) 2 = [''hi'']"
proof -
  let ?I = "test_ingress (\<lambda>_ _. None)" and ?p = "\<lparr>np_channel = 3, np_topics = [Topic_Ingress]\<rparr>"
  let ?q = "nq_send Msg_Other (nq_send (Msg_Ingress ''hi'') deque_new)"
  obtain rx q ch where run: "nm_poll ?I (nm_new [?p]) 7 stream ?q channels_new = (rx, q, ch)"
    by (metis prod_cases3)
  have a: "adapter_new 1 2 [test_router] Topic_Ingress = Returned \<lparr>outbound_tx = 2,
      router = [TestKind \<mapsto> test_router], inbound_tx = 1, inbound_rx = Some 1, ingress_topic = Topic_Ingress\<rparr>"
    by (simp add: adapter_new_def packet_router_new_def test_router_def)
  have "adapter_init 3 \<lparr>outbound_tx = 2, router = [TestKind \<mapsto> test_router], inbound_tx = 1,
      inbound_rx = Some 1, ingress_topic = Topic_Ingress\<rparr> = (Returned ?p, \<lparr>outbound_tx = 2,
      router = [TestKind \<mapsto> test_router], inbound_tx = 1, inbound_rx = None, ingress_topic = Topic_Ingress\<rparr>)"
    by (simp add: adapter_init_def spawn_inbound_def cmd_simps)
  from outbound_delivered [OF a this run, of channels_new] run show ?thesis
    by (simp add: channels_new_def test_ingress_def map_filter_simps nq_send_def)
qed

end
