(* ===== verification/Rex_Btree.thy ===== *)
theory Rex_Btree
  imports Rex_Prelude
begin

text \<open>
  \<open>std::collections::BTreeMap\<close>, as far as the crate uses it: an association list with
  strictly increasing keys. The laws the timeout ledger relies on are stated as a locale and
  interpreted on the list.
\<close>

section \<open>Operations\<close>

type_synonym ('k, 'v) btree = "('k \<times> 'v) list"

definition bt_wf :: "('k::linorder, 'v) btree \<Rightarrow> bool" where
  "bt_wf m \<longleftrightarrow> sorted_wrt (<) (map fst m)"

text \<open>\<open>get_mut(k).map(f)\<close> and \<open>entry(k).and_modify(f)\<close>.\<close>

definition bt_modify :: "'k \<Rightarrow> ('v \<Rightarrow> 'v) \<Rightarrow> ('k, 'v) btree \<Rightarrow> ('k, 'v) btree" where
  "bt_modify k f m = map (\<lambda>(a, v). (a, if a = k then f v else v)) m"

text \<open>\<open>f\<close> applied to \<open>entry(k).or_default()\<close>, where \<open>d\<close> is the default.\<close>

fun bt_entry :: "'k::linorder \<Rightarrow> 'v \<Rightarrow> ('v \<Rightarrow> 'v) \<Rightarrow> ('k, 'v) btree \<Rightarrow> ('k, 'v) btree" where
  "bt_entry k d f [] = [(k, f d)]"
| "bt_entry k d f ((a, v) # m) =
     (if k < a then (k, f d) # (a, v) # m
      else if k = a then (a, f v) # m
      else (a, v) # bt_entry k d f m)"

text \<open>
  \<open>split_off(&k)\<close> keeps the entries below \<open>k\<close> and returns those at or above it.
\<close>

definition bt_below :: "'k::linorder \<Rightarrow> ('k, 'v) btree \<Rightarrow> ('k, 'v) btree" where
  "bt_below k m = filter (\<lambda>(a, v). a < k) m"

definition bt_from :: "'k::linorder \<Rightarrow> ('k, 'v) btree \<Rightarrow> ('k, 'v) btree" where
  "bt_from k m = filter (\<lambda>(a, v). \<not> a < k) m"

definition bt_split_off :: "'k::linorder \<Rightarrow> ('k, 'v) btree \<Rightarrow> ('k, 'v) btree \<times> ('k, 'v) btree" where
  "bt_split_off k m = (bt_below k m, bt_from k m)"

definition bt_into_values :: "('k, 'v) btree \<Rightarrow> 'v list" where
  "bt_into_values m = map snd m"

section \<open>Laws\<close>

lemma keys_modify [simp]: "map fst (bt_modify k f m) = map fst m"
  by (simp add: bt_modify_def comp_def split_beta)

lemma keys_entry: "set (map fst (bt_entry k d f m)) = insert k (set (map fst m))"
  by (induction k d f m rule: bt_entry.induct) auto

lemma bt_wf_Cons: "bt_wf ((a, v) # m) \<longleftrightarrow> (\<forall>b \<in> set (map fst m). a < b) \<and> bt_wf m"
  by (simp add: bt_wf_def)

lemma bt_wf_distinct: "bt_wf m \<Longrightarrow> distinct (map fst m)"
  by (simp add: bt_wf_def strict_sorted_iff)

lemma bt_wf_entry: "bt_wf m \<Longrightarrow> bt_wf (bt_entry k d f m)"
proof (induction m)
  case Nil
  then show ?case by (simp add: bt_wf_def)
next
  case (Cons e m)
  obtain a v where e: "e = (a, v)" by (cases e)
  have "\<forall>b \<in> set (map fst (bt_entry k d f m)). a < b" if "a < k"
    using Cons.prems that unfolding keys_entry by (auto simp: e bt_wf_Cons)
  with Cons show ?case by (auto simp: e bt_wf_Cons dest: less_trans)
qed

lemma map_of_entry:
  "bt_wf m \<Longrightarrow> map_of (bt_entry k d f m) =
    (map_of m)(k \<mapsto> f (case map_of m k of None \<Rightarrow> d | Some v \<Rightarrow> v))"
proof (induction m)
  case (Cons e m)
  obtain a v where e: "e = (a, v)" by (cases e)
  have low: "map_of m k = None" if "k < a"
    using Cons.prems that by (auto simp: e bt_wf_Cons map_of_eq_None_iff)
  from Cons show ?case by (auto simp: e bt_wf_Cons low fun_upd_twist)
qed auto

lemma map_of_modify: "map_of (bt_modify k f m) = (\<lambda>a. if a = k then map_option f (map_of m a) else map_of m a)"
  by (induction m) (auto simp: bt_modify_def)

lemma bt_wf_filter: "bt_wf m \<Longrightarrow> bt_wf (filter P m)"
  by (simp add: bt_wf_def sorted_wrt_map sorted_wrt_filter)

lemma map_of_filter_keys: "map_of (filter (\<lambda>(a, v). P a) m) = (\<lambda>a. if P a then map_of m a else None)"
  by (induction m) auto

text \<open>The contract of an ordered map with split.\<close>

locale ordered_map =
  fixes lookup :: "'m \<Rightarrow> 'k::linorder \<Rightarrow> 'v option"
    and modify :: "'k \<Rightarrow> ('v \<Rightarrow> 'v) \<Rightarrow> 'm \<Rightarrow> 'm"
    and entry :: "'k \<Rightarrow> 'v \<Rightarrow> ('v \<Rightarrow> 'v) \<Rightarrow> 'm \<Rightarrow> 'm"
    and split :: "'k \<Rightarrow> 'm \<Rightarrow> 'm \<times> 'm"
    and pairs :: "'m \<Rightarrow> ('k \<times> 'v) list"
    and inv :: "'m \<Rightarrow> bool"
  assumes modify_inv: "inv m \<Longrightarrow> inv (modify k f m)"
    and modify_lookup: "inv m \<Longrightarrow> lookup (modify k f m) a =
      (if a = k then map_option f (lookup m a) else lookup m a)"
    and entry_inv: "inv m \<Longrightarrow> inv (entry k d f m)"
    and entry_lookup: "inv m \<Longrightarrow> lookup (entry k d f m) a =
      (if a = k then Some (f (case lookup m k of None \<Rightarrow> d | Some v \<Rightarrow> v)) else lookup m a)"
    and split_inv: "inv m \<Longrightarrow> inv (fst (split k m)) \<and> inv (snd (split k m))"
    and split_below: "inv m \<Longrightarrow> lookup (fst (split k m)) a = (if a < k then lookup m a else None)"
    and split_from: "inv m \<Longrightarrow> lookup (snd (split k m)) a = (if a < k then None else lookup m a)"
    and pairs_lookup: "inv m \<Longrightarrow> (a, v) \<in> set (pairs m) \<longleftrightarrow> lookup m a = Some v"
    and pairs_sorted: "inv m \<Longrightarrow> sorted_wrt (<) (map fst (pairs m))"
begin

text \<open>Modifying a key and then making an entry for another touches the two keys only.\<close>

lemma move_lookup:
  assumes "inv m" and "j \<noteq> k"
  shows "lookup (entry k d g (modify j f m)) a =
    (if a = k then Some (g (case lookup m k of None \<Rightarrow> d | Some v \<Rightarrow> v))
     else if a = j then map_option f (lookup m j) else lookup m a)"
  using assms by (simp add: entry_lookup modify_lookup modify_inv)

lemma split_disjoint:
  assumes "inv m" and "lookup (fst (split k m)) a \<noteq> None"
  shows "lookup (snd (split k m)) a = None"
  using assms by (auto simp: split_below split_from split: if_splits)

lemma split_pairs:
  assumes "inv m"
  shows "(a, v) \<in> set (pairs (fst (split k m))) \<longleftrightarrow> a < k \<and> lookup m a = Some v"
  using assms split_inv [OF assms, of k] by (auto simp: pairs_lookup split_below)

end

interpretation bt: ordered_map map_of bt_modify bt_entry bt_split_off "\<lambda>m. m" bt_wf
proof
  fix m :: "('a, 'b) btree"
  assume wf: "bt_wf m"
  show "bt_wf (bt_modify k f m)" for k f using wf by (simp add: bt_wf_def)
  show "map_of (bt_modify k f m) a = (if a = k then map_option f (map_of m a) else map_of m a)"
    for k f a by (simp add: map_of_modify)
  show "bt_wf (bt_entry k d f m)" for k d f using wf by (rule bt_wf_entry)
  show "map_of (bt_entry k d f m) a =
      (if a = k then Some (f (case map_of m k of None \<Rightarrow> d | Some v \<Rightarrow> v)) else map_of m a)"
    for k d f a using wf by (simp add: map_of_entry)
  show "bt_wf (fst (bt_split_off k m)) \<and> bt_wf (snd (bt_split_off k m))" for k
    using wf by (simp add: bt_split_off_def bt_below_def bt_from_def bt_wf_filter)
  show "map_of (fst (bt_split_off k m)) a = (if a < k then map_of m a else None)" for k a
    using map_of_filter_keys [of "\<lambda>b. b < k" m] by (simp add: bt_split_off_def bt_below_def)
  show "map_of (snd (bt_split_off k m)) a = (if a < k then None else map_of m a)" for k a
    using map_of_filter_keys [of "\<lambda>b. \<not> b < k" m] by (simp add: bt_split_off_def bt_from_def)
  show "(a, v) \<in> set m \<longleftrightarrow> map_of m a = Some v" for a v
    using wf by (simp add: bt_wf_distinct)
  show "sorted_wrt (<) (map fst m)" using wf by (simp add: bt_wf_def)
qed

end
