(* ===== verification/Rex_Timeout.thy ===== *)
theory Rex_Timeout
  imports Rex_Queue Rex_Btree Rex_Kinds
begin

text \<open>
  \<open>src/timeout.rs\<close>: the doubly indexed \<open>TimeoutLedger\<close>, the operations the manager applies
  to it and the tick that releases what is due. Logging is not modelled. The order in which a
  \<open>HashSet\<close> is iterated is unspecified: a tick takes it as an argument, which may differ from
  tick to tick.
\<close>

section \<open>The ledger\<close>

record ('k, 'r) ledger =
  timers :: "(instant, 'k state_id set) btree"
  timer_ids :: "'k state_id \<rightharpoonup> instant"
  retainer :: "(instant, ('k state_id \<times> 'r) list) btree"

definition ledger_new :: "('k, 'r) ledger" where
  "ledger_new = \<lparr>timers = [], timer_ids = Map.empty, retainer = []\<rparr>"

definition ledger_retain :: "'k state_id \<Rightarrow> instant \<Rightarrow> 'r \<Rightarrow> ('k, 'r) ledger \<Rightarrow> ('k, 'r) ledger" where
  "ledger_retain i t x L = L\<lparr>retainer := bt_entry t [] (\<lambda>v. v @ [(i, x)]) (retainer L)\<rparr>"

definition ledger_set_timeout :: "'k state_id \<Rightarrow> instant \<Rightarrow> ('k, 'r) ledger \<Rightarrow> ('k, 'r) ledger" where
  "ledger_set_timeout i t L =
     (let old = timer_ids L i;
          ts = (case old of
              Some old_instant \<Rightarrow>
                if old_instant \<noteq> t then bt_modify old_instant (\<lambda>S. S - {i}) (timers L) else timers L
            | None \<Rightarrow> timers L)
      in L\<lparr>timer_ids := (timer_ids L)(i \<mapsto> t),
           timers := bt_entry t {} (insert i) (bt_modify t (insert i) ts)\<rparr>)"

definition ledger_cancel_timeout :: "'k state_id \<Rightarrow> ('k, 'r) ledger \<Rightarrow> ('k, 'r) ledger" where
  "ledger_cancel_timeout i L = (case timer_ids L i of
     Some t \<Rightarrow> L\<lparr>timer_ids := (timer_ids L)(i := None),
                timers := bt_modify t (\<lambda>S. S - {i}) (timers L)\<rparr>
   | None \<Rightarrow> L)"

text \<open>The body of the notification task: convert the message and apply the operation.\<close>

primrec apply_operation :: "'k state_id \<Rightarrow> 'r operation \<Rightarrow> ('k, 'r) ledger \<Rightarrow> ('k, 'r) ledger" where
  "apply_operation i Cancel L = ledger_cancel_timeout i L"
| "apply_operation i (Set t) L = ledger_set_timeout i t L"
| "apply_operation i (Retain x t) L = ledger_retain i t x L"

definition timeout_notified ::
  "('k, 's, 'i, 'r, 'm, 't, 'z) rex_scheme \<Rightarrow> 'm \<Rightarrow> ('k, 'r) ledger \<Rightarrow> ('k, 'r) ledger" where
  "timeout_notified R m L = (case try_timeout R m of
     Some req \<Rightarrow> apply_operation (req_id req) (req_op req) L
   | None \<Rightarrow> L)"

section \<open>The tick\<close>

type_synonym 'a hash_order = "'a set \<Rightarrow> 'a list"

definition hash_order_ok :: "'a hash_order \<Rightarrow> bool" where
  "hash_order_ok it \<longleftrightarrow> (\<forall>S. finite S \<longrightarrow> distinct (it S) \<and> set (it S) = S)"

definition push_signal :: "'k state_id \<Rightarrow> 'i option \<Rightarrow> ('k, 'i) signal deque \<Rightarrow> ('k, 'i) signal deque" where
  "push_signal i inp q = (case inp of
     Some x \<Rightarrow> push_front \<lparr>sig_id = i, sig_input = x\<rparr> q
   | None \<Rightarrow> q)"

fun release_timers ::
  "('k, 's, 'i, 'r, 'm, 't, 'z) rex_scheme \<Rightarrow> instant \<Rightarrow> 'k state_id list \<Rightarrow>
   ('k, 'r) ledger \<times> ('k, 'i) signal deque \<Rightarrow> ('k, 'r) ledger \<times> ('k, 'i) signal deque" where
  "release_timers R t [] s = s"
| "release_timers R t (i # is) (L, q) =
     release_timers R t is
       (L\<lparr>timer_ids := (timer_ids L)(i := None)\<rparr>, push_signal i (timeout_input R (kind i) t) q)"

fun release_retained ::
  "('k, 's, 'i, 'r, 'm, 't, 'z) rex_scheme \<Rightarrow> ('k state_id \<times> 'r) list \<Rightarrow>
   ('k, 'i) signal deque \<Rightarrow> ('k, 'i) signal deque" where
  "release_retained R [] q = q"
| "release_retained R ((i, x) # xs) q =
     release_retained R xs (push_signal i (return_item R (kind i) x) q)"

definition due_ids :: "'k state_id hash_order \<Rightarrow> instant \<Rightarrow> ('k, 'r) ledger \<Rightarrow> 'k state_id list" where
  "due_ids it t L = concat (map it (bt_into_values (fst (bt_split_off t (timers L)))))"

definition due_items :: "instant \<Rightarrow> ('k, 'r) ledger \<Rightarrow> ('k state_id \<times> 'r) list" where
  "due_items t L = concat (bt_into_values (fst (bt_split_off t (retainer L))))"

definition tick ::
  "('k, 's, 'i, 'r, 'm, 't, 'z) rex_scheme \<Rightarrow> 'k state_id hash_order \<Rightarrow> instant \<Rightarrow>
   ('k, 'r) ledger \<times> ('k, 'i) signal deque \<Rightarrow> ('k, 'r) ledger \<times> ('k, 'i) signal deque" where
  "tick R it t s = (case s of (L, q) \<Rightarrow>
     (let (L1, q1) = release_timers R t (due_ids it t L)
            (L\<lparr>timers := snd (bt_split_off t (timers L))\<rparr>, q);
          items = due_items t L1
      in (L1\<lparr>retainer := snd (bt_split_off t (retainer L1))\<rparr>, release_retained R items q1)))"

section \<open>Requests\<close>

definition from_duration :: "instant \<Rightarrow> duration \<Rightarrow> 'r operation outcome" where
  "from_duration now d = map_outcome_to (\<lambda>t. Returned (Set t)) (instant_add now d)"

definition from_millis :: "instant \<Rightarrow> u64 \<Rightarrow> 'r operation outcome" where
  "from_millis now ms = map_outcome_to (\<lambda>t. Returned (Set t)) (instant_add now (duration_from_millis ms))"

definition request_set_timeout ::
  "instant \<Rightarrow> 'k state_id \<Rightarrow> duration \<Rightarrow> ('k, 'r) timeout_input outcome" where
  "request_set_timeout now i d =
     map_outcome_to (\<lambda>x. Returned \<lparr>req_id = i, req_op = x\<rparr>) (from_duration now d)"

definition request_set_timeout_millis ::
  "instant \<Rightarrow> 'k state_id \<Rightarrow> u64 \<Rightarrow> ('k, 'r) timeout_input outcome" where
  "request_set_timeout_millis now i ms =
     map_outcome_to (\<lambda>x. Returned \<lparr>req_id = i, req_op = x\<rparr>) (from_millis now ms)"

definition request_cancel_timeout :: "'k state_id \<Rightarrow> ('k, 'r) timeout_input" where
  "request_cancel_timeout i = \<lparr>req_id = i, req_op = Cancel\<rparr>"

definition request_retain ::
  "instant \<Rightarrow> 'k state_id \<Rightarrow> 'r \<Rightarrow> duration \<Rightarrow> ('k, 'r) timeout_input outcome" where
  "request_retain now i x d =
     map_outcome_to (\<lambda>t. Returned \<lparr>req_id = i, req_op = Retain x t\<rparr>) (instant_add now d)"

text \<open>\<open>with_id\<close> and \<open>with_op\<close>, which the tests use.\<close>

definition request_with_id :: "('k, 'r) timeout_input \<Rightarrow> 'k state_id \<Rightarrow> ('k, 'r) timeout_input" where
  "request_with_id x i = x\<lparr>req_id := i\<rparr>"

definition request_with_op :: "('k, 'r) timeout_input \<Rightarrow> 'r operation \<Rightarrow> ('k, 'r) timeout_input" where
  "request_with_op x o' = x\<lparr>req_op := o'\<rparr>"

section \<open>The linter\<close>

text \<open>
  \<open>lint_instant\<close> reads the clock and writes to the log; the lines it writes are its result. The
  difference of two instants is zero when the second is the later one.
\<close>

datatype lint = Requested_in_the_past | Short_timeout nat | Setting_timeout nat

definition short_timeout :: duration where
  "short_timeout = duration_from_secs 10"

definition lint_instant :: "instant \<Rightarrow> instant \<Rightarrow> lint list" where
  "lint_instant now t =
     (if t < now then [Requested_in_the_past] else []) @
     (let d = t - now in
      if d \<le> duration_nanos short_timeout then [Short_timeout d] else [Setting_timeout d])"

lemma short_timeout_nanos: "duration_nanos short_timeout = 10000000000"
  by (simp add: short_timeout_def duration_from_secs_def duration_nanos_def nanos_per_sec_def)

text \<open>A request for the past is also reported as a short timeout, of no length.\<close>

lemma lint_past: "t < now \<Longrightarrow> lint_instant now t = [Requested_in_the_past, Short_timeout 0]"
  by (simp add: lint_instant_def)

text \<open>
  The clock is read again when the request arrives, so what is reported for a timeout of \<open>d\<close> is
  \<open>d\<close> less the time it was under way.
\<close>

lemma lint_set_timeout:
  assumes "request_set_timeout t0 i d = Returned \<lparr>req_id = i, req_op = Set t\<rparr>" and "t0 \<le> now"
    and "now \<le> t0 + duration_nanos d"
  shows "lint_instant now t = [(if duration_nanos d \<le> 10000000000 + (now - t0) then Short_timeout else Setting_timeout)
    (duration_nanos d - (now - t0))]"
  using assms
  by (auto simp: request_set_timeout_def from_duration_def instant_add_Returned_iff map_outcome_to_Returned_iff
      lint_instant_def short_timeout_nanos Let_def)

section \<open>The invariant of the two indices\<close>

definition ledger_wf :: "('k, 'r) ledger \<Rightarrow> bool" where
  "ledger_wf L \<longleftrightarrow>
     bt_wf (timers L) \<and> bt_wf (retainer L) \<and>
     (\<forall>t S. map_of (timers L) t = Some S \<longrightarrow> finite S) \<and>
     (\<forall>i t. timer_ids L i = Some t \<longleftrightarrow> (\<exists>S. map_of (timers L) t = Some S \<and> i \<in> S))"

lemma ledger_wfD:
  assumes "ledger_wf L"
  shows "bt_wf (timers L)" and "bt_wf (retainer L)"
    and "map_of (timers L) t = Some S \<Longrightarrow> finite S"
    and "timer_ids L i = Some t \<longleftrightarrow> (\<exists>S. map_of (timers L) t = Some S \<and> i \<in> S)"
  using assms unfolding ledger_wf_def by blast+

lemma ledger_new_wf: "ledger_wf ledger_new"
  by (simp add: ledger_wf_def ledger_new_def bt_wf_def)

lemma set_timeout_timers:
  assumes "ledger_wf L"
  shows "map_of (timers (ledger_set_timeout i t L)) a =
    (if a = t then Some (insert i (case map_of (timers L) t of None \<Rightarrow> {} | Some S \<Rightarrow> S))
     else if timer_ids L i = Some a then map_option (\<lambda>S. S - {i}) (map_of (timers L) a)
     else map_of (timers L) a)"
  using ledger_wfD(1) [OF assms]
  by (auto simp: ledger_set_timeout_def Let_def bt.entry_lookup bt.modify_lookup bt.modify_inv
      split: option.splits)

lemma set_timeout_wf:
  assumes wf: "ledger_wf L"
  shows "ledger_wf (ledger_set_timeout i t L)"
proof -
  let ?L = "ledger_set_timeout i t L"
  have "bt_wf (timers ?L)" and ret: "bt_wf (retainer ?L)"
    using ledger_wfD(1,2) [OF wf]
    by (auto simp: ledger_set_timeout_def Let_def bt.entry_inv bt.modify_inv split: option.splits)
  moreover have "finite S" if "map_of (timers ?L) a = Some S" for a S
    using that ledger_wfD(3) [OF wf] unfolding set_timeout_timers [OF wf]
    by (auto split: if_splits option.splits)
  moreover have "timer_ids ?L j = Some a \<longleftrightarrow> (\<exists>S. map_of (timers ?L) a = Some S \<and> j \<in> S)" for j a
  proof -
    have ids': "timer_ids ?L = (timer_ids L)(i \<mapsto> t)"
      by (simp add: ledger_set_timeout_def Let_def)
    show ?thesis
      using ledger_wfD(4) [OF wf, of j a] ledger_wfD(4) [OF wf, of i a]
      unfolding set_timeout_timers [OF wf] ids' by (auto split: option.splits)
  qed
  ultimately show ?thesis unfolding ledger_wf_def by blast
qed

lemma cancel_timeout_wf:
  assumes wf: "ledger_wf L"
  shows "ledger_wf (ledger_cancel_timeout i L)"
proof (cases "timer_ids L i")
  case None
  with wf show ?thesis by (simp add: ledger_cancel_timeout_def)
next
  case (Some t)
  let ?L = "ledger_cancel_timeout i L"
  have ts: "map_of (timers ?L) a =
      (if a = t then map_option (\<lambda>S. S - {i}) (map_of (timers L) a) else map_of (timers L) a)" for a
    using ledger_wfD(1) [OF wf] Some by (simp add: ledger_cancel_timeout_def bt.modify_lookup)
  have ids': "timer_ids ?L = (timer_ids L)(i := None)"
    using Some by (simp add: ledger_cancel_timeout_def)
  have "bt_wf (timers ?L)" and "bt_wf (retainer ?L)"
    using ledger_wfD(1,2) [OF wf] Some by (simp_all add: ledger_cancel_timeout_def bt.modify_inv)
  moreover have "finite S" if "map_of (timers ?L) a = Some S" for a S
    using that ledger_wfD(3) [OF wf] unfolding ts by (auto split: if_splits)
  moreover have "timer_ids ?L j = Some a \<longleftrightarrow> (\<exists>S. map_of (timers ?L) a = Some S \<and> j \<in> S)" for j a
    using ledger_wfD(4) [OF wf, of j a] ledger_wfD(4) [OF wf, of i a] Some
    unfolding ts ids' by auto
  ultimately show ?thesis unfolding ledger_wf_def by blast
qed

lemma retain_wf: "ledger_wf L \<Longrightarrow> ledger_wf (ledger_retain i t x L)"
  using bt.entry_inv [of "retainer L"] by (auto simp: ledger_wf_def ledger_retain_def)

lemma apply_operation_wf: "ledger_wf L \<Longrightarrow> ledger_wf (apply_operation i x L)"
  by (cases x) (simp_all add: set_timeout_wf cancel_timeout_wf retain_wf)

section \<open>What a tick does\<close>

definition timeout_signals ::
  "('k, 's, 'i, 'r, 'm, 't, 'z) rex_scheme \<Rightarrow> instant \<Rightarrow> 'k state_id list \<Rightarrow> ('k, 'i) signal list" where
  "timeout_signals R t is =
     List.map_filter (\<lambda>i. map_option (\<lambda>x. \<lparr>sig_id = i, sig_input = x\<rparr>) (timeout_input R (kind i) t)) is"

definition item_signals ::
  "('k, 's, 'i, 'r, 'm, 't, 'z) rex_scheme \<Rightarrow> ('k state_id \<times> 'r) list \<Rightarrow> ('k, 'i) signal list" where
  "item_signals R xs =
     List.map_filter (\<lambda>(i, x). map_option (\<lambda>y. \<lparr>sig_id = i, sig_input = y\<rparr>) (return_item R (kind i) x)) xs"

lemma push_signal_lanes [simp]:
  "front_values (push_signal i inp q) =
     front_values q @ (case inp of None \<Rightarrow> [] | Some x \<Rightarrow> [\<lparr>sig_id = i, sig_input = x\<rparr>])"
  "back_values (push_signal i inp q) = back_values q"
  by (simp_all add: push_signal_def split: option.splits)

lemma release_timers_ledger:
  "fst (release_timers R t is (L, q)) = L\<lparr>timer_ids := (timer_ids L) |` (- set is)\<rparr>"
proof (induction "is" arbitrary: L q)
  case Nil
  then show ?case by simp
next
  case (Cons i "is")
  have "(timer_ids L)(i := None) |` (- set is) = timer_ids L |` (- set (i # is))"
    by (auto simp: restrict_map_def fun_eq_iff)
  then show ?case by (cases L) (simp only: release_timers.simps Cons.IH ledger.simps)
qed

lemma release_timers_queue:
  "front_values (snd (release_timers R t is (L, q))) = front_values q @ timeout_signals R t is"
  "back_values (snd (release_timers R t is (L, q))) = back_values q"
  by (induction "is" arbitrary: L q)
    (auto simp: timeout_signals_def List.map_filter_simps split: option.splits)

lemma release_retained_queue:
  "front_values (release_retained R xs q) = front_values q @ item_signals R xs"
  "back_values (release_retained R xs q) = back_values q"
  by (induction xs arbitrary: q)
    (auto simp: item_signals_def List.map_filter_simps split: option.splits)

lemma tick_ledger:
  "fst (tick R it t (L, q)) =
   L\<lparr>timers := snd (bt_split_off t (timers L)),
     timer_ids := (timer_ids L) |` (- set (due_ids it t L)),
     retainer := snd (bt_split_off t (retainer L))\<rparr>"
  using release_timers_ledger [of R t "due_ids it t L" "L\<lparr>timers := snd (bt_split_off t (timers L))\<rparr>" q]
  by (simp add: tick_def Let_def split_beta)

lemma tick_queue:
  "front_values (snd (tick R it t (L, q))) =
     front_values q @ timeout_signals R t (due_ids it t L) @ item_signals R (due_items t L)"
  "back_values (snd (tick R it t (L, q))) = back_values q"
  using release_timers_ledger [of R t "due_ids it t L" "L\<lparr>timers := snd (bt_split_off t (timers L))\<rparr>" q]
    release_timers_queue [of R t "due_ids it t L" "L\<lparr>timers := snd (bt_split_off t (timers L))\<rparr>" q]
  by (simp_all add: tick_def Let_def split_beta release_retained_queue due_items_def)

lemma concat_hash_order:
  assumes "hash_order_ok it" and "bt_wf m"
    and "\<And>a S. (a, S) \<in> set m \<Longrightarrow> finite S \<and> (\<forall>i \<in> S. f i = Some a)"
  shows "distinct (concat (map it (map snd m))) \<and>
    set (concat (map it (map snd m))) = \<Union> (snd ` set m) \<and>
    sorted (map (\<lambda>i. the (f i)) (concat (map it (map snd m))))"
  using assms(2,3)
proof (induction m)
  case Nil
  then show ?case by simp
next
  case (Cons e m)
  obtain a S where e: "e = (a, S)" by (cases e)
  have S: "finite S" "\<And>i. i \<in> S \<Longrightarrow> f i = Some a" and wf: "bt_wf m"
    and above: "\<And>b T. (b, T) \<in> set m \<Longrightarrow> a < b"
    using Cons.prems by (auto simp: e bt_wf_Cons)
  have it: "distinct (it S)" "set (it S) = S"
    using assms(1) S(1) by (auto simp: hash_order_ok_def)
  have IH: "distinct (concat (map it (map snd m)))"
    "set (concat (map it (map snd m))) = \<Union> (snd ` set m)"
    "sorted (map (\<lambda>i. the (f i)) (concat (map it (map snd m))))"
    using Cons.IH [OF wf] Cons.prems(2) by auto
  have rest: "\<exists>b > a. f i = Some b" if "i \<in> \<Union> (snd ` set m)" for i
    using that Cons.prems(2) above by fastforce
  have disj: "S \<inter> \<Union> (snd ` set m) = {}"
    using rest S(2) by fastforce
  have "sorted (map (\<lambda>i. the (f i)) (it S))"
  proof -
    have "map (\<lambda>i. the (f i)) (it S) = map (\<lambda>_. a) (it S)"
      using S(2) it(2) by (intro map_cong) auto
    then show ?thesis by (simp add: map_replicate_const)
  qed
  moreover have "the (f i) \<le> the (f j)" if "i \<in> S" "j \<in> \<Union> (snd ` set m)" for i j
    using S(2) [OF that(1)] rest [OF that(2)] by auto
  ultimately show ?case
    using it IH disj by (auto simp: e sorted_append)
qed

lemma due_ids_spec:
  assumes wf: "ledger_wf L" and it: "hash_order_ok it"
  shows "distinct (due_ids it t L) \<and>
    set (due_ids it t L) = {i. \<exists>a < t. timer_ids L i = Some a} \<and>
    sorted (map (\<lambda>i. the (timer_ids L i)) (due_ids it t L))"
proof -
  let ?m = "fst (bt_split_off t (timers L))"
  have mwf: "bt_wf ?m" using bt.split_inv [OF ledger_wfD(1) [OF wf]] by blast
  have mem: "(a, S) \<in> set ?m \<longleftrightarrow> a < t \<and> map_of (timers L) a = Some S" for a S
    by (rule bt.split_pairs [OF ledger_wfD(1) [OF wf]])
  have "\<Union> (snd ` set ?m) = {i. \<exists>a < t. timer_ids L i = Some a}"
  proof (rule set_eqI)
    fix i
    have "i \<in> \<Union> (snd ` set ?m) \<longleftrightarrow> (\<exists>a S. (a, S) \<in> set ?m \<and> i \<in> S)" by force
    also have "\<dots> \<longleftrightarrow> (\<exists>a < t. timer_ids L i = Some a)"
      unfolding mem ledger_wfD(4) [OF wf] by blast
    finally show "i \<in> \<Union> (snd ` set ?m) \<longleftrightarrow> i \<in> {i. \<exists>a < t. timer_ids L i = Some a}" by simp
  qed
  moreover have "finite S \<and> (\<forall>i \<in> S. timer_ids L i = Some a)" if "(a, S) \<in> set ?m" for a S
    using that ledger_wfD(3) [OF wf] ledger_wfD(4) [OF wf] unfolding mem by blast
  ultimately show ?thesis
    using concat_hash_order [OF it mwf, of "timer_ids L"]
    unfolding due_ids_def bt_into_values_def by simp
qed

lemma tick_wf:
  assumes wf: "ledger_wf L" and it: "hash_order_ok it"
  shows "ledger_wf (fst (tick R it t (L, q)))"
    and "timer_ids (fst (tick R it t (L, q))) =
      (timer_ids L) |` {i. \<not> (\<exists>a < t. timer_ids L i = Some a)}"
proof -
  let ?L = "fst (tick R it t (L, q))"
  have due: "set (due_ids it t L) = {i. \<exists>a < t. timer_ids L i = Some a}"
    using due_ids_spec [OF wf it] by blast
  show ids': "timer_ids ?L = (timer_ids L) |` {i. \<not> (\<exists>a < t. timer_ids L i = Some a)}"
    unfolding tick_ledger due by (simp add: Collect_neg_eq [symmetric])
  have ts: "map_of (timers ?L) a = (if a < t then None else map_of (timers L) a)" for a
    using bt.split_from [OF ledger_wfD(1) [OF wf]] by (simp add: tick_ledger)
  have "bt_wf (timers ?L)" and "bt_wf (retainer ?L)"
    using bt.split_inv [OF ledger_wfD(1) [OF wf]] bt.split_inv [OF ledger_wfD(2) [OF wf]]
    by (simp_all add: tick_ledger)
  moreover have "finite S" if "map_of (timers ?L) a = Some S" for a S
    using that ledger_wfD(3) [OF wf] unfolding ts by (auto split: if_splits)
  moreover have "timer_ids ?L j = Some a \<longleftrightarrow> (\<exists>S. map_of (timers ?L) a = Some S \<and> j \<in> S)" for j a
    using ledger_wfD(4) [OF wf, of j a] unfolding ts ids' by (auto simp: restrict_map_def)
  ultimately show "ledger_wf ?L" unfolding ledger_wf_def by blast
qed

section \<open>The timer service, abstractly\<close>

text \<open>
  What the ledger promises: one deadline per id, and the retained items with their instants
  in the order in which they were handed over.
\<close>

type_synonym ('k, 'r) timer_abs =
  "('k state_id \<rightharpoonup> instant) \<times> (instant \<times> 'k state_id \<times> 'r) list"

datatype ('k, 'r) timer_event =
    Operate "'k state_id" "'r operation"
  | Tick "'k state_id hash_order" instant

fun timer_abs_step :: "('k, 'r) timer_event \<Rightarrow> ('k, 'r) timer_abs \<Rightarrow> ('k, 'r) timer_abs" where
  "timer_abs_step (Operate i Cancel) (D, H) = (D(i := None), H)"
| "timer_abs_step (Operate i (Set t)) (D, H) = (D(i \<mapsto> t), H)"
| "timer_abs_step (Operate i (Retain x t)) (D, H) = (D, H @ [(t, i, x)])"
| "timer_abs_step (Tick it t) (D, H) =
     (D |` {i. \<not> (\<exists>a < t. D i = Some a)}, filter (\<lambda>h. \<not> fst h < t) H)"

primrec timer_step ::
  "('k, 's, 'i, 'r, 'm, 't, 'z) rex_scheme \<Rightarrow> ('k, 'r) timer_event \<Rightarrow>
   ('k, 'r) ledger \<times> ('k, 'i) signal deque \<Rightarrow> ('k, 'r) ledger \<times> ('k, 'i) signal deque" where
  "timer_step R (Operate i x) s = (apply_operation i x (fst s), snd s)"
| "timer_step R (Tick it t) s = tick R it t s"

primrec timer_event_ok :: "('k, 'r) timer_event \<Rightarrow> bool" where
  "timer_event_ok (Operate i x) = True"
| "timer_event_ok (Tick it t) = hash_order_ok it"

definition held_at :: "('k, 'r) ledger \<Rightarrow> instant \<Rightarrow> ('k state_id \<times> 'r) list" where
  "held_at L t = (case map_of (retainer L) t of None \<Rightarrow> [] | Some v \<Rightarrow> v)"

definition timer_rel :: "('k, 'r) ledger \<Rightarrow> ('k, 'r) timer_abs \<Rightarrow> bool" where
  "timer_rel L a \<longleftrightarrow>
     timer_ids L = fst a \<and> (\<forall>t. held_at L t = map snd (filter (\<lambda>h. fst h = t) (snd a)))"

lemma timer_rel_operate:
  assumes "ledger_wf L" and "timer_rel L (D, H)"
  shows "timer_rel (apply_operation i x L) (timer_abs_step (Operate i x) (D, H))"
proof (cases x)
  case Cancel
  with assms(2) show ?thesis
    by (auto simp: timer_rel_def held_at_def ledger_cancel_timeout_def fun_eq_iff split: option.splits)
next
  case (Set t)
  with assms(2) show ?thesis
    by (simp add: timer_rel_def held_at_def ledger_set_timeout_def Let_def)
next
  case (Retain y t)
  with assms(2) bt.entry_lookup [OF ledger_wfD(2) [OF assms(1)]] show ?thesis
    by (auto simp: timer_rel_def held_at_def ledger_retain_def)
qed

lemma timer_rel_tick:
  assumes "ledger_wf L" and "hash_order_ok it" and "timer_rel L (D, H)"
  shows "timer_rel (fst (tick R it t (L, q))) (timer_abs_step (Tick it t) (D, H))"
proof -
  have "held_at (fst (tick R it t (L, q))) a = (if a < t then [] else held_at L a)" for a
    using bt.split_from [OF ledger_wfD(2) [OF assms(1)], of t a] by (simp add: held_at_def tick_ledger)
  moreover have "filter (\<lambda>h. fst h = a) (filter (\<lambda>h. \<not> fst h < t) H) =
      (if a < t then [] else filter (\<lambda>h. fst h = a) H)" for a
    by (induction H) auto
  ultimately show ?thesis
    using assms(3) tick_wf(2) [OF assms(1,2)] by (simp add: timer_rel_def)
qed

interpretation timer_service:
  simulation_ops "timer_step R" timer_event_ok "\<lambda>s. ledger_wf (fst s)" timer_abs_step
    "\<lambda>s. timer_rel (fst s)" for R
proof
  fix x :: "('a, 'd) timer_event" and s :: "('a, 'd) ledger \<times> ('a, 'c) signal deque"
    and a :: "('a, 'd) timer_abs"
  assume ok: "timer_event_ok x" and wf: "ledger_wf (fst s)"
  obtain L q where s: "s = (L, q)" by (cases s)
  show "ledger_wf (fst (timer_step R x s))"
    using ok wf by (cases x) (simp_all add: s apply_operation_wf tick_wf)
  obtain D H where a: "a = (D, H)" by (cases a)
  assume "timer_rel (fst s) a"
  then show "timer_rel (fst (timer_step R x s)) (timer_abs_step x a)"
    using ok wf by (cases x) (simp_all only: s a fst_conv snd_conv timer_step.simps
      timer_event_ok.simps timer_rel_operate timer_rel_tick)
qed

lemma timer_rel_new: "timer_rel ledger_new (Map.empty, [])"
  by (simp add: timer_rel_def held_at_def ledger_new_def)

subsection \<open>Retained items\<close>

definition tagged :: "(instant, 'a list) btree \<Rightarrow> (instant \<times> 'a) list" where
  "tagged m = concat (map (\<lambda>(t, v). map (Pair t) v) m)"

lemma map_snd_tagged: "map snd (tagged m) = concat (bt_into_values m)"
  by (induction m) (auto simp: tagged_def bt_into_values_def comp_def)

lemma tagged_sorted: "bt_wf m \<Longrightarrow> sorted (map fst (tagged m))"
proof (induction m)
  case (Cons e m)
  obtain t v where e: "e = (t, v)" by (cases e)
  have "t \<le> a" if "a \<in> fst ` set (tagged m)" for a
    using that Cons.prems by (auto simp: e bt_wf_Cons tagged_def less_imp_le)
  with Cons show ?case
    by (auto simp: e bt_wf_Cons tagged_def sorted_append comp_def map_replicate_const)
qed (simp add: tagged_def)

lemma tagged_filter:
  "bt_wf m \<Longrightarrow> filter (\<lambda>h. fst h = t) (tagged m) =
    (case map_of m t of None \<Rightarrow> [] | Some v \<Rightarrow> map (Pair t) v)"
proof (induction m)
  case (Cons e m)
  obtain a v where e: "e = (a, v)" by (cases e)
  have "map_of m a = None" using Cons.prems by (auto simp: e bt_wf_Cons map_of_eq_None_iff)
  moreover have "filter (\<lambda>h. fst h = t) (map (Pair a) v) = (if a = t then map (Pair a) v else [])"
    by (induction v) auto
  ultimately show ?case using Cons by (auto simp: e bt_wf_Cons tagged_def)
qed (simp add: tagged_def)

lemma mset_eq_by_key:
  assumes "\<And>k. filter (\<lambda>h. fst h = k) xs = filter (\<lambda>h. fst h = k) ys"
  shows "mset xs = mset ys"
proof (rule multiset_eqI)
  fix x :: "'a \<times> 'b"
  have "count (mset zs) x = count (mset (filter (\<lambda>h. fst h = fst x) zs)) x" for zs
    by (simp add: mset_filter)
  with assms [of "fst x"] show "count (mset xs) x = count (mset ys) x" by metis
qed

text \<open>The items due at a tick: those below it, by instant and then by age.\<close>

lemma due_items_spec:
  assumes "ledger_wf L" and "timer_rel L (D, H)"
  shows "due_items t L = map snd (sort_key fst (filter (\<lambda>h. fst h < t) H))"
proof -
  let ?m = "fst (bt_split_off t (retainer L))" and ?H = "filter (\<lambda>h. fst h < t) H"
  have wf: "bt_wf ?m" using bt.split_inv [OF ledger_wfD(2) [OF assms(1)]] by blast
  have keys: "filter (\<lambda>h. fst h = k) (tagged ?m) = filter (\<lambda>h. fst h = k) ?H" for k
  proof -
    have "filter (\<lambda>h. fst h = k) (tagged ?m) = (if k < t then map (Pair k) (held_at L k) else [])"
      unfolding tagged_filter [OF wf] using bt.split_below [OF ledger_wfD(2) [OF assms(1)], of t k]
      by (auto simp: held_at_def split: option.splits)
    also have "map (Pair k) (held_at L k) = filter (\<lambda>h. fst h = k) H"
    proof -
      have "map (Pair k) (map snd (filter (\<lambda>h. fst h = k) H)) = filter (\<lambda>h. fst h = k) H"
        by (induction H) auto
      with assms(2) show ?thesis by (simp add: timer_rel_def)
    qed
    also have "(if k < t then filter (\<lambda>h. fst h = k) H else []) = filter (\<lambda>h. fst h = k) ?H"
      by (induction H) auto
    finally show ?thesis .
  qed
  have "sort_key fst ?H = tagged ?m"
  proof (rule properties_for_sort_key)
    show "mset (tagged ?m) = mset ?H" using keys by (rule mset_eq_by_key)
    show "filter (\<lambda>x. fst k = fst x) (tagged ?m) = filter (\<lambda>x. fst k = fst x) ?H" for k
      using keys [of "fst k"] by (simp add: eq_commute)
    show "sorted (map fst (tagged ?m))" using wf by (rule tagged_sorted)
  qed
  then show ?thesis by (simp add: due_items_def map_snd_tagged)
qed

text \<open>A ledger for examples.\<close>

abbreviation ping_ledger :: "(game, packet) ledger" where
  "ping_ledger \<equiv> ledger_set_timeout ping_2 5 ledger_new"

lemma sorted_hash_order: "hash_order_ok (sorted_list_of_set :: game state_id hash_order)"
  by (simp add: hash_order_ok_def)

section \<open>Properties\<close>

text \<open>
  C3. Across every sequence of Set, Cancel and Retain operations and ticks from an empty ledger,
  the index from ids to instants holds precisely the deadline each id should have (the last one
  set, unless it was cancelled or has passed), and an id is in the bucket of an instant exactly
  when that instant is its deadline: the two indices never disagree.
\<close>

theorem ledger_refines_deadlines:
  assumes "\<forall>e \<in> set es. timer_event_ok e"
    and "run_ops (timer_step R) es (ledger_new, q0) = (L, q)"
    and "run_ops timer_abs_step es (Map.empty, []) = (D, H)"
  shows "(timer_ids L i = Some t \<longleftrightarrow> D i = Some t) \<and>
    (D i = Some t \<longleftrightarrow> (\<exists>S. map_of (timers L) t = Some S \<and> i \<in> S))"
proof -
  have "ledger_wf L \<and> timer_rel L (D, H)"
    using timer_service.run_rel [of "(ledger_new, q0)" "(Map.empty, [])" es R] assms
    by (simp add: ledger_new_wf timer_rel_new)
  then show ?thesis using ledger_wfD(4) [of L i t] by (simp add: timer_rel_def)
qed

theorem ledger_refines_deadlines_witness:
  "timer_ids (apply_operation ping_2 (Set 5) (ledger_new :: (game, packet) ledger)) ping_2 = Some 5"
  using ledger_refines_deadlines [of "[Operate ping_2 (Set 5)]" game_rex deque_new
      "apply_operation ping_2 (Set 5) ledger_new" deque_new "[ping_2 \<mapsto> 5]" "[]" ping_2 5]
  by simp

text \<open>
  C4. After any sequence of operations and ticks, a tick at instant t appends to the priority
  lane of the signal queue one timeout signal for each id whose deadline is before t (for kinds
  that take one), each id once and in the order of the deadlines, followed by the retained items
  due before t, by instant and then in the order they were handed over; the other lane is not
  touched. In particular earlier timeouts are signalled first.
\<close>

theorem tick_signals:
  assumes "\<forall>e \<in> set es. timer_event_ok e" and "hash_order_ok it"
    and "run_ops (timer_step R) es (ledger_new, q0) = (L, q)"
    and "run_ops timer_abs_step es (Map.empty, []) = (D, H)"
  shows "\<exists>due. distinct due \<and> set due = {i. \<exists>a < t. D i = Some a} \<and>
    sorted (map (\<lambda>i. the (D i)) due) \<and>
    front_values (snd (tick R it t (L, q))) =
      front_values q @ timeout_signals R t due @
      item_signals R (map snd (sort_key fst (filter (\<lambda>h. fst h < t) H))) \<and>
    back_values (snd (tick R it t (L, q))) = back_values q"
proof -
  have wf: "ledger_wf L" and rel: "timer_rel L (D, H)"
    using timer_service.run_rel [of "(ledger_new, q0)" "(Map.empty, [])" es R] assms
    by (simp_all add: ledger_new_wf timer_rel_new)
  from rel have "timer_ids L = D" by (simp add: timer_rel_def)
  with due_ids_spec [OF wf assms(2), of t] due_items_spec [OF wf rel, of t] show ?thesis
    by (auto simp: tick_queue intro!: exI [of _ "due_ids it t L"])
qed

theorem tick_signals_witness:
  "front_values (snd (tick game_rex sorted_list_of_set 6 (ping_ledger, deque_new))) =
    [\<lparr>sig_id = ping_2, sig_input = Input_Ping (Ping_RecvTimeout 6)\<rparr>]"
proof -
  have "{i. \<exists>a < 6. [ping_2 \<mapsto> 5 :: nat] i = Some a} = {ping_2}" by auto
  with tick_signals [of "[Operate ping_2 (Set 5)]" sorted_list_of_set game_rex deque_new
      ping_ledger deque_new "[ping_2 \<mapsto> 5]" "[]" 6] sorted_hash_order
  obtain due where "set due = {ping_2}" "distinct due" and
    q: "front_values (snd (tick game_rex sorted_list_of_set 6 (ping_ledger, deque_new))) =
      timeout_signals game_rex 6 due" by (auto simp: item_signals_def)
  then have "due = [ping_2]" by (simp add: distinct_set_single)
  with q show ?thesis by (simp add: timeout_signals_def)
qed

text \<open>
  C35. A tick at exactly the instant of a deadline leaves the timeout in place, and one at the
  next instant releases it: the bound is strict.
\<close>

theorem tick_is_strict:
  assumes "ledger_wf L" and "hash_order_ok it" and "timer_ids L i = Some t"
  shows "i \<notin> set (due_ids it t L) \<and> timer_ids (fst (tick R it t (L, q))) i = Some t \<and>
    i \<in> set (due_ids it (Suc t) L)"
  using assms tick_wf(2) [OF assms(1,2), of R t q] due_ids_spec [OF assms(1,2)]
  by (auto simp: restrict_map_def)

theorem tick_is_strict_witness:
  "ping_2 \<notin> set (due_ids sorted_list_of_set 5 ping_ledger) \<and>
   ping_2 \<in> set (due_ids sorted_list_of_set 6 ping_ledger)"
proof -
  have "timer_ids ping_ledger ping_2 = Some 5" by (simp add: ledger_set_timeout_def Let_def)
  from tick_is_strict [OF set_timeout_wf [OF ledger_new_wf] sorted_hash_order this, of game_rex deque_new]
  show ?thesis by simp
qed

text \<open>
  If a timeout is set for u and then again for a later t, the id is not due at t although u
  has passed, and is due right after t; and after a cancel it is never due.
\<close>

theorem newer_timeout_overrides:
  assumes "ledger_wf L" and "hash_order_ok it" and "u < t"
  shows "i \<notin> set (due_ids it t (ledger_set_timeout i t (ledger_set_timeout i u L))) \<and>
    i \<in> set (due_ids it (Suc t) (ledger_set_timeout i t (ledger_set_timeout i u L))) \<and>
    (\<forall>v. i \<notin> set (due_ids it v (ledger_cancel_timeout i (ledger_set_timeout i t L))))"
proof -
  have "ledger_wf (ledger_set_timeout i t (ledger_set_timeout i u L))"
    and "ledger_wf (ledger_cancel_timeout i (ledger_set_timeout i t L))"
    using assms(1) by (simp_all add: set_timeout_wf cancel_timeout_wf)
  moreover have "timer_ids (ledger_set_timeout i t (ledger_set_timeout i u L)) i = Some t"
    and "timer_ids (ledger_cancel_timeout i (ledger_set_timeout i t L)) i = None"
    by (simp_all add: ledger_set_timeout_def ledger_cancel_timeout_def Let_def)
  ultimately show ?thesis using due_ids_spec [OF _ assms(2)] by auto
qed

theorem newer_timeout_overrides_witness:
  "ping_2 \<notin> set (due_ids sorted_list_of_set 9 (ledger_set_timeout ping_2 9 ping_ledger))"
  using newer_timeout_overrides [OF ledger_new_wf [where ?'b = packet] sorted_hash_order, of 5 9 ping_2] by simp

text \<open>
  An item retained for an id until t is still handed back after t when the id's timeout was
  cancelled in between: Cancel only reaches the timers.
\<close>

theorem cancel_keeps_retained:
  assumes "ledger_wf L" and "t < u"
  shows "(i, x) \<in> set (due_items u (ledger_cancel_timeout i (ledger_retain i t x L)))"
proof -
  have "retainer (ledger_cancel_timeout i (ledger_retain i t x L)) =
      bt_entry t [] (\<lambda>v. v @ [(i, x)]) (retainer L)"
    by (simp add: ledger_cancel_timeout_def ledger_retain_def split: option.splits)
  moreover have "bt_wf (bt_entry t [] (\<lambda>v. v @ [(i, x)]) (retainer L))"
    using ledger_wfD(2) [OF assms(1)] by (rule bt.entry_inv)
  moreover obtain v where "map_of (bt_entry t [] (\<lambda>v. v @ [(i, x)]) (retainer L)) t = Some (v @ [(i, x)])"
    using bt.entry_lookup [OF ledger_wfD(2) [OF assms(1)]] by simp
  ultimately have "(t, v @ [(i, x)]) \<in>
      set (fst (bt_split_off u (bt_entry t [] (\<lambda>v. v @ [(i, x)]) (retainer L))))"
    using assms(2) by (simp add: bt.split_pairs)
  then show ?thesis
    using \<open>retainer _ = _\<close> by (force simp: due_items_def bt_into_values_def)
qed

theorem cancel_keeps_retained_witness:
  "(ping_2, True) \<in> set (due_items 6 (ledger_cancel_timeout ping_2 (ledger_retain ping_2 5 True ledger_new)))"
  by (rule cancel_keeps_retained [OF ledger_new_wf]) simp

text \<open>
  A Set request made at t carries the instant t plus the duration's seconds and
  nanoseconds, and making it panics exactly when that instant would pass the signed 64-bit
  seconds an Instant can hold.
\<close>

theorem request_set_timeout_bounds:
  "request_set_timeout t i d =
    (if t + unat (secs d) * 1000000000 + unat (nanos d) < 2 ^ 63 * 1000000000
     then Returned \<lparr>req_id = i, req_op = Set (t + unat (secs d) * 1000000000 + unat (nanos d))\<rparr>
     else Panicked InstantOverflow)"
  by (simp add: request_set_timeout_def from_duration_def instant_add_def duration_nanos_def
      instant_limit_def nanos_per_sec_def add.assoc)

end
