(* ===== verification/Rex_Node.thy ===== *)
theory Rex_Node
  imports Rex_Ids
begin

text \<open>
  \<open>src/node.rs\<close>: the tree of states of one hierarchy, and the zipper through which it is
  updated. A method that takes \<open>&mut self\<close> returns the tree it leaves behind beside its
  outcome: the code first swaps a blank node into place, so a panic leaves that blank node.
\<close>

section \<open>Data\<close>

record 'id insert_op =
  ins_parent_id :: "'id option"
  ins_id :: 'id

record ('id, 's) update_op =
  upd_id :: 'id
  upd_state :: 's

datatype ('id, 's) node =
  Node (node_id: 'id) (node_state: 's) (descendant_keys: "'id set")
    (children: "('id, 's) node list")

type_synonym ('k, 's) state_node = "('k state_id, 's) node"

primrec set_node_state :: "'s \<Rightarrow> ('id, 's) node \<Rightarrow> ('id, 's) node" where
  "set_node_state s' (Node i s d cs) = Node i s' d cs"

primrec set_children :: "('id, 's) node list \<Rightarrow> ('id, 's) node \<Rightarrow> ('id, 's) node" where
  "set_children cs' (Node i s d cs) = Node i s d cs'"

primrec add_descendant :: "'id \<Rightarrow> ('id, 's) node \<Rightarrow> ('id, 's) node" where
  "add_descendant x (Node i s d cs) = Node i s (insert x d) cs"

lemma node_setters [simp]:
  "node_id (set_node_state s n) = node_id n"
  "node_state (set_node_state s n) = s"
  "descendant_keys (set_node_state s n) = descendant_keys n"
  "children (set_node_state s n) = children n"
  "node_id (set_children cs n) = node_id n"
  "node_state (set_children cs n) = node_state n"
  "descendant_keys (set_children cs n) = descendant_keys n"
  "children (set_children cs n) = cs"
  "node_id (add_descendant x n) = node_id n"
  "node_state (add_descendant x n) = node_state n"
  "descendant_keys (add_descendant x n) = insert x (descendant_keys n)"
  "children (add_descendant x n) = children n"
  by (cases n; simp)+

lemma set_children_twice [simp]: "set_children ys (set_children xs n) = set_children ys n"
  by (cases n) simp

definition node_new :: "('k, 's, 'z) kind_ops_scheme \<Rightarrow> 'k state_id \<Rightarrow> ('k, 's) state_node" where
  "node_new K i = Node i (new_state K (kind i)) {} []"

lemma node_new_sel [simp]:
  "node_id (node_new K i) = i" "node_state (node_new K i) = new_state K (kind i)"
  "descendant_keys (node_new K i) = {}" "children (node_new K i) = []"
  by (simp_all add: node_new_def)

section \<open>Looking nodes up\<close>

definition covers :: "'id \<Rightarrow> ('id, 's) node \<Rightarrow> bool" where
  "covers i n \<longleftrightarrow> node_id n = i \<or> i \<in> descendant_keys n"

definition child :: "('id, 's) node \<Rightarrow> 'id \<Rightarrow> ('id, 's) node option" where
  "child n i = List.find (covers i) (children n)"

text \<open>\<open>iter().enumerate().find(..).map(..)\<close>: the index of the first child that covers \<open>i\<close>.\<close>

definition child_idx :: "('id, 's) node \<Rightarrow> 'id \<Rightarrow> nat option" where
  "child_idx n i =
     map_option fst (List.find (\<lambda>(j, c). covers i c) (List.enumerate 0 (children n)))"

lemma child_size [termination_simp]:
  "child n i = Some c \<Longrightarrow> size c < size n"
proof -
  assume "child n i = Some c"
  then have "c \<in> set (children n)"
    by (auto simp: child_def dest: find_Some_set)
  then show "size c < size n"
    by (cases n) (auto dest: size_list_mem)
qed

text \<open>The \<open>while\<close> loop of \<open>get\<close>, which descends as long as the id is below the node.\<close>

function get_loop :: "'id \<Rightarrow> ('id, 's) node \<Rightarrow> ('id, 's) node outcome" where
  "get_loop i n =
     (if i \<in> descendant_keys n
      then (case child n i of None \<Rightarrow> Panicked UnwrapNone | Some c \<Rightarrow> get_loop i c)
      else Returned n)"
  by pat_completeness auto
termination
  by (relation "measure (\<lambda>(i, n). size n)") (auto intro: child_size)

declare get_loop.simps [simp del]

definition node_get :: "('id, 's) node \<Rightarrow> 'id \<Rightarrow> ('id, 's) node option outcome" where
  "node_get n i =
     (if node_id n = i then Returned (Some n)
      else if i \<notin> descendant_keys n then Returned None
      else map_outcome_to (\<lambda>c. Returned (Some c)) (get_loop i n))"

definition get_state :: "('id, 's) node \<Rightarrow> 'id \<Rightarrow> 's option outcome" where
  "get_state n i = map_outcome_to (\<lambda>r. Returned (map_option node_state r)) (node_get n i)"

function parent_loop :: "'id \<Rightarrow> ('id, 's) node \<Rightarrow> 'id option outcome" where
  "parent_loop i n =
     (if i \<in> descendant_keys n
      then (case child n i of
          None \<Rightarrow> Panicked UnwrapNone
        | Some c \<Rightarrow> if node_id c = i then Returned (Some (node_id n)) else parent_loop i c)
      else Returned None)"
  by pat_completeness auto
termination
  by (relation "measure (\<lambda>(i, n). size n)") (auto intro: child_size)

declare parent_loop.simps [simp del]

definition get_parent_id :: "('id, 's) node \<Rightarrow> 'id \<Rightarrow> 'id option outcome" where
  "get_parent_id n i =
     (if i \<notin> descendant_keys n then Returned None else parent_loop i n)"

section \<open>The zipper\<close>

datatype ('id, 's) zipper =
  Zipper (znode: "('id, 's) node") (zparent: "('id, 's) zipper option") (self_idx: nat)

type_synonym ('k, 's) state_zipper = "('k state_id, 's) zipper"

definition node_zipper :: "('id, 's) node \<Rightarrow> ('id, 's) zipper" where
  "node_zipper n = Zipper n None 0"

primrec set_znode :: "('id, 's) node \<Rightarrow> ('id, 's) zipper \<Rightarrow> ('id, 's) zipper" where
  "set_znode n' (Zipper n p j) = Zipper n' p j"

lemma set_znode_sel [simp]:
  "znode (set_znode n z) = n" "zparent (set_znode n z) = zparent z"
  "self_idx (set_znode n z) = self_idx z"
  by (cases z; simp)+

lemma set_znode_twice [simp]: "set_znode m (set_znode n z) = set_znode m z"
  by (cases z) simp

definition zip_child :: "nat \<Rightarrow> ('id, 's) zipper \<Rightarrow> ('id, 's) zipper outcome" where
  "zip_child idx z =
     map_outcome_to
       (\<lambda>(c, rest). Returned (Zipper c (Some (set_znode (set_children rest (znode z)) z)) idx))
       (swap_remove (children (znode z)) idx)"

lemma zip_child_size:
  "zip_child idx z = Returned z' \<Longrightarrow> size (znode z') < size (znode z)"
proof -
  assume "zip_child idx z = Returned z'"
  then have "idx < length (children (znode z))" and "znode z' = children (znode z) ! idx"
    by (auto simp: zip_child_def swap_remove_def split: if_splits)
  then have "znode z' \<in> set (children (znode z))" by simp
  then show ?thesis by (cases "znode z") (auto dest: size_list_mem)
qed

text \<open>\<open>by_id\<close>: descend to the node with the id, then assert that it was found.\<close>

function descend :: "'id \<Rightarrow> ('id, 's) zipper \<Rightarrow> ('id, 's) zipper outcome" where
  "descend i z =
     (if i \<in> descendant_keys (znode z)
      then (case child_idx (znode z) i of
          None \<Rightarrow> Panicked UnwrapNone
        | Some idx \<Rightarrow> (case zip_child idx z of
            Panicked p \<Rightarrow> Panicked p
          | Returned z' \<Rightarrow> descend i z'))
      else Returned z)"
  by pat_completeness auto
termination
  by (relation "measure (\<lambda>(i, z). size (znode z))") (auto intro: zip_child_size)

declare descend.simps [simp del]

definition by_id :: "'id \<Rightarrow> ('id, 's) zipper \<Rightarrow> ('id, 's) zipper outcome" where
  "by_id i z =
     map_outcome_to
       (\<lambda>z'. if \<not> (node_id (znode z') \<noteq> i) then Returned z' else Panicked NotInTree)
       (descend i z)"

definition set_state :: "'s \<Rightarrow> ('id, 's) zipper \<Rightarrow> ('id, 's) zipper" where
  "set_state s z = set_znode (set_node_state s (znode z)) z"

definition insert_child ::
  "('k, 's, 'z) kind_ops_scheme \<Rightarrow> 'k state_id \<Rightarrow> ('k, 's) state_zipper \<Rightarrow> ('k, 's) state_zipper" where
  "insert_child K i z =
     set_znode (set_children (children (znode z) @ [node_new K i]) (znode z)) z"

text \<open>\<open>parent\<close>: push the focus at the end of the parent's children and swap it into place.\<close>

definition zip_parent :: "('id, 's) zipper \<Rightarrow> ('id, 's) zipper outcome" where
  "zip_parent z = (case zparent z of
     None \<Rightarrow> Panicked UnwrapNone
   | Some p \<Rightarrow>
       (let cs = children (znode p) @ [znode z]; last_idx = length cs - 1 in
        map_outcome_to
          (\<lambda>cs'. Returned (Zipper (set_children cs' (znode p)) (zparent p) (self_idx p)))
          (vec_swap cs (self_idx z) last_idx)))"

fun zip_depth :: "('id, 's) zipper \<Rightarrow> nat" where
  "zip_depth (Zipper n None j) = 0"
| "zip_depth (Zipper n (Some p) j) = Suc (zip_depth p)"

lemma zip_depth_Some: "zparent z = Some p \<Longrightarrow> zip_depth z = Suc (zip_depth p)"
  by (cases z) auto

lemma zip_depth_cong: "zparent y = zparent z \<Longrightarrow> zip_depth y = zip_depth z"
  by (cases y; cases z; cases "zparent z") auto

lemma zip_parent_depth:
  "zip_parent z = Returned z' \<Longrightarrow> zip_depth z' < zip_depth z"
proof -
  assume r: "zip_parent z = Returned z'"
  then obtain p where p: "zparent z = Some p" by (auto simp: zip_parent_def split: option.splits)
  with r have "zparent z' = zparent p"
    by (auto simp: zip_parent_def Let_def map_outcome_to_Returned_iff)
  then have "zip_depth z' = zip_depth p" by (rule zip_depth_cong)
  with p show ?thesis by (simp add: zip_depth_Some)
qed

text \<open>The loop of \<open>finish_insert\<close>: add the id to the focus and to every ancestor.\<close>

function climb_insert :: "'id \<Rightarrow> ('id, 's) zipper \<Rightarrow> ('id, 's) node outcome" where
  "climb_insert i z =
     (if zparent z = None then Returned (znode z)
      else (case zip_parent z of
          Panicked p \<Rightarrow> Panicked p
        | Returned z' \<Rightarrow> climb_insert i (set_znode (add_descendant i (znode z')) z')))"
  by pat_completeness auto
termination
proof (relation "measure (\<lambda>(i, z). zip_depth z)")
  fix i :: 'a and z z' :: "('a, 'b) zipper"
  assume "zip_parent z = Returned z'"
  then have "zip_depth z' < zip_depth z" by (rule zip_parent_depth)
  moreover have "zip_depth (set_znode (add_descendant i (znode z')) z') = zip_depth z'"
    by (rule zip_depth_cong) simp
  ultimately show "((i, set_znode (add_descendant i (znode z')) z'), i, z)
      \<in> measure (\<lambda>(i, z). zip_depth z)" by simp
qed simp

declare climb_insert.simps [simp del]

definition finish_insert :: "'id \<Rightarrow> ('id, 's) zipper \<Rightarrow> ('id, 's) node outcome" where
  "finish_insert i z = climb_insert i (set_znode (add_descendant i (znode z)) z)"

function finish_update :: "('id, 's) zipper \<Rightarrow> ('id, 's) node outcome" where
  "finish_update z =
     (if zparent z = None then Returned (znode z)
      else (case zip_parent z of Panicked p \<Rightarrow> Panicked p | Returned z' \<Rightarrow> finish_update z'))"
  by pat_completeness auto
termination
  by (relation "measure zip_depth") (auto intro: zip_parent_depth)

declare finish_update.simps [simp del]

definition finish_update_parent_id ::
  "('id, 's) zipper \<Rightarrow> ('id option \<times> ('id, 's) node) outcome" where
  "finish_update_parent_id z =
     (let parent_id = map_option (\<lambda>p. node_id (znode p)) (zparent z) in
      map_outcome_to (\<lambda>n. Returned (parent_id, n)) (finish_update z))"

text \<open>
  \<open>finish_update_fn\<close>: the closure \<open>f\<close> is applied to every node, children first. A closure
  may have effects on what it captured, the state \<open>'w\<close>. The recursion of the code is on the
  zipper of each child, whose parent is empty.
\<close>

fun finish_update_fn ::
  "(('id, 's) zipper \<Rightarrow> ('w, ('id, 's) node) cmd) \<Rightarrow> ('id, 's) node \<Rightarrow> ('w, ('id, 's) node) cmd" where
  "finish_update_fn f (Node i s d cs) =
     bindc (traverse (finish_update_fn f) cs) (\<lambda>cs'. f (node_zipper (Node i s d cs')))"

section \<open>Updating a tree\<close>

definition into_insert ::
  "('k, 's, 'z) kind_ops_scheme \<Rightarrow> 'k state_id insert_op \<Rightarrow> ('k, 's) state_node \<Rightarrow>
   ('k, 's) state_node outcome" where
  "into_insert K op n = (case ins_parent_id op of
     None \<Rightarrow> Panicked UnwrapNone
   | Some parent_id \<Rightarrow>
       map_outcome_to (\<lambda>z. finish_insert (ins_id op) (insert_child K (ins_id op) z))
         (by_id parent_id (node_zipper n)))"

definition into_update ::
  "('id, 's) update_op \<Rightarrow> ('id, 's) node \<Rightarrow> ('id, 's) node outcome" where
  "into_update op n =
     map_outcome_to (\<lambda>z. finish_update (set_state (upd_state op) z))
       (by_id (upd_id op) (node_zipper n))"

text \<open>
  The \<open>&mut self\<close> methods. \<open>std::mem::swap\<close> moves the tree out and a new node with the same
  id in; the result is swapped back only when the consuming method returns.
\<close>

definition swapped ::
  "('k, 's, 'z) kind_ops_scheme \<Rightarrow> ('k, 's) state_node \<Rightarrow> ('a \<times> ('k, 's) state_node) outcome \<Rightarrow>
   'a outcome \<times> ('k, 's) state_node" where
  "swapped K n m = (case m of
     Returned (x, n') \<Rightarrow> (Returned x, n')
   | Panicked p \<Rightarrow> (Panicked p, node_new K (node_id n)))"

definition node_insert ::
  "('k, 's, 'z) kind_ops_scheme \<Rightarrow> 'k state_id insert_op \<Rightarrow> (('k, 's) state_node, unit) cmd" where
  "node_insert K op n =
     swapped K n (map_outcome_to (\<lambda>n'. Returned ((), n')) (into_insert K op n))"

definition node_update ::
  "('k, 's, 'z) kind_ops_scheme \<Rightarrow> ('k state_id, 's) update_op \<Rightarrow> (('k, 's) state_node, unit) cmd" where
  "node_update K op n =
     swapped K n (map_outcome_to (\<lambda>n'. Returned ((), n')) (into_update op n))"

definition update_and_get_parent_id ::
  "('k, 's, 'z) kind_ops_scheme \<Rightarrow> ('k state_id, 's) update_op \<Rightarrow>
   (('k, 's) state_node, 'k state_id option) cmd" where
  "update_and_get_parent_id K op n =
     swapped K n
       (map_outcome_to (\<lambda>z. finish_update_parent_id (set_state (upd_state op) z))
         (by_id (upd_id op) (node_zipper n)))"

text \<open>The closure's captured state and the tree are two parts of the state.\<close>

definition update_all_fn ::
  "('k, 's, 'z) kind_ops_scheme \<Rightarrow> (('k, 's) state_zipper \<Rightarrow> ('w, ('k, 's) state_node) cmd) \<Rightarrow>
   ('w \<times> ('k, 's) state_node, unit) cmd" where
  "update_all_fn K f = (\<lambda>(w, n). case finish_update_fn f n w of
     (Returned n', w') \<Rightarrow> (Returned (), w', n')
   | (Panicked p, w') \<Rightarrow> (Panicked p, w', node_new K (node_id n)))"

end
