(* ===== verification/Rex_Tree.thy ===== *)
theory Rex_Tree
  imports Rex_Node Rex_Kinds
begin

text \<open>
  The laws of \<open>src/node.rs\<close>. A tree is well formed when \<open>descendant_keys\<close> of every node is
  exact and no id occurs twice. On well-formed trees no lookup or update panics, the zipper
  leaves the shape of the tree alone, and the operations refine two finite maps: the state of
  every id and the parent of every id.
\<close>

section \<open>Well-formed trees and their abstraction\<close>

fun exact :: "('id, 's) node \<Rightarrow> bool" where
  "exact (Node i s d cs) \<longleftrightarrow>
     d = (\<Union>c \<in> set cs. insert (node_id c) (descendant_keys c)) \<and> (\<forall>c \<in> set cs. exact c)"

fun entries :: "('id, 's) node \<Rightarrow> ('id \<times> 's) list" where
  "entries (Node i s d cs) = (i, s) # concat (map entries cs)"

fun parent_pairs :: "('id, 's) node \<Rightarrow> ('id \<times> 'id) list" where
  "parent_pairs (Node i s d cs) =
     map (\<lambda>c. (node_id c, i)) cs @ concat (map parent_pairs cs)"

definition ids :: "('id, 's) node \<Rightarrow> 'id list" where
  "ids n = map fst (entries n)"

definition tree_wf :: "('id, 's) node \<Rightarrow> bool" where
  "tree_wf n \<longleftrightarrow> exact n \<and> distinct (ids n)"

definition states :: "('id, 's) node \<Rightarrow> ('id \<rightharpoonup> 's)" where
  "states n = map_of (entries n)"

definition parents :: "('id, 's) node \<Rightarrow> ('id \<rightharpoonup> 'id)" where
  "parents n = map_of (parent_pairs n)"

lemma ids_Node: "ids (Node i s d cs) = i # concat (map ids cs)"
  by (simp add: ids_def [abs_def] map_concat comp_def)

lemma node_split: "n = Node (node_id n) (node_state n) (descendant_keys n) (children n)"
  by simp

lemma exact_iff:
  "exact n \<longleftrightarrow>
     descendant_keys n = (\<Union>c \<in> set (children n). insert (node_id c) (descendant_keys c)) \<and>
     (\<forall>c \<in> set (children n). exact c)"
  by (cases n) simp

lemma exact_ids: "exact n \<Longrightarrow> set (ids n) = insert (node_id n) (descendant_keys n)"
proof (induction n)
  case (Node i s d cs)
  then have "set (concat (map ids cs)) = (\<Union>c \<in> set cs. insert (node_id c) (descendant_keys c))"
    by auto
  with Node.prems show ?case by (simp add: ids_Node)
qed

lemma exact_descendants: "exact n \<Longrightarrow> descendant_keys n = set (concat (map ids (children n)))"
proof -
  assume "exact n"
  then have "descendant_keys n = (\<Union>c \<in> set (children n). insert (node_id c) (descendant_keys c))"
    and "\<forall>c \<in> set (children n). exact c"
    using exact_iff [of n] by blast+
  then show ?thesis by (auto simp: exact_ids)
qed

lemma exact_covers: "exact n \<Longrightarrow> covers i n \<longleftrightarrow> i \<in> set (ids n)"
  by (auto simp: covers_def exact_ids)

lemma dom_states: "dom (states n) = set (ids n)"
  by (simp add: states_def ids_def dom_map_of_conv_image_fst)

lemma tree_wf_child: "tree_wf n \<Longrightarrow> c \<in> set (children n) \<Longrightarrow> tree_wf c"
  by (cases n) (auto simp: tree_wf_def ids_Node distinct_concat_iff)

lemma tree_wf_root_fresh: "tree_wf n \<Longrightarrow> node_id n \<notin> descendant_keys n"
  unfolding tree_wf_def using exact_descendants [of n] by (cases n) (auto simp: ids_Node)

lemma tree_wf_child_unique:
  assumes "tree_wf n" and "j < length (children n)" and "k < length (children n)"
    and "i \<in> set (ids (children n ! j))" and "i \<in> set (ids (children n ! k))"
  shows "j = k"
proof (rule ccontr)
  assume "j \<noteq> k"
  have "ids c \<noteq> []" for c :: "('a, 'b) node" by (cases c) (simp add: ids_Node)
  then have "removeAll [] (map ids (children n)) = map ids (children n)"
    by (intro removeAll_id) (metis imageE list.set_map)
  moreover have "distinct (concat (map ids (children n)))"
    using assms(1) by (cases n) (simp add: tree_wf_def ids_Node)
  ultimately have "distinct (map ids (children n))"
    and disj: "\<And>xs ys. xs \<in> set (map ids (children n)) \<Longrightarrow> ys \<in> set (map ids (children n)) \<Longrightarrow>
        xs \<noteq> ys \<Longrightarrow> set xs \<inter> set ys = {}"
    by (simp_all add: distinct_concat_iff)
  with \<open>j \<noteq> k\<close> assms(2,3) have "ids (children n ! j) \<noteq> ids (children n ! k)"
    by (metis length_map nth_eq_iff_index_eq nth_map)
  with disj [of "ids (children n ! j)" "ids (children n ! k)"] assms show False by auto
qed

section \<open>Finding the child to descend into\<close>

lemma child_idx_Some:
  "child_idx n i = Some j \<longleftrightarrow>
     j < length (children n) \<and> covers i (children n ! j) \<and>
     (\<forall>k < j. \<not> covers i (children n ! k))"
proof -
  have "List.find (\<lambda>(j, c). P c) (List.enumerate 0 xs) = Some (j, x) \<longleftrightarrow>
      j < length xs \<and> x = xs ! j \<and> P x \<and> (\<forall>k < j. \<not> P (xs ! k))"
    for P and xs :: "('a, 'b) node list" and x
    by (auto simp: find_Some_iff nth_enumerate_eq)
  then show ?thesis by (auto simp: child_idx_def)
qed

lemma find_enumerate:
  "List.find (\<lambda>(j, c). P c) (List.enumerate m xs) = None \<longleftrightarrow> List.find P xs = None"
  by (induction xs arbitrary: m) auto

lemma child_idx_None: "child_idx n i = None \<longleftrightarrow> (\<forall>c \<in> set (children n). \<not> covers i c)"
  unfolding child_idx_def option.map_disc_iff find_enumerate by (auto simp: find_None_iff)

lemma child_by_idx: "child n i = map_option (\<lambda>j. children n ! j) (child_idx n i)"
proof (cases "child_idx n i")
  case None
  then have "List.find (covers i) (children n) = None"
    by (simp add: child_idx_None find_None_iff)
  with None show ?thesis by (simp add: child_def)
next
  case (Some j)
  then have "List.find (covers i) (children n) = Some (children n ! j)"
    by (auto simp: child_idx_Some find_Some_iff)
  with Some show ?thesis by (simp add: child_def)
qed

lemma exact_child_idx:
  assumes "exact n" and "i \<in> descendant_keys n"
  obtains j where "child_idx n i = Some j" and "j < length (children n)"
    and "covers i (children n ! j)" and "exact (children n ! j)"
    and "children n ! j \<in> set (children n)"
proof (cases "child_idx n i")
  case None
  with assms show thesis by (fastforce simp: child_idx_None exact_iff [of n] covers_def)
next
  case (Some j)
  then have "j < length (children n)" and "covers i (children n ! j)"
    by (auto simp: child_idx_Some)
  moreover from this assms(1) have "exact (children n ! j)"
    by (auto simp: exact_iff [of n])
  ultimately show thesis using Some that by simp
qed

section \<open>Lookups\<close>

lemma get_loop_in [simp]:
  "i \<in> descendant_keys n \<Longrightarrow> child n i = Some c \<Longrightarrow> get_loop i n = get_loop i c"
  "i \<notin> descendant_keys n \<Longrightarrow> get_loop i n = Returned n"
  by (simp_all add: get_loop.simps)

lemma get_loop_states:
  assumes "tree_wf n" and "covers i n"
  shows "\<exists>c. get_loop i n = Returned c \<and> node_id c = i \<and> states n i = Some (node_state c)"
  using assms
proof (induction n)
  case (Node r s d cs)
  let ?n = "Node r s d cs"
  have ex: "exact ?n" using Node.prems by (simp add: tree_wf_def)
  show ?case
  proof (cases "i \<in> d")
    case False
    with Node.prems have "i = r" by (simp add: covers_def)
    with False show ?thesis by (simp add: states_def)
  next
    case True
    with exact_child_idx [OF ex, of i] obtain j where
      idx: "child_idx ?n i = Some j" and j: "j < length cs" and cov: "covers i (cs ! j)"
      by auto
    have wfj: "tree_wf (cs ! j)" using Node.prems(1) j by (auto intro: tree_wf_child)
    with Node.IH [OF nth_mem [OF j] wfj cov] obtain c where
      c: "get_loop i (cs ! j) = Returned c" "node_id c = i"
        "states (cs ! j) i = Some (node_state c)" by blast
    have mem: "(i, node_state c) \<in> set (entries ?n)"
      using c(3) j by (auto simp: states_def dest!: map_of_SomeD)
    moreover have "distinct (map fst (entries ?n))"
      using Node.prems by (simp add: tree_wf_def ids_def)
    ultimately have "states ?n i = Some (node_state c)"
      unfolding states_def by (metis map_of_is_SomeI)
    with True idx c show ?thesis by (simp add: child_by_idx)
  qed
qed

lemma get_state_states:
  assumes "tree_wf n"
  shows "get_state n i = Returned (states n i)"
proof (cases "covers i n")
  case True
  show ?thesis
  proof (cases "node_id n = i")
    case root: True
    then have "states n i = Some (node_state n)" by (cases n) (simp add: states_def)
    with root show ?thesis by (simp add: get_state_def node_get_def)
  next
    case False
    with get_loop_states [OF assms True] True show ?thesis
      by (auto simp: get_state_def node_get_def covers_def)
  qed
next
  case False
  with assms have "i \<notin> set (ids n)" by (simp add: tree_wf_def exact_covers)
  then have "states n i = None" by (simp flip: dom_states add: domIff)
  with False show ?thesis by (simp add: get_state_def node_get_def covers_def)
qed

lemma node_id_in_ids: "node_id c \<in> set (ids c)"
  by (cases c) (simp add: ids_Node)

lemma ids_children: "set (ids n) = insert (node_id n) (set (concat (map ids (children n))))"
  by (cases n) (simp add: ids_Node)

lemma parent_pairs_ids: "(i, p) \<in> set (parent_pairs n) \<Longrightarrow> i \<in> set (concat (map ids (children n)))"
proof (induction n)
  case (Node r s d cs)
  from Node.prems consider c where "c \<in> set cs" "i = node_id c"
    | c where "c \<in> set cs" "(i, p) \<in> set (parent_pairs c)" by auto
  then show ?case
  proof cases
    case 1
    then show ?thesis by (auto intro: node_id_in_ids)
  next
    case 2
    then have "i \<in> set (ids c)" using Node.IH ids_children by fast
    with 2 show ?thesis by auto
  qed
qed

section \<open>What a walk through the zipper does\<close>

text \<open>
  The tree after walking down to \<open>i\<close>, applying \<open>f\<close> to the focus and walking up again with
  \<open>up\<close> applied to every ancestor: an update in place.
\<close>

function modify_path ::
  "'id \<Rightarrow> (('id, 's) node \<Rightarrow> ('id, 's) node) \<Rightarrow> (('id, 's) node \<Rightarrow> ('id, 's) node) \<Rightarrow>
   ('id, 's) node \<Rightarrow> ('id, 's) node" where
  "modify_path i up f n =
     (if i \<in> descendant_keys n
      then (case child_idx n i of
          None \<Rightarrow> n
        | Some j \<Rightarrow>
            up (set_children ((children n)[j := modify_path i up f (children n ! j)]) n))
      else f n)"
  by pat_completeness auto
termination
proof (relation "measure (\<lambda>(i, up, f, n). size n)")
  fix i :: 'a and up f :: "('a, 'b) node \<Rightarrow> ('a, 'b) node" and n j
  assume "child_idx n i = Some j"
  then have "children n ! j \<in> set (children n)" by (simp add: child_idx_Some)
  then show "((i, up, f, children n ! j), i, up, f, n) \<in> measure (\<lambda>(i, up, f, n). size n)"
    by (cases n) (auto dest: size_list_mem)
qed simp

declare modify_path.simps [simp del]

lemma modify_path_simps [simp]:
  "i \<notin> descendant_keys n \<Longrightarrow> modify_path i up f n = f n"
  "i \<in> descendant_keys n \<Longrightarrow> child_idx n i = Some j \<Longrightarrow>
     modify_path i up f n =
       up (set_children ((children n)[j := modify_path i up f (children n ! j)]) n)"
  by (subst modify_path.simps, simp)+

lemma zip_child_eq:
  "j < length (children (znode z)) \<Longrightarrow>
   zip_child j z = Returned (Zipper (children (znode z) ! j)
     (Some (set_znode (set_children ((butlast (children (znode z)))[j := last (children (znode z))])
       (znode z)) z)) j)"
  by (simp add: zip_child_def swap_remove_def)

lemma zip_parent_child:
  assumes "zip_child j z = Returned z'"
  shows "zip_parent (set_znode m z') =
     Returned (set_znode (set_children ((children (znode z))[j := m]) (znode z)) z)"
proof -
  from assms have j: "j < length (children (znode z))"
    by (auto simp: zip_child_def swap_remove_def split: if_splits)
  have zeq: "Zipper n (zparent z) (self_idx z) = set_znode n z" for n
    by (cases z) simp
  from assms j have "z' = Zipper (children (znode z) ! j)
     (Some (set_znode (set_children ((butlast (children (znode z)))[j := last (children (znode z))])
       (znode z)) z)) j" by (simp add: zip_child_eq)
  with swap_remove_undo [OF j, of m] show ?thesis
    by (simp add: zip_parent_def Let_def zeq)
qed

lemma zip_child_parent_Some: "zip_child j z = Returned z' \<Longrightarrow> zparent (set_znode m z') \<noteq> None"
  by (auto simp: zip_child_def map_outcome_to_Returned_iff)

lemma finish_update_child:
  "zip_child j z = Returned z' \<Longrightarrow>
   finish_update (set_znode m z') =
   finish_update (set_znode (set_children ((children (znode z))[j := m]) (znode z)) z)"
  by (subst finish_update.simps) (auto simp: zip_parent_child dest: zip_child_parent_Some [of _ _ _ m])

lemma climb_insert_child:
  "zip_child j z = Returned z' \<Longrightarrow>
   climb_insert x (set_znode m z') =
   climb_insert x (set_znode
     (add_descendant x (set_children ((children (znode z))[j := m]) (znode z))) z)"
proof -
  show "zip_child j z = Returned z' \<Longrightarrow> ?thesis"
    by (subst climb_insert.simps)
      (auto simp: zip_parent_child dest: zip_child_parent_Some [of _ _ _ m])
qed

text \<open>Descending in an exact tree reaches a node with the id, and undoing it is an update.\<close>

lemma descend_modify:
  assumes "exact (znode z)" and "covers i (znode z)"
  shows "\<exists>z'. descend i z = Returned z' \<and> node_id (znode z') = i \<and>
     (zparent z' = None \<longleftrightarrow> i \<notin> descendant_keys (znode z) \<and> zparent z = None) \<and>
     (\<forall>f. finish_update (set_znode (f (znode z')) z') =
        finish_update (set_znode (modify_path i (\<lambda>n. n) f (znode z)) z)) \<and>
     (\<forall>f x. climb_insert x (set_znode (f (znode z')) z') =
        climb_insert x (set_znode (modify_path i (add_descendant x) f (znode z)) z))"
  using assms
proof (induction i z rule: descend.induct)
  case (1 i z)
  show ?case
  proof (cases "i \<in> descendant_keys (znode z)")
    case False
    with "1.prems" show ?thesis
      by (subst descend.simps) (auto simp: covers_def)
  next
    case True
    from exact_child_idx [OF "1.prems"(1) True] obtain j where
      j: "child_idx (znode z) i = Some j" "j < length (children (znode z))"
        "covers i (children (znode z) ! j)" "exact (children (znode z) ! j)" by blast
    obtain z1 where z1: "zip_child j z = Returned z1" "znode z1 = children (znode z) ! j"
      using zip_child_eq [OF j(2)] by simp
    with "1.IH" [OF True j(1) z1(1)] j obtain z' where
      z': "descend i z1 = Returned z'" "node_id (znode z') = i" "zparent z' \<noteq> None"
        "\<And>f. finish_update (set_znode (f (znode z')) z') =
          finish_update (set_znode (modify_path i (\<lambda>n. n) f (znode z1)) z1)"
        "\<And>f x. climb_insert x (set_znode (f (znode z')) z') =
          climb_insert x (set_znode (modify_path i (add_descendant x) f (znode z1)) z1)"
      using zip_child_parent_Some [OF z1(1), of "znode z1"] by auto
    have d: "descend i z = descend i z1"
      using True j z1 by (subst descend.simps) simp
    show ?thesis
    proof (intro exI conjI allI)
      show "descend i z = Returned z'" using d z'(1) by simp
      show "node_id (znode z') = i" by (rule z'(2))
      show "(zparent z' = None) = (i \<notin> descendant_keys (znode z) \<and> zparent z = None)"
        using z'(3) True by simp
      show "finish_update (set_znode (f (znode z')) z') =
          finish_update (set_znode (modify_path i (\<lambda>n. n) f (znode z)) z)" for f
        using True j z1 z'(4) by (simp add: finish_update_child)
      show "climb_insert x (set_znode (f (znode z')) z') =
          climb_insert x (set_znode (modify_path i (add_descendant x) f (znode z)) z)" for f x
        using True j z1 z'(5) by (simp add: climb_insert_child)
    qed
  qed
qed

lemma finish_update_root [simp]: "finish_update (set_znode n (node_zipper m)) = Returned n"
  by (subst finish_update.simps) (simp add: node_zipper_def)

lemma climb_insert_root [simp]: "climb_insert x (set_znode n (node_zipper m)) = Returned n"
  by (subst climb_insert.simps) (simp add: node_zipper_def)

lemma by_id_modify:
  assumes "exact n" and "covers i n"
  shows "\<exists>z. by_id i (node_zipper n) = Returned z \<and> node_id (znode z) = i \<and>
     (\<forall>f. finish_update (set_znode (f (znode z)) z) = Returned (modify_path i (\<lambda>n. n) f n)) \<and>
     (\<forall>f x. climb_insert x (set_znode (f (znode z)) z) =
        Returned (modify_path i (add_descendant x) f n))"
proof -
  have z: "znode (node_zipper n) = n" by (simp add: node_zipper_def)
  from descend_modify [of "node_zipper n" i] assms show ?thesis
    unfolding by_id_def z by auto
qed

lemma by_id_missing:
  assumes "exact n" and "\<not> covers i n"
  shows "by_id i (node_zipper n) = Panicked NotInTree"
  using assms by (subst by_id_def, subst descend.simps) (auto simp: node_zipper_def covers_def)

text \<open>The two updates of the code, as updates in place.\<close>

definition push_child ::
  "('k, 's, 'z) kind_ops_scheme \<Rightarrow> 'k state_id \<Rightarrow> ('k, 's) state_node \<Rightarrow> ('k, 's) state_node" where
  "push_child K i n = add_descendant i (set_children (children n @ [node_new K i]) n)"

lemma into_update_modify:
  assumes "exact n" and "covers (upd_id op) n"
  shows "into_update op n =
    Returned (modify_path (upd_id op) (\<lambda>n. n) (set_node_state (upd_state op)) n)"
  using by_id_modify [OF assms] by (auto simp: into_update_def set_state_def)

lemma into_insert_modify:
  assumes "exact n" and "covers p n"
  shows "into_insert K \<lparr>ins_parent_id = Some p, ins_id = x\<rparr> n =
    Returned (modify_path p (add_descendant x) (push_child K x) n)"
proof -
  from by_id_modify [OF assms] obtain z where
    z: "by_id p (node_zipper n) = Returned z"
      "\<And>f. climb_insert x (set_znode (f (znode z)) z) =
        Returned (modify_path p (add_descendant x) f n)" by blast
  from z(1) z(2) [of "push_child K x"] show ?thesis
    by (simp add: into_insert_def finish_insert_def insert_child_def push_child_def)
qed

section \<open>Updates as maps over the states\<close>

fun map_states :: "('id \<Rightarrow> 's \<Rightarrow> 's) \<Rightarrow> ('id, 's) node \<Rightarrow> ('id, 's) node" where
  "map_states g (Node i s d cs) = Node i (g i s) d (map (map_states g) cs)"

lemma map_states_keys [simp]:
  "node_id (map_states g n) = node_id n"
  "descendant_keys (map_states g n) = descendant_keys n"
  by (cases n; simp)+

lemma map_states_entries [simp]: "entries (map_states g n) = map (\<lambda>(i, s). (i, g i s)) (entries n)"
  by (induction n) (simp add: map_concat comp_def cong: map_cong)

lemma map_states_ids [simp]: "ids (map_states g n) = ids n"
  by (simp add: ids_def comp_def split_beta)

lemma map_states_parent_pairs [simp]: "parent_pairs (map_states g n) = parent_pairs n"
  by (induction n) (simp add: comp_def cong: map_cong)

lemma map_states_exact [simp]: "exact (map_states g n) = exact n"
  by (induction n) (auto simp: comp_def)

lemma map_states_wf [simp]: "tree_wf (map_states g n) = tree_wf n"
  by (simp add: tree_wf_def)

lemma map_states_parents [simp]: "parents (map_states g n) = parents n"
  by (simp add: parents_def)

lemma map_states_states: "states (map_states g n) i = map_option (g i) (states n i)"
  by (simp add: states_def map_of_map_values)

lemma map_states_idle:
  "(\<And>i s. i \<in> set (ids n) \<Longrightarrow> g i s = s) \<Longrightarrow> map_states g n = n"
proof (induction n)
  case (Node i s d cs)
  then have "map_states g c = c" if "c \<in> set cs" for c
    using that by (auto simp: ids_Node intro: Node.IH)
  then have "map (map_states g) cs = cs" by (simp add: map_idI)
  with Node.prems show ?case by (simp add: ids_Node)
qed

lemma modify_path_state:
  assumes "tree_wf n" and "covers i n"
  shows "modify_path i (\<lambda>n. n) (set_node_state s) n = map_states (\<lambda>k v. if k = i then s else v) n"
  using assms
proof (induction n)
  case (Node r v d cs)
  let ?n = "Node r v d cs" and ?g = "\<lambda>k v. if k = i then s else v"
  have ex: "exact ?n" using Node.prems by (simp add: tree_wf_def)
  show ?case
  proof (cases "i \<in> d")
    case False
    with Node.prems have r: "r = i" by (simp add: covers_def)
    have "map_states ?g c = c" if "c \<in> set cs" for c
    proof (rule map_states_idle)
      fix k u assume "k \<in> set (ids c)"
      then have "k \<in> d" using exact_descendants [OF ex] that by auto
      with False show "?g k u = u" by auto
    qed
    then have "map (map_states ?g) cs = cs" by (simp add: map_idI)
    with False r show ?thesis by simp
  next
    case True
    with exact_child_idx [OF ex, of i] obtain j where
      idx: "child_idx ?n i = Some j" and j: "j < length cs" and cov: "covers i (cs ! j)"
      and exj: "exact (cs ! j)"
      by auto
    have "r \<noteq> i" using tree_wf_root_fresh [OF Node.prems(1)] True by auto
    moreover have "cs[j := modify_path i (\<lambda>n. n) (set_node_state s) (cs ! j)] =
        map (map_states ?g) cs"
    proof -
      have wfj: "tree_wf (cs ! j)" using Node.prems(1) j by (auto intro: tree_wf_child)
      have "map_states ?g (cs ! k) = cs ! k" if k: "k < length cs" "k \<noteq> j" for k
      proof (rule map_states_idle)
        fix l u assume "l \<in> set (ids (cs ! k))"
        with tree_wf_child_unique [OF Node.prems(1), of k j i] k j cov exj
        show "?g l u = u" by (auto simp: exact_covers)
      qed
      with Node.IH [OF nth_mem [OF j] wfj cov] j show ?thesis
        by (intro nth_equalityI) (auto simp: nth_list_update)
    qed
    ultimately show ?thesis using True idx by simp
  qed
qed

section \<open>Insertion\<close>

lemma push_child_entries:
  "mset (entries (push_child K x n)) = add_mset (x, new_state K (kind x)) (mset (entries n))"
  by (cases n) (simp add: push_child_def node_new_def)

lemma push_child_parent_pairs:
  "mset (parent_pairs (push_child K x n)) = add_mset (x, node_id n) (mset (parent_pairs n))"
  by (cases n) (simp add: push_child_def node_new_def)

lemma push_child_exact:
  "exact n \<Longrightarrow> exact (push_child K x n)"
  by (cases n) (auto simp: push_child_def node_new_def)

lemma push_child_keys [simp]:
  "node_id (push_child K x n) = node_id n"
  "descendant_keys (push_child K x n) = insert x (descendant_keys n)"
  by (simp_all add: push_child_def)

lemma node_at_path:
  "descendant_keys n = descendant_keys (Node r s d cs) \<Longrightarrow>
   add_descendant x (set_children cs' (Node r s d cs)) = Node r s (insert x d) cs'"
  by simp

lemma modify_path_insert:
  fixes K :: "('k, 's, 'z) kind_ops_scheme" and x :: "'k state_id"
  assumes "exact n" and "covers p n"
  defines "n' \<equiv> modify_path p (add_descendant x) (push_child K x) n"
  shows "node_id n' = node_id n \<and> descendant_keys n' = insert x (descendant_keys n) \<and> exact n' \<and>
    mset (entries n') = add_mset (x, new_state K (kind x)) (mset (entries n)) \<and>
    mset (parent_pairs n') = add_mset (x, p) (mset (parent_pairs n))"
  using assms(1,2) unfolding n'_def
proof (induction n)
  case (Node r v d cs)
  let ?n = "Node r v d cs"
  show ?case
  proof (cases "p \<in> d")
    case False
    with Node.prems have "r = p" by (simp add: covers_def)
    with False Node.prems show ?thesis
      by (simp add: push_child_entries push_child_parent_pairs push_child_exact del: exact.simps
          entries.simps parent_pairs.simps)
  next
    case True
    with exact_child_idx [OF Node.prems(1), of p] obtain j where
      idx: "child_idx ?n p = Some j" and j: "j < length cs" and cov: "covers p (cs ! j)"
      and exj: "exact (cs ! j)"
      by auto
    let ?m = "modify_path p (add_descendant x) (push_child K x) (cs ! j)"
    have m: "node_id ?m = node_id (cs ! j)"
      "descendant_keys ?m = insert x (descendant_keys (cs ! j))" "exact ?m"
      "mset (entries ?m) = add_mset (x, new_state K (kind x)) (mset (entries (cs ! j)))"
      "mset (parent_pairs ?m) = add_mset (x, p) (mset (parent_pairs (cs ! j)))"
      using Node.IH [OF nth_mem [OF j] exj cov] by auto
    have n': "modify_path p (add_descendant x) (push_child K x) ?n =
        Node r v (insert x d) (cs[j := ?m])"
      using True idx by simp
    have ent: "mset (concat (map entries (cs[j := ?m]))) =
        add_mset (x, new_state K (kind x)) (mset (concat (map entries cs)))"
      using mset_concat_update [of j "map entries cs" "entries ?m"] j m(4)
      by (simp add: map_update)
    have par: "mset (concat (map parent_pairs (cs[j := ?m]))) =
        add_mset (x, p) (mset (concat (map parent_pairs cs)))"
      using mset_concat_update [of j "map parent_pairs cs" "parent_pairs ?m"] j m(5)
      by (simp add: map_update)
    have tops: "map (\<lambda>c. (node_id c, r)) (cs[j := ?m]) = map (\<lambda>c. (node_id c, r)) cs"
      using j m(1) by (intro map_list_update_eq) auto
    have "insert x d = (\<Union>c \<in> set (cs[j := ?m]). insert (node_id c) (descendant_keys c))"
    proof -
      have set': "set (cs[j := ?m]) = insert ?m (set (take j cs) \<union> set (drop (Suc j) cs))"
        using j by (auto simp: upd_conv_take_nth_drop)
      have set0: "set cs = insert (cs ! j) (set (take j cs) \<union> set (drop (Suc j) cs))"
        using j by (subst id_take_nth_drop [OF j]) auto
      have "d = (\<Union>c \<in> set cs. insert (node_id c) (descendant_keys c))"
        using Node.prems(1) by simp
      then show ?thesis unfolding set' set0 using m(1,2) by auto
    qed
    moreover have "\<forall>c \<in> set (cs[j := ?m]). exact c"
      using Node.prems(1) m(3) by (auto dest: set_update_subset_insert [THEN subsetD])
    ultimately have ex': "exact (Node r v (insert x d) (cs[j := ?m]))" by simp
    show ?thesis unfolding n' using ent par tops ex' by (simp del: exact.simps)
  qed
qed

lemma insert_wf:
  assumes "tree_wf n" and "covers p n" and "x \<notin> set (ids n)"
  shows "tree_wf (modify_path p (add_descendant x) (push_child K x) n)"
proof -
  let ?n' = "modify_path p (add_descendant x) (push_child K x) n"
  have n': "exact ?n'"
    "mset (entries ?n') = add_mset (x, new_state K (kind x)) (mset (entries n))"
    using modify_path_insert [of n p x K] assms by (simp_all add: tree_wf_def)
  from arg_cong [OF n'(2), of "image_mset fst"] have "mset (ids ?n') = mset (x # ids n)"
    by (simp add: ids_def)
  then have "distinct (ids ?n')"
    using assms(1,3) mset_eq_imp_distinct_iff [of "ids ?n'" "x # ids n"] by (simp add: tree_wf_def)
  with n'(1) show ?thesis by (simp add: tree_wf_def)
qed

lemma insert_states:
  assumes "tree_wf n" and "covers p n" and "x \<notin> set (ids n)"
  shows "states (modify_path p (add_descendant x) (push_child K x) n) =
    (states n)(x \<mapsto> new_state K (kind x))"
proof -
  let ?n' = "modify_path p (add_descendant x) (push_child K x) n"
  have m: "mset (entries ?n') = mset ((x, new_state K (kind x)) # entries n)"
    using modify_path_insert [of n p x K] assms by (simp add: tree_wf_def)
  then have "set (entries ?n') = set ((x, new_state K (kind x)) # entries n)"
    by (rule mset_eq_setD)
  moreover have "distinct (map fst (entries ?n'))"
    using insert_wf [OF assms, of K] by (simp add: tree_wf_def ids_def)
  moreover have "distinct (map fst ((x, new_state K (kind x)) # entries n))"
    using assms(1,3) by (simp add: tree_wf_def ids_def)
  ultimately have "map_of (entries ?n') = map_of ((x, new_state K (kind x)) # entries n)"
    by (simp only: map_of_inject_set)
  then show ?thesis by (simp add: states_def)
qed

lemma parent_keys: "mset (map fst (parent_pairs n)) = mset (concat (map ids (children n)))"
proof (induction n)
  case (Node r s d cs)
  have "mset (map fst (parent_pairs (Node r s d cs))) =
      mset (map node_id cs) + mset (concat (map (map fst \<circ> parent_pairs) cs))"
    by (simp add: map_concat comp_def)
  also have "mset (concat (map (map fst \<circ> parent_pairs) cs)) =
      mset (concat (map (\<lambda>c. concat (map ids (children c))) cs))"
    using Node.IH by (induction cs) auto
  also have "mset (map node_id cs) + \<dots> = mset (concat (map ids cs))"
  proof (induction cs)
    case (Cons c cs)
    have "mset (ids c) = add_mset (node_id c) (mset (concat (map ids (children c))))"
      by (cases c) (simp add: ids_Node)
    with Cons show ?case by simp
  qed simp
  finally show ?case by simp
qed

lemma parent_keys_distinct: "tree_wf n \<Longrightarrow> distinct (map fst (parent_pairs n))"
  using mset_eq_imp_distinct_iff [OF parent_keys [of n]]
  by (cases n) (simp add: tree_wf_def ids_Node)

lemma insert_parents:
  assumes "tree_wf n" and "covers p n" and "x \<notin> set (ids n)"
  shows "parents (modify_path p (add_descendant x) (push_child K x) n) = (parents n)(x \<mapsto> p)"
proof -
  let ?n' = "modify_path p (add_descendant x) (push_child K x) n"
  have "mset (parent_pairs ?n') = mset ((x, p) # parent_pairs n)"
    using modify_path_insert [of n p x K] assms by (simp add: tree_wf_def)
  then have "set (parent_pairs ?n') = set ((x, p) # parent_pairs n)"
    by (rule mset_eq_setD)
  moreover have "distinct (map fst (parent_pairs ?n'))"
    using insert_wf [OF assms] by (rule parent_keys_distinct)
  moreover have "x \<notin> set (map fst (parent_pairs n))"
    using assms(3) mset_eq_setD [OF parent_keys [of n]] ids_children [of n] by auto
  then have "distinct (map fst ((x, p) # parent_pairs n))"
    using parent_keys_distinct [OF assms(1)] by simp
  ultimately have "map_of (parent_pairs ?n') = map_of ((x, p) # parent_pairs n)"
    by (simp only: map_of_inject_set)
  then show ?thesis by (simp add: parents_def)
qed

section \<open>Parents\<close>

lemma parent_loop_parents:
  assumes "tree_wf n"
  shows "parent_loop i n = Returned (parents n i)"
  using assms
proof (induction n)
  case (Node r s d cs)
  let ?n = "Node r s d cs"
  have ex: "exact ?n" using Node.prems by (simp add: tree_wf_def)
  have keys: "fst ` set (parent_pairs ?n) = d"
    using mset_eq_setD [OF parent_keys [of ?n]] exact_descendants [OF ex]
    by (simp del: parent_pairs.simps)
  show ?case
  proof (cases "i \<in> d")
    case False
    then have "parents ?n i = None" unfolding parents_def map_of_eq_None_iff keys by simp
    with False show ?thesis by (simp add: parent_loop.simps)
  next
    case True
    with exact_child_idx [OF ex, of i] obtain j where
      idx: "child_idx ?n i = Some j" and j: "j < length cs" and cov: "covers i (cs ! j)"
      and exj: "exact (cs ! j)"
      by auto
    have wfj: "tree_wf (cs ! j)" using Node.prems(1) j by (auto intro: tree_wf_child)
    have "\<exists>p. (i, p) \<in> set (parent_pairs ?n) \<and> parent_loop i ?n = Returned (Some p)"
    proof (cases "node_id (cs ! j) = i")
      case found: True
      then have "(i, r) \<in> set (parent_pairs ?n)" using j by force
      with True idx found show ?thesis by (simp add: parent_loop.simps [of i ?n] child_by_idx)
    next
      case False
      with cov have "i \<in> descendant_keys (cs ! j)" by (simp add: covers_def)
      then have "i \<in> fst ` set (parent_pairs (cs ! j))"
        using mset_eq_setD [OF parent_keys [of "cs ! j"]] exact_descendants [OF exj] by simp
      then have "i \<in> dom (parents (cs ! j))"
        by (simp add: parents_def dom_map_of_conv_image_fst)
      then obtain p where "parents (cs ! j) i = Some p" by blast
      moreover from this have "(i, p) \<in> set (parent_pairs ?n)"
        using j by (auto simp: parents_def dest!: map_of_SomeD)
      ultimately show ?thesis
        using True idx False Node.IH [OF nth_mem [OF j] wfj]
        by (auto simp: parent_loop.simps [of i ?n] child_by_idx)
    qed
    then obtain p where mem: "(i, p) \<in> set (parent_pairs ?n)"
      and loop: "parent_loop i ?n = Returned (Some p)" by blast
    have "parents ?n i = Some p"
      unfolding parents_def using parent_keys_distinct [OF Node.prems] mem by (rule map_of_is_SomeI)
    with loop show ?thesis by simp
  qed
qed

lemma get_parent_id_parents:
  assumes "tree_wf n"
  shows "get_parent_id n i = Returned (parents n i)"
proof (cases "i \<in> descendant_keys n")
  case True
  with parent_loop_parents [OF assms] show ?thesis by (simp add: get_parent_id_def)
next
  case False
  with assms have "i \<notin> fst ` set (parent_pairs n)"
    using mset_eq_setD [OF parent_keys [of n]] exact_descendants [of n]
    by (simp add: tree_wf_def)
  then have "parents n i = None" by (simp add: parents_def map_of_eq_None_iff)
  with False show ?thesis by (simp add: get_parent_id_def)
qed

text \<open>The zipper's own view of the parent, used by \<open>finish_update_parent_id\<close>.\<close>

lemma descend_parent:
  assumes "tree_wf (znode z)" and "covers i (znode z)"
    and "map_option (\<lambda>p. node_id (znode p)) (zparent z) = q"
  shows "\<exists>z'. descend i z = Returned z' \<and>
    map_option (\<lambda>p. node_id (znode p)) (zparent z') =
      (if i \<in> descendant_keys (znode z) then parents (znode z) i else q)"
  using assms
proof (induction i z arbitrary: q rule: descend.induct)
  case (1 i z)
  let ?n = "znode z"
  have ex: "exact ?n" using "1.prems" by (simp add: tree_wf_def)
  show ?case
  proof (cases "i \<in> descendant_keys ?n")
    case False
    with "1.prems"(3) show ?thesis by (subst descend.simps) auto
  next
    case True
    from exact_child_idx [OF ex True] obtain j where
      j: "child_idx ?n i = Some j" "j < length (children ?n)" "covers i (children ?n ! j)"
        "children ?n ! j \<in> set (children ?n)" by blast
    obtain z1 where z1: "zip_child j z = Returned z1" "znode z1 = children ?n ! j"
      "map_option (\<lambda>p. node_id (znode p)) (zparent z1) = Some (node_id ?n)"
      using zip_child_eq [OF j(2)] by simp
    have wf1: "tree_wf (znode z1)" using tree_wf_child [OF "1.prems"(1) j(4)] z1(2) by simp
    have d: "descend i z = descend i z1"
      using True j z1 by (subst descend.simps) simp
    have p: "parents ?n i = (if node_id (znode z1) = i then Some (node_id ?n) else parents (znode z1) i)"
    proof -
      have "Returned (parents ?n i) = parent_loop i ?n"
        using parent_loop_parents [OF "1.prems"(1)] by simp
      also have "\<dots> = (if node_id (znode z1) = i then Returned (Some (node_id ?n))
          else parent_loop i (znode z1))"
        using True j z1(2) by (simp add: parent_loop.simps [of i ?n] child_by_idx)
      finally show ?thesis
        using parent_loop_parents [OF wf1] by (simp split: if_splits)
    qed
    from "1.IH" [OF True j(1) z1(1) wf1 _ z1(3)] j(3) z1(2) obtain z' where
      "descend i z1 = Returned z'"
      "map_option (\<lambda>p. node_id (znode p)) (zparent z') =
        (if i \<in> descendant_keys (znode z1) then parents (znode z1) i else Some (node_id ?n))"
      by auto
    with d p True j(3) z1(2) tree_wf_root_fresh [OF wf1] show ?thesis
      by (auto simp: covers_def)
  qed
qed

section \<open>The operations\<close>

lemma node_update_wf:
  assumes "tree_wf n" and "i \<in> dom (states n)"
  shows "node_update K \<lparr>upd_id = i, upd_state = s\<rparr> n =
    (Returned (), map_states (\<lambda>k v. if k = i then s else v) n)"
proof -
  have "exact n" and "covers i n"
    using assms by (simp_all add: tree_wf_def exact_covers dom_states)
  with modify_path_state [OF assms(1), of i s] show ?thesis
    by (simp add: node_update_def swapped_def into_update_modify)
qed

lemma update_and_get_parent_id_wf:
  assumes "tree_wf n" and "i \<in> dom (states n)"
  shows "update_and_get_parent_id K \<lparr>upd_id = i, upd_state = s\<rparr> n =
    (Returned (parents n i), map_states (\<lambda>k v. if k = i then s else v) n)"
proof -
  have ex: "exact n" and cov: "covers i n"
    using assms by (simp_all add: tree_wf_def exact_covers dom_states)
  obtain z where z: "by_id i (node_zipper n) = Returned z"
    "\<And>f. finish_update (set_znode (f (znode z)) z) = Returned (modify_path i (\<lambda>n. n) f n)"
    using by_id_modify [OF ex cov] by blast
  have "znode (node_zipper n) = n" and "zparent (node_zipper n) = None"
    by (simp_all add: node_zipper_def)
  with descend_parent [of "node_zipper n" i None] assms(1) cov z(1)
  have "map_option (\<lambda>p. node_id (znode p)) (zparent z) =
      (if i \<in> descendant_keys n then parents n i else None)"
    by (auto simp: by_id_def map_outcome_to_Returned_iff split: if_splits)
  also have "\<dots> = parents n i"
    using get_parent_id_parents [OF assms(1), of i] by (auto simp: get_parent_id_def split: if_splits)
  finally show ?thesis
    using z modify_path_state [OF assms(1) cov, of s]
    by (simp add: update_and_get_parent_id_def swapped_def finish_update_parent_id_def set_state_def)
qed

lemma node_insert_wf:
  assumes "tree_wf n" and "p \<in> dom (states n)"
  shows "node_insert K \<lparr>ins_parent_id = Some p, ins_id = x\<rparr> n =
    (Returned (), modify_path p (add_descendant x) (push_child K x) n)"
  using assms
  by (simp add: node_insert_def swapped_def into_insert_modify tree_wf_def exact_covers dom_states)

lemma node_update_missing:
  assumes "tree_wf n" and "i \<notin> dom (states n)"
  shows "node_update K \<lparr>upd_id = i, upd_state = s\<rparr> n = (Panicked NotInTree, node_new K (node_id n))"
    and "update_and_get_parent_id K \<lparr>upd_id = i, upd_state = s\<rparr> n =
      (Panicked NotInTree, node_new K (node_id n))"
    and "node_insert K \<lparr>ins_parent_id = Some i, ins_id = x\<rparr> n =
      (Panicked NotInTree, node_new K (node_id n))"
  using assms by_id_missing [of n i]
  by (simp_all add: tree_wf_def exact_covers dom_states node_update_def node_insert_def
      update_and_get_parent_id_def into_update_def into_insert_def swapped_def)

lemma node_new_wf [simp]: "tree_wf (node_new K i)"
  by (simp add: node_new_def tree_wf_def ids_def)

lemma node_new_states [simp]: "states (node_new K i) = [i \<mapsto> new_state K (kind i)]"
  by (simp add: node_new_def states_def)

lemma node_new_parents [simp]: "parents (node_new K i) = Map.empty"
  by (simp add: node_new_def parents_def)

subsection \<open>Scripts of insertions and updates\<close>

datatype ('k, 's) tree_op = Add "'k state_id" "'k state_id" | Upd "'k state_id" 's

primrec node_op :: "('k, 's, 'z) kind_ops_scheme \<Rightarrow> ('k, 's) tree_op \<Rightarrow> (('k, 's) state_node, unit) cmd" where
  "node_op K (Add p x) = node_insert K \<lparr>ins_parent_id = Some p, ins_id = x\<rparr>"
| "node_op K (Upd i s) = node_update K \<lparr>upd_id = i, upd_state = s\<rparr>"

type_synonym ('k, 's) tree_abs = "('k state_id \<rightharpoonup> 's) \<times> ('k state_id \<rightharpoonup> 'k state_id)"

primrec tree_abs_op :: "('k, 's, 'z) kind_ops_scheme \<Rightarrow> ('k, 's) tree_op \<Rightarrow> ('k, 's) tree_abs \<Rightarrow> ('k, 's) tree_abs" where
  "tree_abs_op K (Add p x) a = ((fst a)(x \<mapsto> new_state K (kind x)), (snd a)(x \<mapsto> p))"
| "tree_abs_op K (Upd i s) a = ((fst a)(i \<mapsto> s), snd a)"

primrec tree_op_ok :: "('k, 's) tree_op \<Rightarrow> ('k, 's) tree_abs \<Rightarrow> bool" where
  "tree_op_ok (Add p x) a \<longleftrightarrow> p \<in> dom (fst a) \<and> x \<notin> dom (fst a)"
| "tree_op_ok (Upd i s) a \<longleftrightarrow> i \<in> dom (fst a)"

definition tree_abs :: "('k, 's) state_node \<Rightarrow> ('k, 's) tree_abs" where
  "tree_abs n = (states n, parents n)"

lemma map_states_at:
  "i \<in> dom (states n) \<Longrightarrow>
   states (map_states (\<lambda>k v. if k = i then s else v) n) = (states n)(i \<mapsto> s)"
proof (rule ext)
  fix x
  assume "i \<in> dom (states n)"
  then show "states (map_states (\<lambda>k v. if k = i then s else v) n) x = ((states n)(i \<mapsto> s)) x"
    by (cases "states n x") (auto simp: map_states_states)
qed

interpretation tree_refinement:
  cmd_refinement "node_op K" tree_wf tree_abs tree_op_ok "tree_abs_op K" for K
proof
  fix n :: "('a, 'b) state_node" and x
  assume wf: "tree_wf n" and ok: "tree_op_ok x (tree_abs n)"
  show "\<exists>n'. node_op K x n = (Returned (), n') \<and> tree_wf n' \<and> tree_abs n' = tree_abs_op K x (tree_abs n)"
  proof (cases x)
    case (Add p c)
    with ok have "covers p n" and "c \<notin> set (ids n)" and "p \<in> dom (states n)"
      using wf by (auto simp: tree_abs_def dom_states tree_wf_def exact_covers)
    with Add wf show ?thesis
      by (simp add: node_insert_wf insert_wf insert_states insert_parents tree_abs_def)
  next
    case (Upd i s)
    with ok wf show ?thesis
      by (simp add: node_update_wf map_states_at tree_abs_def)
  qed
qed

text \<open>
  C1. Every sequence of insertions (under a parent that is in the tree, of an id that is not)
  and updates (of an id in the tree), run on a well-formed tree through the zipper, returns,
  keeps the tree well formed, and leaves a tree on which get_state and get_parent_id answer for
  every id exactly what the same sequence gives on two finite maps, one from ids to states and
  one from ids to parents.
\<close>

theorem tree_script_refines:
  assumes "tree_wf n"
    and "script_ok tree_op_ok (tree_abs_op K) ops (states n, parents n)"
  shows "\<exists>n'. run_cmds (node_op K) ops n = (Returned (), n') \<and> tree_wf n' \<and>
    (\<forall>i. get_state n' i = Returned (fst (run_ops (tree_abs_op K) ops (states n, parents n)) i)) \<and>
    (\<forall>i. get_parent_id n' i = Returned (snd (run_ops (tree_abs_op K) ops (states n, parents n)) i))"
proof -
  from tree_refinement.run_refines [of n K ops] assms obtain n' where
    "run_cmds (node_op K) ops n = (Returned (), n')" "tree_wf n'"
    "tree_abs n' = run_ops (tree_abs_op K) ops (states n, parents n)"
    by (auto simp: tree_abs_def)
  then show ?thesis
    by (auto simp: get_state_states get_parent_id_parents tree_abs_def dest: sym)
qed

theorem tree_script_refines_witness:
  "\<exists>n. run_cmds (node_op node_kind_ops) [Add alice bob, Upd bob (Node_State Bob Awaiting)]
      (node_new node_kind_ops alice) = (Returned (), n) \<and> tree_wf n \<and>
    get_state n bob = Returned (Some (Node_State Bob Awaiting)) \<and>
    get_parent_id n bob = Returned (Some alice)"
  using tree_script_refines [of "node_new node_kind_ops alice" node_kind_ops
      "[Add alice bob, Upd bob (Node_State Bob Awaiting)]"]
  by auto

text \<open>
  On a well-formed tree and an id in it, update_and_get_parent_id returns the id's parent
  (none for the root), changes the state of that id only, and keeps parents, ids and well-
  formedness.
\<close>

theorem update_and_get_parent_id_spec:
  assumes "tree_wf n" and "i \<in> dom (states n)"
  shows "\<exists>n'. update_and_get_parent_id K \<lparr>upd_id = i, upd_state = s\<rparr> n = (Returned (parents n i), n') \<and>
    tree_wf n' \<and> states n' = (states n)(i \<mapsto> s) \<and> parents n' = parents n \<and> ids n' = ids n"
  using assms by (simp add: update_and_get_parent_id_wf map_states_at)

theorem update_and_get_parent_id_spec_witness:
  "\<exists>n. update_and_get_parent_id node_kind_ops \<lparr>upd_id = alice, upd_state = Node_State Alice Failed\<rparr>
      (node_new node_kind_ops alice) = (Returned None, n) \<and>
    states n = [alice \<mapsto> Node_State Alice Failed]"
  using update_and_get_parent_id_spec [of "node_new node_kind_ops alice" alice node_kind_ops
      "Node_State Alice Failed"] by auto

text \<open>
  C37. Updating an id that is not in the tree panics, and because the tree had been swapped out,
  what stays behind the lock is a new node with only the root in its initial state: all other
  ids and every state are gone.
\<close>

theorem update_missing_loses_tree:
  assumes "tree_wf n" and "i \<notin> dom (states n)"
  shows "node_update K \<lparr>upd_id = i, upd_state = s\<rparr> n = (Panicked NotInTree, node_new K (node_id n)) \<and>
    states (snd (node_update K \<lparr>upd_id = i, upd_state = s\<rparr> n)) =
      [node_id n \<mapsto> new_state K (kind (node_id n))]"
  using assms by (simp add: node_update_missing)

theorem update_missing_loses_tree_witness:
  "fst (node_update node_kind_ops \<lparr>upd_id = bob, upd_state = Node_State Bob Failed\<rparr>
    (node_new node_kind_ops alice)) = Panicked NotInTree"
  using update_missing_loses_tree [of "node_new node_kind_ops alice" bob node_kind_ops
      "Node_State Bob Failed"] by simp

subsection \<open>The zipper round trip\<close>

lemma descend_finish: "descend i z = Returned z' \<Longrightarrow> finish_update z' = finish_update z"
proof (induction i z rule: descend.induct)
  case (1 i z)
  show ?case
  proof (cases "i \<in> descendant_keys (znode z)")
    case False
    with "1.prems" show ?thesis by (simp add: descend.simps [of i z])
  next
    case True
    with "1.prems" obtain j z1 where
      j: "child_idx (znode z) i = Some j" and z1: "zip_child j z = Returned z1"
      and r: "descend i z1 = Returned z'"
      by (auto simp: descend.simps [of i z] split: option.splits outcome.splits)
    have "set_znode (znode z1) z1 = z1" and "set_znode (znode z) z = z"
      by (cases z1, simp) (cases z, simp)
    moreover have "znode z1 = children (znode z) ! j"
      using z1 by (auto simp: zip_child_def swap_remove_def split: if_splits)
    moreover have "set_children (children (znode z)) (znode z) = znode z"
      by (cases "znode z") simp
    ultimately have "finish_update z1 = finish_update z"
      using finish_update_child [OF z1, of "znode z1"] by simp
    with "1.IH" [OF True j z1 r] show ?thesis by simp
  qed
qed

text \<open>
  Whenever by_id reaches a node, finishing the update without having changed it gives back
  the very tree the walk began from, the order of all children included: swap_remove on the way
  down is undone on the way up.
\<close>

theorem zipper_roundtrip:
  assumes "by_id i (node_zipper n) = Returned z"
  shows "finish_update z = Returned n"
proof -
  from assms have "descend i (node_zipper n) = Returned z"
    by (auto simp: by_id_def map_outcome_to_Returned_iff split: if_splits)
  from descend_finish [OF this] show ?thesis
    by (simp add: finish_update.simps [of "node_zipper n"]) (simp add: node_zipper_def)
qed

theorem zipper_roundtrip_witness:
  "finish_update (node_zipper (node_new node_kind_ops alice)) =
    Returned (node_new node_kind_ops alice)"
  by (rule zipper_roundtrip [of alice]) (simp add: by_id_def descend.simps node_zipper_def)

subsection \<open>Updating every node\<close>

text \<open>The order in which \<open>finish_update_fn\<close> visits the nodes: children first.\<close>

fun post_order :: "('id, 's) node \<Rightarrow> 'id list" where
  "post_order (Node i s d cs) = concat (map post_order cs) @ [i]"

lemma set_post_order: "set (post_order n) = set (ids n)"
  by (induction n) (auto simp: ids_Node)

lemma length_post_order: "mset (post_order n) = mset (ids n)"
proof (induction n)
  case (Node i s d cs)
  then have "mset (concat (map post_order cs)) = mset (concat (map ids cs))"
    by (induction cs) auto
  then show ?case by (simp add: ids_Node)
qed

lemma finish_update_fn_states:
  assumes "\<And>n w. f (node_zipper n) w =
    (Returned (set_node_state (g (node_id n) (node_state n)) n), h (node_id n) w)"
  shows "finish_update_fn f n w = (Returned (map_states g n), fold h (post_order n) w)"
proof (induction n arbitrary: w)
  case (Node i s d cs)
  have "traverse (finish_update_fn f) cs w =
      (Returned (map (map_states g) cs), fold (\<lambda>c. fold h (post_order c)) cs w)"
    using Node.IH by (rule traverse_pure)
  moreover have "fold (\<lambda>c. fold h (post_order c)) cs w = fold h (concat (map post_order cs)) w" for w
    by (induction cs arbitrary: w) simp_all
  ultimately show ?case by (simp add: cmd_simps assms)
qed

text \<open>
  For a closure that rewrites the state of the node it is given and has an effect that
  depends on the id, update_all_fn runs the effect exactly once for each id of the tree, gives
  every id the rewritten state, and keeps the tree well formed with the same ids and parents.
\<close>

theorem update_all_fn_spec:
  assumes "\<And>m w. f (node_zipper m) w =
      (Returned (set_node_state (g (node_id m) (node_state m)) m), h (node_id m) w)"
    and "tree_wf n"
  shows "\<exists>n' order. update_all_fn K f (w, n) = (Returned (), fold h order w, n') \<and>
    distinct order \<and> set order = dom (states n) \<and>
    tree_wf n' \<and> parents n' = parents n \<and> ids n' = ids n \<and>
    (\<forall>i. states n' i = map_option (g i) (states n i))"
proof -
  have "finish_update_fn f n w = (Returned (map_states g n), fold h (post_order n) w)"
    using assms(1) by (rule finish_update_fn_states)
  moreover have "distinct (post_order n)"
    using mset_eq_imp_distinct_iff [OF length_post_order [of n]] assms(2) by (simp add: tree_wf_def)
  ultimately show ?thesis
    using assms(2)
    by (auto simp: update_all_fn_def set_post_order dom_states map_states_states
        intro!: exI [of _ "post_order n"])
qed

theorem update_all_fn_spec_witness:
  "\<exists>n order. update_all_fn node_kind_ops
      (\<lambda>z w. (Returned (set_node_state (Node_State Alice Failed) (znode z)), node_id (znode z) # w))
      ([], node_new node_kind_ops alice) = (Returned (), fold (#) order [], n) \<and>
    set order = {alice} \<and> states n alice = Some (Node_State Alice Failed)"
  using update_all_fn_spec [of
      "\<lambda>z w. (Returned (set_node_state (Node_State Alice Failed) (znode z)), node_id (znode z) # w)"
      "\<lambda>_ _. Node_State Alice Failed" "(#)" "node_new node_kind_ops alice" node_kind_ops "[]"]
  by (force simp: node_zipper_def)

end
