(* ===== verification/Rex_Storage.thy ===== *)
theory Rex_Storage
  imports Rex_Tree
begin

text \<open>
  \<open>src/storage.rs\<close>: \<open>StateStore\<close>, the map from ids to shared trees. The trees are cells of an
  explicit heap, since several ids share one \<open>Arc<FairMutex<Node>>\<close> and an update through one
  of them is seen through all. A cell is never freed: dropping the last \<open>Arc\<close> is not
  observable. Here are also the tree operations of \<open>StateMachine\<close> and \<open>StateMachineExt\<close>
  (\<open>src/manager.rs\<close>) that touch nothing but the store.
\<close>

section \<open>The store\<close>

type_synonym tree_ref = nat

record ('k, 's) store =
  trees :: "'k state_id \<rightharpoonup> tree_ref"
  heap :: "('k, 's) state_node list"

definition store_new :: "('k, 's) store" where
  "store_new = \<lparr>trees = Map.empty, heap = []\<rparr>"

text \<open>\<open>Arc::new(FairMutex::new(node))\<close>.\<close>

definition arc_new :: "('k, 's) state_node \<Rightarrow> (('k, 's) store, tree_ref) cmd" where
  "arc_new n = (\<lambda>st. (Returned (length (heap st)), st\<lparr>heap := heap st @ [n]\<rparr>))"

definition new_tree :: "('k, 's) state_node \<Rightarrow> (('k, 's) store, tree_ref) cmd" where
  "new_tree n = seqc (assert_cmd NilId (\<not> is_nil (node_id n))) (arc_new n)"

definition insert_ref :: "'k state_id \<Rightarrow> tree_ref \<Rightarrow> (('k, 's) store, unit) cmd" where
  "insert_ref i r =
     seqc (assert_cmd NilId (\<not> is_nil i)) (modifies (\<lambda>st. st\<lparr>trees := (trees st)(i \<mapsto> r)\<rparr>))"

definition remove_ref :: "'k state_id \<Rightarrow> (('k, 's) store, unit) cmd" where
  "remove_ref i =
     seqc (assert_cmd NilId (\<not> is_nil i)) (modifies (\<lambda>st. st\<lparr>trees := (trees st)(i := None)\<rparr>))"

definition get_tree :: "'k state_id \<Rightarrow> (('k, 's) store, tree_ref option) cmd" where
  "get_tree i = seqc (assert_cmd NilId (\<not> is_nil i)) (gets (\<lambda>st. trees st i))"

text \<open>
  \<open>tree.lock()\<close> and the use of the guard. The guard is released whether the code returns or
  panics, and the mutex does not record a panic.
\<close>

definition locked :: "tree_ref \<Rightarrow> (('k, 's) state_node, 'a) cmd \<Rightarrow> (('k, 's) store, 'a) cmd" where
  "locked r m = (\<lambda>st. case m (heap st ! r) of (x, n) \<Rightarrow> (x, st\<lparr>heap := (heap st)[r := n]\<rparr>))"

section \<open>Tree operations of a state machine\<close>

definition create_tree ::
  "('k, 's, 'z) kind_ops_scheme \<Rightarrow> 'k state_id \<Rightarrow> (('k, 's) store, unit) cmd" where
  "create_tree K i = bindc (arc_new (node_new K i)) (insert_ref i)"

definition new_child ::
  "('k, 's, 'z) kind_ops_scheme \<Rightarrow> 'k state_id \<Rightarrow> 'k state_id \<Rightarrow> (('k, 's) store, unit) cmd" where
  "new_child K i child_id =
     bindc (get_tree i) (\<lambda>t.
     bindc (lift_outcome (unwrap UnwrapNone t)) (\<lambda>r.
     seqc (insert_ref child_id r)
       (locked r (node_insert K \<lparr>ins_parent_id = Some i, ins_id = child_id\<rparr>))))"

definition sm_update ::
  "('k, 's, 'z) kind_ops_scheme \<Rightarrow> 'k state_id \<Rightarrow> 's \<Rightarrow> (('k, 's) store, unit) cmd" where
  "sm_update K i s =
     bindc (get_tree i) (\<lambda>t.
     bindc (lift_outcome (unwrap MissingIdForUpdate t)) (\<lambda>r.
       locked r (node_update K \<lparr>upd_id = i, upd_state = s\<rparr>)))"

text \<open>The part of \<open>update_state_and_signal\<close> that updates the tree.\<close>

definition update_in_tree ::
  "('k, 's, 'z) kind_ops_scheme \<Rightarrow> 'k state_id \<Rightarrow> 's \<Rightarrow> (('k, 's) store, 'k state_id option) cmd" where
  "update_in_tree K i s =
     bindc (get_tree i) (\<lambda>t. case t of
       None \<Rightarrow> panicking MissingSmTree
     | Some r \<Rightarrow> locked r (update_and_get_parent_id K \<lparr>upd_id = i, upd_state = s\<rparr>))"

text \<open>Reads through a context: a missing tree is \<open>None\<close>.\<close>

definition read_state :: "'k state_id \<Rightarrow> (('k, 's) store, 's option) cmd" where
  "read_state i =
     bindc (get_tree i) (\<lambda>t. case t of
       None \<Rightarrow> ret None
     | Some r \<Rightarrow> locked r (\<lambda>n. (get_state n i, n)))"

definition has_tree :: "'k state_id \<Rightarrow> (('k, 's) store, bool) cmd" where
  "has_tree i = bindc (get_tree i) (\<lambda>t. ret (t \<noteq> None))"

definition read_parent_id :: "'k state_id \<Rightarrow> (('k, 's) store, 'k state_id option) cmd" where
  "read_parent_id i =
     bindc (get_tree i) (\<lambda>t. case t of
       None \<Rightarrow> ret None
     | Some r \<Rightarrow> locked r (\<lambda>n. (get_parent_id n i, n)))"

lemmas store_ops_defs =
  arc_new_def insert_ref_def remove_ref_def get_tree_def locked_def create_tree_def new_child_def
  sm_update_def update_in_tree_def read_state_def has_tree_def read_parent_id_def

section \<open>Well-formed stores and the forest they hold\<close>

definition store_wf :: "('k, 's) store \<Rightarrow> bool" where
  "store_wf st \<longleftrightarrow>
     (\<forall>n \<in> set (heap st). tree_wf n) \<and>
     (\<forall>i r. trees st i = Some r \<longleftrightarrow> r < length (heap st) \<and> i \<in> dom (states (heap st ! r))) \<and>
     (\<forall>i r. trees st i = Some r \<longrightarrow> \<not> is_nil i)"

definition forest_states :: "('k, 's) store \<Rightarrow> ('k state_id \<rightharpoonup> 's)" where
  "forest_states st i = Option.bind (trees st i) (\<lambda>r. states (heap st ! r) i)"

definition forest_parents :: "('k, 's) store \<Rightarrow> ('k state_id \<rightharpoonup> 'k state_id)" where
  "forest_parents st i = Option.bind (trees st i) (\<lambda>r. parents (heap st ! r) i)"

definition forest :: "('k, 's) store \<Rightarrow> ('k, 's) tree_abs" where
  "forest st = (forest_states st, forest_parents st)"

lemma store_new_wf: "store_wf store_new"
  by (simp add: store_wf_def store_new_def)

lemma store_new_forest: "forest store_new = (Map.empty, Map.empty)"
  by (auto simp: forest_def forest_states_def forest_parents_def store_new_def)

lemma store_new_maps [simp]:
  "forest_states store_new = Map.empty" "forest_parents store_new = Map.empty"
  by (auto simp: forest_states_def forest_parents_def store_new_def)

lemma store_wf_tree:
  assumes "store_wf st" and "trees st i = Some r"
  shows "r < length (heap st)" and "tree_wf (heap st ! r)" and "i \<in> dom (states (heap st ! r))"
    and "\<not> is_nil i"
proof -
  have key: "r < length (heap st) \<and> i \<in> dom (states (heap st ! r))"
    using assms unfolding store_wf_def by blast
  then show "r < length (heap st)" and "i \<in> dom (states (heap st ! r))" by simp_all
  from key assms(1) show "tree_wf (heap st ! r)" unfolding store_wf_def by simp
  show "\<not> is_nil i" using assms unfolding store_wf_def by blast
qed

lemma dom_forest: "store_wf st \<Longrightarrow> dom (forest_states st) = dom (trees st)"
  by (fastforce simp: forest_states_def store_wf_def bind_eq_Some_conv)

lemma store_wf_dom:
  assumes "store_wf st" and "i \<in> dom (forest_states st)"
  obtains r where "trees st i = Some r" and "r < length (heap st)" and "tree_wf (heap st ! r)"
    and "i \<in> dom (states (heap st ! r))" and "\<not> is_nil i"
proof -
  from assms have "i \<in> dom (trees st)" by (simp add: dom_forest)
  then obtain r where r: "trees st i = Some r" by blast
  from that [OF r store_wf_tree [OF assms(1) r]] show thesis .
qed

lemma parents_dom:
  assumes "tree_wf n" and "parents n i = Some p"
  shows "i \<in> dom (states n)"
proof -
  from assms(2) have "(i, p) \<in> set (parent_pairs n)" by (auto simp: parents_def dest: map_of_SomeD)
  then have "i \<in> set (concat (map ids (children n)))" by (rule parent_pairs_ids)
  then show ?thesis unfolding dom_states ids_children by simp
qed

text \<open>Replacing a tree in the heap by one with the same ids, or with one id more.\<close>

lemma store_replace:
  assumes wf: "store_wf st" and r: "r < length (heap st)" and n: "tree_wf n"
    and dom: "dom (states n) = X \<union> dom (states (heap st ! r))"
    and X: "\<And>x. x \<in> X \<Longrightarrow> \<not> is_nil x \<and> x \<notin> dom (trees st)"
  defines "st' \<equiv> st\<lparr>trees := (\<lambda>i. if i \<in> X then Some r else trees st i),
      heap := (heap st)[r := n]\<rparr>"
  shows "store_wf st'"
    and "forest_states st' = (\<lambda>i. if trees st i = Some r \<or> i \<in> X then states n i else forest_states st i)"
    and "forest_parents st' = (\<lambda>i. if trees st i = Some r \<or> i \<in> X then parents n i else forest_parents st i)"
proof -
  have key: "trees st i = Some q \<longleftrightarrow> q < length (heap st) \<and> i \<in> dom (states (heap st ! q))" for i q
    using wf by (simp add: store_wf_def)
  have "trees st' i = Some q \<longleftrightarrow> q < length (heap st') \<and> i \<in> dom (states (heap st' ! q))" for i q
  proof (cases "q = r")
    case True
    with r dom key [of i r] show ?thesis by (auto simp: st'_def)
  next
    case False
    with key [of i q] X [of i] show ?thesis by (auto simp: st'_def)
  qed
  moreover have "\<forall>m \<in> set (heap st'). tree_wf m"
    using wf n by (auto simp: st'_def store_wf_def dest: set_update_subset_insert [THEN subsetD])
  moreover have "\<forall>i q. trees st' i = Some q \<longrightarrow> \<not> is_nil i"
    using store_wf_tree(4) [OF wf] X by (auto simp: st'_def split: if_splits)
  ultimately show "store_wf st'" unfolding store_wf_def by blast
  show "forest_states st' = (\<lambda>i. if trees st i = Some r \<or> i \<in> X then states n i else forest_states st i)"
    using r by (auto simp: st'_def forest_states_def fun_eq_iff nth_list_update split: bind_splits)
  show "forest_parents st' = (\<lambda>i. if trees st i = Some r \<or> i \<in> X then parents n i else forest_parents st i)"
    using r by (auto simp: st'_def forest_parents_def fun_eq_iff nth_list_update split: bind_splits)
qed

section \<open>What the operations do to the forest\<close>

lemma create_tree_forest:
  assumes "store_wf st" and "\<not> is_nil i" and "i \<notin> dom (forest_states st)"
  shows "\<exists>st'. create_tree K i st = (Returned (), st') \<and> store_wf st' \<and>
    forest_states st' = (forest_states st)(i \<mapsto> new_state K (kind i)) \<and>
    forest_parents st' = forest_parents st"
proof -
  let ?st1 = "st\<lparr>heap := heap st @ [node_new K i]\<rparr>"
  let ?st' = "?st1\<lparr>trees := (trees st)(i \<mapsto> length (heap st))\<rparr>"
  have key: "trees st j = Some q \<longleftrightarrow> q < length (heap st) \<and> j \<in> dom (states (heap st ! q))" for j q
    using assms(1) by (simp add: store_wf_def)
  have fresh: "trees st i = None" using assms(1,3) by (simp add: dom_forest domIff)
  have "trees ?st' j = Some q \<longleftrightarrow> q < length (heap ?st') \<and> j \<in> dom (states (heap ?st' ! q))" for j q
    using key [of j q] fresh key [of i q] by (auto simp: nth_append less_Suc_eq)
  moreover have "\<forall>m \<in> set (heap ?st'). tree_wf m"
    using assms(1) by (simp add: store_wf_def)
  moreover have "\<forall>j q. trees ?st' j = Some q \<longrightarrow> \<not> is_nil j"
    using store_wf_tree(4) [OF assms(1)] assms(2) by auto
  ultimately have "store_wf ?st'" unfolding store_wf_def by blast
  moreover have "forest_states ?st' = (forest_states st)(i \<mapsto> new_state K (kind i))"
  proof
    fix j
    show "forest_states ?st' j = ((forest_states st)(i \<mapsto> new_state K (kind i))) j"
      using fresh store_wf_tree(1) [OF assms(1), of j]
      by (cases "trees st j"; cases "j = i") (simp_all add: forest_states_def nth_append)
  qed
  moreover have "forest_parents ?st' = forest_parents st"
  proof
    fix j
    show "forest_parents ?st' j = forest_parents st j"
      using fresh store_wf_tree(1) [OF assms(1), of j]
      by (cases "trees st j"; cases "j = i") (simp_all add: forest_parents_def nth_append)
  qed
  ultimately show ?thesis
    using assms(2) by (simp add: create_tree_def arc_new_def insert_ref_def cmd_simps)
qed

lemma new_child_forest:
  assumes "store_wf st" and "i \<in> dom (forest_states st)" and "\<not> is_nil c"
    and "c \<notin> dom (forest_states st)"
  shows "\<exists>st'. new_child K i c st = (Returned (), st') \<and> store_wf st' \<and>
    forest_states st' = (forest_states st)(c \<mapsto> new_state K (kind c)) \<and>
    forest_parents st' = (forest_parents st)(c \<mapsto> i)"
proof -
  from assms obtain r where r: "trees st i = Some r" "r < length (heap st)" "tree_wf (heap st ! r)"
    "i \<in> dom (states (heap st ! r))" "\<not> is_nil i" by (elim store_wf_dom) blast+
  let ?n = "heap st ! r"
  let ?n' = "modify_path i (add_descendant c) (push_child K c) ?n"
  have c: "trees st c = None" using assms(1,4) by (simp add: dom_forest domIff)
  with assms(1) r(2) have cn: "c \<notin> dom (states ?n)" by (metis option.distinct(1) store_wf_def)
  have cov: "covers i ?n" and cids: "c \<notin> set (ids ?n)"
    using r(3,4) cn by (simp_all add: dom_states tree_wf_def exact_covers)
  note ins = insert_wf [OF r(3) cov cids, of K] insert_states [OF r(3) cov cids, of K]
    insert_parents [OF r(3) cov cids, of K]
  have dom': "dom (states ?n') = {c} \<union> dom (states ?n)" using ins(2) by auto
  have X: "\<And>x. x \<in> {c} \<Longrightarrow> \<not> is_nil x \<and> x \<notin> dom (trees st)" using c assms(3) by auto
  note rep = store_replace [OF assms(1) r(2) ins(1) dom' X]
  have eq: "(\<lambda>j. if j \<in> {c} then Some r else trees st j) = (trees st)(c \<mapsto> r)" by auto
  have key: "trees st j = Some r \<Longrightarrow> forest_states st j = states ?n j"
    "trees st j = Some r \<Longrightarrow> forest_parents st j = parents ?n j" for j
    by (simp_all add: forest_states_def forest_parents_def)
  have "new_child K i c st =
      (Returned (), st\<lparr>trees := (trees st)(c \<mapsto> r), heap := (heap st)[r := ?n']\<rparr>)"
    using r assms(3)
    by (simp add: new_child_def get_tree_def insert_ref_def locked_def cmd_simps node_insert_wf)
  with rep ins key show ?thesis unfolding eq by (auto simp: fun_eq_iff)
qed

lemma update_tree_forest:
  assumes "store_wf st" and "i \<in> dom (forest_states st)"
  obtains st' where "sm_update K i s st = (Returned (), st')"
    and "update_in_tree K i s st = (Returned (forest_parents st i), st')"
    and "store_wf st'" and "forest_states st' = (forest_states st)(i \<mapsto> s)"
    and "forest_parents st' = forest_parents st"
proof -
  from assms obtain r where r: "trees st i = Some r" "r < length (heap st)" "tree_wf (heap st ! r)"
    "i \<in> dom (states (heap st ! r))" "\<not> is_nil i" by (elim store_wf_dom) blast+
  let ?n = "heap st ! r" and ?n' = "map_states (\<lambda>k v. if k = i then s else v) (heap st ! r)"
  let ?st' = "st\<lparr>heap := (heap st)[r := ?n']\<rparr>"
  have wf': "tree_wf ?n'" using r(3) by simp
  have st: "states ?n' = (states ?n)(i \<mapsto> s)" using r(4) by (rule map_states_at)
  have dom': "dom (states ?n') = {} \<union> dom (states ?n)" using st r(4) by auto
  note rep = store_replace [OF assms(1) r(2) wf' dom']
  have key: "trees st j = Some r \<Longrightarrow> forest_states st j = states ?n j"
    "trees st j = Some r \<Longrightarrow> forest_parents st j = parents ?n j" for j
    by (simp_all add: forest_states_def forest_parents_def)
  show thesis
  proof
    show "sm_update K i s st = (Returned (), ?st')"
      using r by (simp add: sm_update_def get_tree_def locked_def cmd_simps node_update_wf)
    show "update_in_tree K i s st = (Returned (forest_parents st i), ?st')"
      using r key(2) [of i]
      by (simp add: update_in_tree_def get_tree_def locked_def cmd_simps update_and_get_parent_id_wf)
    show "store_wf ?st'" using rep(1) by simp
    show "forest_states ?st' = (forest_states st)(i \<mapsto> s)"
      using rep(2) st key r(1) by (auto simp: fun_eq_iff)
    show "forest_parents ?st' = forest_parents st"
      using rep(3) key by (auto simp: fun_eq_iff)
  qed
qed

lemma locked_read:
  "r < length (heap st) \<Longrightarrow> locked r (\<lambda>n. (f n, n)) st = (f (heap st ! r), st)"
  by (simp add: locked_def)

lemma read_state_forest:
  assumes "store_wf st" and "\<not> is_nil i"
  shows "read_state i st = (Returned (forest_states st i), st)"
proof (cases "trees st i")
  case None
  with assms show ?thesis by (simp add: read_state_def get_tree_def cmd_simps forest_states_def)
next
  case (Some r)
  with assms store_wf_tree [OF assms(1) Some] show ?thesis
    by (simp add: read_state_def get_tree_def cmd_simps forest_states_def locked_read get_state_states)
qed

lemma read_parent_forest:
  assumes "store_wf st" and "\<not> is_nil i"
  shows "read_parent_id i st = (Returned (forest_parents st i), st)"
proof (cases "trees st i")
  case None
  with assms show ?thesis by (simp add: read_parent_id_def get_tree_def cmd_simps forest_parents_def)
next
  case (Some r)
  with assms store_wf_tree [OF assms(1) Some] show ?thesis
    by (simp add: read_parent_id_def get_tree_def cmd_simps forest_parents_def locked_read
        get_parent_id_parents)
qed

lemma has_tree_forest:
  assumes "store_wf st" and "\<not> is_nil i"
  shows "has_tree i st = (Returned (i \<in> dom (forest_states st)), st)"
  using assms by (auto simp: has_tree_def get_tree_def cmd_simps dom_forest)

lemma missing_tree_panics:
  assumes "store_wf st" and "\<not> is_nil i" and "i \<notin> dom (forest_states st)"
  shows "sm_update K i s st = (Panicked MissingIdForUpdate, st)"
    and "update_in_tree K i s st = (Panicked MissingSmTree, st)"
    and "new_child K i c st = (Panicked UnwrapNone, st)"
proof -
  have "trees st i = None" using assms by (simp add: dom_forest domIff)
  with assms(2) show "sm_update K i s st = (Panicked MissingIdForUpdate, st)"
    and "update_in_tree K i s st = (Panicked MissingSmTree, st)"
    and "new_child K i c st = (Panicked UnwrapNone, st)"
    by (simp_all add: sm_update_def update_in_tree_def new_child_def get_tree_def cmd_simps)
qed

lemma nil_id_panics:
  "is_nil i \<Longrightarrow> get_tree i st = (Panicked NilId, st)"
  "is_nil i \<Longrightarrow> insert_ref i r st = (Panicked NilId, st)"
  "is_nil i \<Longrightarrow> remove_ref i st = (Panicked NilId, st)"
  by (simp_all add: get_tree_def insert_ref_def remove_ref_def cmd_simps)

lemma store_example:
  obtains st where "create_tree node_kind_ops alice store_new = (Returned (), st)"
    and "store_wf st" and "forest_states st = [alice \<mapsto> Node_State Alice New]"
  using create_tree_forest [OF store_new_wf, of alice node_kind_ops] by (auto simp: is_nil_def)

section \<open>The store as a forest of maps\<close>

datatype ('k, 's) forest_op =
    Create "'k state_id"
  | Child "'k state_id" "'k state_id"
  | Set_state "'k state_id" 's

primrec store_op ::
  "('k, 's, 'z) kind_ops_scheme \<Rightarrow> ('k, 's) forest_op \<Rightarrow> (('k, 's) store, unit) cmd" where
  "store_op K (Create i) = create_tree K i"
| "store_op K (Child i c) = new_child K i c"
| "store_op K (Set_state i s) = sm_update K i s"

primrec forest_step ::
  "('k, 's, 'z) kind_ops_scheme \<Rightarrow> ('k, 's) forest_op \<Rightarrow> ('k, 's) tree_abs \<Rightarrow> ('k, 's) tree_abs" where
  "forest_step K (Create i) a = ((fst a)(i \<mapsto> new_state K (kind i)), snd a)"
| "forest_step K (Child i c) a = ((fst a)(c \<mapsto> new_state K (kind c)), (snd a)(c \<mapsto> i))"
| "forest_step K (Set_state i s) a = ((fst a)(i \<mapsto> s), snd a)"

primrec forest_ok :: "('k, 's) forest_op \<Rightarrow> ('k, 's) tree_abs \<Rightarrow> bool" where
  "forest_ok (Create i) a \<longleftrightarrow> \<not> is_nil i \<and> i \<notin> dom (fst a)"
| "forest_ok (Child i c) a \<longleftrightarrow> i \<in> dom (fst a) \<and> \<not> is_nil c \<and> c \<notin> dom (fst a)"
| "forest_ok (Set_state i s) a \<longleftrightarrow> i \<in> dom (fst a)"

interpretation store_refinement:
  cmd_refinement "store_op K" store_wf forest forest_ok "forest_step K" for K
proof
  fix st :: "('a, 'b) store" and x
  assume wf: "store_wf st" and ok: "forest_ok x (forest st)"
  show "\<exists>st'. store_op K x st = (Returned (), st') \<and> store_wf st' \<and>
      forest st' = forest_step K x (forest st)"
  proof (cases x)
    case (Create i)
    with ok create_tree_forest [OF wf, of i K] show ?thesis by (auto simp: forest_def)
  next
    case (Child i c)
    with ok new_child_forest [OF wf, of i c K] show ?thesis by (auto simp: forest_def)
  next
    case (Set_state i s)
    with ok have "i \<in> dom (forest_states st)" by (simp add: forest_def)
    from update_tree_forest [OF wf this, of K s] Set_state show ?thesis
      by (auto simp: forest_def)
  qed
qed

text \<open>
  C2. Starting from an empty store, every sequence of create_tree, new_child and update calls
  whose ids are fresh or known as required returns, and afterwards the state and the parent read
  through the store for any non-nil id are those of the abstract forest, so every id of a
  hierarchy leads to one shared tree.
\<close>

theorem store_script_refines:
  assumes "script_ok forest_ok (forest_step K) ops (Map.empty, Map.empty)"
  shows "\<exists>st. run_cmds (store_op K) ops store_new = (Returned (), st) \<and> store_wf st \<and>
    (\<forall>i. \<not> is_nil i \<longrightarrow>
      read_state i st = (Returned (fst (run_ops (forest_step K) ops (Map.empty, Map.empty)) i), st) \<and>
      read_parent_id i st = (Returned (snd (run_ops (forest_step K) ops (Map.empty, Map.empty)) i), st))"
proof -
  from store_refinement.run_refines [OF store_new_wf, of K ops] assms obtain st where
    st: "run_cmds (store_op K) ops store_new = (Returned (), st)" "store_wf st"
      "forest st = run_ops (forest_step K) ops (Map.empty, Map.empty)"
    by (auto simp: store_new_forest)
  from st(3) have "forest_states st = fst (run_ops (forest_step K) ops (Map.empty, Map.empty))"
    and "forest_parents st = snd (run_ops (forest_step K) ops (Map.empty, Map.empty))"
    by (metis forest_def fst_conv) (metis st(3) forest_def snd_conv)
  with st show ?thesis by (auto simp: read_state_forest read_parent_forest)
qed

theorem store_script_refines_witness:
  "\<exists>st. run_cmds (store_op node_kind_ops) [Create alice, Child alice bob, Set_state bob (Node_State Bob Failed)]
      store_new = (Returned (), st) \<and>
    read_state bob st = (Returned (Some (Node_State Bob Failed)), st) \<and>
    read_parent_id bob st = (Returned (Some alice), st)"
proof -
  have "\<not> is_nil bob" and "\<not> is_nil alice" by (simp_all add: is_nil_def)
  then show ?thesis
    using store_script_refines [of node_kind_ops
        "[Create alice, Child alice bob, Set_state bob (Node_State Bob Failed)]"]
    by auto
qed

text \<open>
  For an id in a well-formed store, update returns and keeps the store well formed; reading
  any non-nil id afterwards gives the new state for the updated id and the old state for every
  other, in the same tree or not, and the same parents.
\<close>

theorem update_isolated:
  assumes "store_wf st" and "i \<in> dom (forest_states st)"
    and "\<not> is_nil j"
  shows "\<exists>st'. sm_update K i s st = (Returned (), st') \<and> store_wf st' \<and>
    read_state j st' = (Returned (if j = i then Some s else forest_states st j), st') \<and>
    read_parent_id j st' = (Returned (forest_parents st j), st')"
proof -
  obtain st' where "sm_update K i s st = (Returned (), st')" "store_wf st'"
    "forest_states st' = (forest_states st)(i \<mapsto> s)" "forest_parents st' = forest_parents st"
    using update_tree_forest [OF assms(1,2), of K s] by blast
  with assms(3) show ?thesis by (auto simp: read_state_forest read_parent_forest)
qed

theorem update_isolated_witness:
  "\<exists>st st'. sm_update node_kind_ops alice (Node_State Alice Failed) st = (Returned (), st') \<and>
    read_state bob st' = (Returned None, st')"
proof -
  obtain st where st: "store_wf st" "forest_states st = [alice \<mapsto> Node_State Alice New]"
    using store_example by blast
  have "\<not> is_nil bob" by (simp add: is_nil_def)
  with st update_isolated [of st alice bob node_kind_ops "Node_State Alice Failed"]
  show ?thesis by fastforce
qed

end
