(* ===== verification/Rex_Context.thy ===== *)
theory Rex_Context
  imports Rex_Timeout Rex_Storage Rex_Notification
begin

text \<open>
  \<open>src/manager.rs\<close>, first half: what a state machine may do while it processes a signal. The
  queues and the store an \<open>SmContext\<close> shares are one \<open>world\<close>, so a context is the id of the
  state machine it was made for. \<open>now\<close> is the reading of the clock and \<open>user\<close> the state the
  user's own machines keep.
\<close>

section \<open>The world\<close>

record ('k, 's, 'i, 'm, 'u) world =
  signal_queue :: "('k, 'i) signal deque"
  notification_queue :: "'m deque"
  state_store :: "('k, 's) store"
  now :: instant
  user :: 'u

definition world_new :: "instant \<Rightarrow> 'u \<Rightarrow> ('k, 's, 'i, 'm, 'u) world" where
  "world_new t u = \<lparr>signal_queue = deque_new, notification_queue = deque_new,
     state_store = store_new, now = t, user = u\<rparr>"

definition on_store ::
  "(('k, 's) store, 'a) cmd \<Rightarrow> (('k, 's, 'i, 'm, 'u) world, 'a) cmd" where
  "on_store m = (\<lambda>w. case m (state_store w) of (x, st) \<Rightarrow> (x, w\<lparr>state_store := st\<rparr>))"

section \<open>\<open>SmContext\<close>\<close>

definition ctx_notify :: "'m \<Rightarrow> (('k, 's, 'i, 'm, 'u) world, unit) cmd" where
  "ctx_notify m = modifies (\<lambda>w. w\<lparr>notification_queue := nq_send m (notification_queue w)\<rparr>)"

definition signal_self :: "'k state_id \<Rightarrow> 'i \<Rightarrow> (('k, 's, 'i, 'm, 'u) world, unit) cmd" where
  "signal_self i x =
     modifies (\<lambda>w. w\<lparr>signal_queue := push_front \<lparr>sig_id = i, sig_input = x\<rparr> (signal_queue w)\<rparr>)"

text \<open>\<open>ctx.signal_queue.push_back(Signal { .. })\<close>, which machines call on the shared queue.\<close>

definition signal_to :: "'k state_id \<Rightarrow> 'i \<Rightarrow> (('k, 's, 'i, 'm, 'u) world, unit) cmd" where
  "signal_to i x =
     modifies (\<lambda>w. w\<lparr>signal_queue := push_back \<lparr>sig_id = i, sig_input = x\<rparr> (signal_queue w)\<rparr>)"

definition ctx_get_state :: "'k state_id \<Rightarrow> (('k, 's, 'i, 'm, 'u) world, 's option) cmd" where
  "ctx_get_state i = on_store (read_state i)"

definition ctx_get_tree :: "'k state_id \<Rightarrow> (('k, 's, 'i, 'm, 'u) world, tree_ref option) cmd" where
  "ctx_get_tree i = on_store (get_tree i)"

definition ctx_has_state :: "'k state_id \<Rightarrow> (('k, 's, 'i, 'm, 'u) world, bool) cmd" where
  "ctx_has_state i = on_store (has_tree i)"

definition ctx_get_parent_id ::
  "'k state_id \<Rightarrow> (('k, 's, 'i, 'm, 'u) world, 'k state_id option) cmd" where
  "ctx_get_parent_id i = on_store (read_parent_id i)"

definition ctx_has_parent :: "'k state_id \<Rightarrow> (('k, 's, 'i, 'm, 'u) world, bool) cmd" where
  "ctx_has_parent i = bindc (ctx_get_parent_id i) (\<lambda>p. ret (p \<noteq> None))"

section \<open>\<open>SignalExt\<close> and \<open>StateMachineExt\<close>\<close>

definition state_change ::
  "('k, 's, 'i, 'r, 'm, 't) rex \<Rightarrow> 'k state_id \<Rightarrow> 's \<Rightarrow> ('k, 'i) signal option" where
  "state_change R i s =
     map_option (\<lambda>x. \<lparr>sig_id = i, sig_input = x\<rparr>) (state_input R (kind i) s)"

definition signal_state_change ::
  "('k, 's, 'i, 'r, 'm, 't) rex \<Rightarrow> 'k state_id \<Rightarrow> 's \<Rightarrow> (('k, 's, 'i, 'm, 'u) world, unit) cmd" where
  "signal_state_change R i s = (case state_change R i s of
     Some sig \<Rightarrow> modifies (\<lambda>w. w\<lparr>signal_queue := push_back sig (signal_queue w)\<rparr>)
   | None \<Rightarrow> ret ())"

definition update_state_and_signal ::
  "('k, 's, 'i, 'r, 'm, 't) rex \<Rightarrow> 'k state_id \<Rightarrow> 's \<Rightarrow>
   (('k, 's, 'i, 'm, 'u) world, 'k state_id option) cmd" where
  "update_state_and_signal R i s =
     bindc (on_store (update_in_tree R i s)) (\<lambda>parent_id. case parent_id of
       Some p \<Rightarrow> seqc (signal_state_change R p s) (ret (Some p))
     | None \<Rightarrow> ret None)"

definition sm_fail ::
  "('k, 's, 'i, 'r, 'm, 't) rex \<Rightarrow> 'k state_id \<Rightarrow> (('k, 's, 'i, 'm, 'u) world, 'k state_id option) cmd" where
  "sm_fail R i = update_state_and_signal R i (failed_state R (kind i))"

definition sm_complete ::
  "('k, 's, 'i, 'r, 'm, 't) rex \<Rightarrow> 'k state_id \<Rightarrow> (('k, 's, 'i, 'm, 'u) world, 'k state_id option) cmd" where
  "sm_complete R i = update_state_and_signal R i (completed_state R (kind i))"

definition priority_notify :: "'m \<Rightarrow> (('k, 's, 'i, 'm, 'u) world, unit) cmd" where
  "priority_notify m =
     modifies (\<lambda>w. w\<lparr>notification_queue := nq_priority_send m (notification_queue w)\<rparr>)"

text \<open>\<open>notify(ctx, msg)\<close>, where \<open>into\<close> converts the message.\<close>

definition sm_notify :: "('a \<Rightarrow> 'm) \<Rightarrow> 'a \<Rightarrow> (('k, 's, 'i, 'm, 'u) world, unit) cmd" where
  "sm_notify into m = ctx_notify (into m)"

definition set_timeout ::
  "('k, 's, 'i, 'r, 'm, 't) rex \<Rightarrow> 'k state_id \<Rightarrow> duration \<Rightarrow> (('k, 's, 'i, 'm, 'u) world, unit) cmd" where
  "set_timeout R i d =
     bindc (gets now) (\<lambda>t.
     bindc (lift_outcome (request_set_timeout t i d)) (\<lambda>req.
       priority_notify (from_timeout R req)))"

definition return_in ::
  "('k, 's, 'i, 'r, 'm, 't) rex \<Rightarrow> 'k state_id \<Rightarrow> 'r \<Rightarrow> duration \<Rightarrow>
   (('k, 's, 'i, 'm, 'u) world, unit) cmd" where
  "return_in R i x d =
     bindc (gets now) (\<lambda>t.
     bindc (lift_outcome (request_retain t i x d)) (\<lambda>req.
       priority_notify (from_timeout R req)))"

definition cancel_timeout ::
  "('k, 's, 'i, 'r, 'm, 't) rex \<Rightarrow> 'k state_id \<Rightarrow> (('k, 's, 'i, 'm, 'u) world, unit) cmd" where
  "cancel_timeout R i = priority_notify (from_timeout R (request_cancel_timeout i))"

lemmas ctx_defs =
  ctx_notify_def signal_self_def signal_to_def ctx_get_state_def ctx_has_state_def
  ctx_get_parent_id_def ctx_has_parent_def state_change_def signal_state_change_def
  update_state_and_signal_def sm_fail_def sm_complete_def priority_notify_def sm_notify_def
  set_timeout_def return_in_def cancel_timeout_def

section \<open>Laws\<close>

lemma on_store_apply [cmd_simps]:
  "on_store m w = (case m (state_store w) of (x, st) \<Rightarrow> (x, w\<lparr>state_store := st\<rparr>))"
  by (simp add: on_store_def)

definition world_wf :: "('k, 's, 'i, 'm, 'u) world \<Rightarrow> bool" where
  "world_wf w \<longleftrightarrow> store_wf (state_store w)"

abbreviation world_states :: "('k, 's, 'i, 'm, 'u) world \<Rightarrow> 'k state_id \<Rightarrow> 's option" where
  "world_states w \<equiv> forest_states (state_store w)"

abbreviation world_parents :: "('k, 's, 'i, 'm, 'u) world \<Rightarrow> 'k state_id \<Rightarrow> 'k state_id option" where
  "world_parents w \<equiv> forest_parents (state_store w)"

lemma world_new_wf [simp]: "world_wf (world_new t u)"
  by (simp add: world_wf_def world_new_def store_new_wf)

lemma world_new_sel [simp]:
  "signal_queue (world_new t u) = deque_new" "notification_queue (world_new t u) = deque_new"
  "state_store (world_new t u) = store_new" "now (world_new t u) = t" "user (world_new t u) = u"
  by (simp_all add: world_new_def)

lemma ctx_reads:
  assumes "world_wf w" and "\<not> is_nil i"
  shows "ctx_get_state i w = (Returned (world_states w i), w)"
    and "ctx_has_state i w = (Returned (i \<in> dom (world_states w)), w)"
    and "ctx_get_parent_id i w = (Returned (world_parents w i), w)"
    and "ctx_has_parent i w = (Returned (world_parents w i \<noteq> None), w)"
  using assms
  by (simp_all add: world_wf_def ctx_get_state_def ctx_has_state_def ctx_get_parent_id_def
      ctx_has_parent_def cmd_simps read_state_forest has_tree_forest read_parent_forest)

lemma world_not_nil: "world_wf w \<Longrightarrow> i \<in> dom (world_states w) \<Longrightarrow> \<not> is_nil i"
  unfolding world_wf_def by (elim store_wf_dom)

definition parent_signals ::
  "('k, 's, 'i, 'r, 'm, 't) rex \<Rightarrow> 'k state_id option \<Rightarrow> 's \<Rightarrow> ('k, 'i) signal list" where
  "parent_signals R p s = (case p of
     None \<Rightarrow> []
   | Some j \<Rightarrow> (case state_input R (kind j) s of None \<Rightarrow> [] | Some x \<Rightarrow> [\<lparr>sig_id = j, sig_input = x\<rparr>]))"

lemma update_state_and_signal_effect:
  assumes "world_wf w" and "i \<in> dom (world_states w)"
  shows "\<exists>w'. update_state_and_signal R i s w = (Returned (world_parents w i), w') \<and> world_wf w' \<and>
    world_states w' = (world_states w)(i \<mapsto> s) \<and> world_parents w' = world_parents w \<and>
    signal_queue w' = fold push_back (parent_signals R (world_parents w i) s) (signal_queue w) \<and>
    notification_queue w' = notification_queue w \<and> now w' = now w \<and> user w' = user w"
proof -
  obtain st' where st': "update_in_tree R i s (state_store w) = (Returned (world_parents w i), st')"
    "store_wf st'" "forest_states st' = (world_states w)(i \<mapsto> s)"
    "forest_parents st' = world_parents w"
    using update_tree_forest [of "state_store w" i R s] assms unfolding world_wf_def by blast
  show ?thesis
    using st'
    by (cases "world_parents w i")
      (auto simp: update_state_and_signal_def signal_state_change_def state_change_def
        parent_signals_def world_wf_def cmd_simps split: option.splits)
qed

lemma game_world_example:
  obtains w :: "(game, game_state, game_input, game_msg, unit) world"
  where "world_wf w"
    and "world_states w = [menu_1 \<mapsto> State_Menu Menu_Ready, ping_2 \<mapsto> State_Ping Ping_Ready]"
    and "world_parents w = [ping_2 \<mapsto> menu_1]" and "signal_queue w = deque_new"
proof -
  from create_tree_forest [OF store_new_wf, of menu_1 game_rex] obtain st where
    st: "store_wf st" "forest_states st = [menu_1 \<mapsto> State_Menu Menu_Ready]"
      "forest_parents st = Map.empty"
    by (auto simp: is_nil_def)
  with new_child_forest [of st menu_1 ping_2 game_rex] obtain st' where
    st': "store_wf st'"
      "forest_states st' = [menu_1 \<mapsto> State_Menu Menu_Ready, ping_2 \<mapsto> State_Ping Ping_Ready]"
      "forest_parents st' = [ping_2 \<mapsto> menu_1]"
    by (auto simp: is_nil_def)
  then show thesis
    by (intro that [of "(world_new 0 ())\<lparr>state_store := st'\<rparr>"])
      (simp_all add: world_wf_def world_new_def)
qed

section \<open>Properties\<close>

text \<open>
  C5. For an id in the store, update_state_and_signal returns the id's parent, changes the state
  of that id and of no other, leaves every parent as it was, and pushes at the back of the
  signal queue exactly one signal for the parent when there is a parent and state_input of the
  parent's kind maps the new state to an input, and nothing otherwise.
\<close>

theorem update_state_and_signal_spec:
  assumes "world_wf w" and "i \<in> dom (world_states w)" and "\<not> is_nil j"
  shows "\<exists>w'. update_state_and_signal R i s w = (Returned (world_parents w i), w') \<and> world_wf w' \<and>
    ctx_get_state j w' = (Returned (if j = i then Some s else world_states w j), w') \<and>
    ctx_get_parent_id j w' = (Returned (world_parents w j), w') \<and>
    front_values (signal_queue w') = front_values (signal_queue w) \<and>
    back_values (signal_queue w') = back_values (signal_queue w) @
      (case world_parents w i of None \<Rightarrow> []
       | Some p \<Rightarrow> (case state_input R (kind p) s of None \<Rightarrow> []
           | Some x \<Rightarrow> [\<lparr>sig_id = p, sig_input = x\<rparr>])) \<and>
    notification_queue w' = notification_queue w"
proof -
  from update_state_and_signal_effect [OF assms(1,2), of R s] obtain w' where
    w': "update_state_and_signal R i s w = (Returned (world_parents w i), w')" "world_wf w'"
      "world_states w' = (world_states w)(i \<mapsto> s)" "world_parents w' = world_parents w"
      "signal_queue w' = fold push_back (parent_signals R (world_parents w i) s) (signal_queue w)"
      "notification_queue w' = notification_queue w" by blast
  with ctx_reads [OF w'(2) assms(3)] show ?thesis
    by (simp add: deque_fifo.fold_push_lo parent_signals_def)
qed

theorem update_state_and_signal_spec_witness:
  "\<exists>(w :: (game, game_state, game_input, game_msg, unit) world) w'.
    update_state_and_signal game_rex ping_2 (State_Ping Ping_Failed) w = (Returned (Some menu_1), w') \<and>
    ctx_get_state ping_2 w' = (Returned (Some (State_Ping Ping_Failed)), w') \<and>
    back_values (signal_queue w') = [\<lparr>sig_id = menu_1, sig_input = Input_Menu FailedPing\<rparr>]"
proof -
  obtain w :: "(game, game_state, game_input, game_msg, unit) world"
    where w: "world_wf w"
    "world_states w = [menu_1 \<mapsto> State_Menu Menu_Ready, ping_2 \<mapsto> State_Ping Ping_Ready]"
    "world_parents w = [ping_2 \<mapsto> menu_1]" "signal_queue w = deque_new"
    by (rule game_world_example)
  then have "ping_2 \<in> dom (world_states w)" and "\<not> is_nil ping_2" by (simp_all add: is_nil_def)
  from update_state_and_signal_spec [OF w(1) this, of game_rex "State_Ping Ping_Failed"] w
  show ?thesis by (auto simp: game_state_input_def)
qed

text \<open>
  For a lawful kind, fail and complete on an id in the store return its parent and leave it
  in a state that is_terminal accepts and that belongs to the id's kind.
\<close>

theorem fail_complete_terminal:
  assumes "lawful_kind R" and "world_wf w" and "i \<in> dom (world_states w)"
  shows "(\<exists>w' s. sm_fail R i w = (Returned (world_parents w i), w') \<and>
      ctx_get_state i w' = (Returned (Some s), w') \<and> is_terminal R s \<and> kind_of R s = kind i) \<and>
    (\<exists>w' s. sm_complete R i w = (Returned (world_parents w i), w') \<and>
      ctx_get_state i w' = (Returned (Some s), w') \<and> is_terminal R s \<and> kind_of R s = kind i)"
proof -
  have nn: "\<not> is_nil i" using assms(2,3) by (rule world_not_nil)
  have "\<exists>w'. update_state_and_signal R i s w = (Returned (world_parents w i), w') \<and>
      ctx_get_state i w' = (Returned (Some s), w')" for s
    using update_state_and_signal_effect [OF assms(2,3), of R s] ctx_reads(1) [OF _ nn] by fastforce
  then show ?thesis
    unfolding sm_fail_def sm_complete_def
    using lawful_kind.failed_terminal [OF assms(1)] lawful_kind.completed_terminal [OF assms(1)]
      lawful_kind.kind_of_failed [OF assms(1)] lawful_kind.kind_of_completed [OF assms(1)]
    by metis
qed

theorem fail_complete_terminal_witness:
  "\<exists>(w :: (game, game_state, game_input, game_msg, unit) world) w' s.
    sm_fail game_rex ping_2 w = (Returned (Some menu_1), w') \<and>
    ctx_get_state ping_2 w' = (Returned (Some s), w') \<and> is_terminal game_rex s"
proof -
  obtain w :: "(game, game_state, game_input, game_msg, unit) world"
    where w: "world_wf w"
    "world_states w = [menu_1 \<mapsto> State_Menu Menu_Ready, ping_2 \<mapsto> State_Ping Ping_Ready]"
    "world_parents w = [ping_2 \<mapsto> menu_1]"
    using game_world_example by metis
  then have "ping_2 \<in> dom (world_states w)" by simp
  from fail_complete_terminal [OF game_kind.lawful_kind_axioms w(1) this] w(3)
  show ?thesis by fastforce
qed

text \<open>
  For an id without a tree, update_state_and_signal, update and new_child panic, each with
  its own message, and leave the world unchanged, while get_state simply returns None.
\<close>

theorem update_without_tree_panics:
  assumes "world_wf w" and "\<not> is_nil i" and "i \<notin> dom (world_states w)"
  shows "update_state_and_signal R i s w = (Panicked MissingSmTree, w) \<and>
    on_store (sm_update R i s) w = (Panicked MissingIdForUpdate, w) \<and>
    on_store (new_child R i c) w = (Panicked UnwrapNone, w) \<and>
    ctx_get_state i w = (Returned None, w)"
  using assms missing_tree_panics [of "state_store w" i R]
  by (simp add: world_wf_def update_state_and_signal_def cmd_simps ctx_get_state_def
      read_state_forest domIff)

theorem update_without_tree_panics_witness:
  "fst (update_state_and_signal game_rex ping_2 (State_Ping Ping_Failed)
    (world_new 0 () :: (game, game_state, game_input, game_msg, unit) world)) = Panicked MissingSmTree"
  using update_without_tree_panics [of "world_new 0 () :: (game, game_state, game_input, game_msg, unit) world"
      ping_2 game_rex "State_Ping Ping_Failed" ping_2]
  by (simp add: is_nil_def)

text \<open>
  cancel_timeout, set_timeout and return_in each append to the priority lane of the
  notification queue the one message made from the request with the machine's id and the instant
  now + duration; when that instant is out of range, set_timeout and return_in panic and leave
  the world unchanged.
\<close>

theorem timeout_notifications:
  "front_values (notification_queue (snd (cancel_timeout R i w))) =
     front_values (notification_queue w) @ [from_timeout R \<lparr>req_id = i, req_op = Cancel\<rparr>] \<and>
   (case set_timeout R i d w of
      (Returned _, w') \<Rightarrow> front_values (notification_queue w') = front_values (notification_queue w) @
        [from_timeout R \<lparr>req_id = i, req_op = Set (now w + duration_nanos d)\<rparr>]
    | (Panicked p, w') \<Rightarrow> p = InstantOverflow \<and> w' = w \<and> instant_limit \<le> now w + duration_nanos d) \<and>
   (case return_in R i x d w of
      (Returned _, w') \<Rightarrow> front_values (notification_queue w') = front_values (notification_queue w) @
        [from_timeout R \<lparr>req_id = i, req_op = Retain x (now w + duration_nanos d)\<rparr>]
    | (Panicked p, w') \<Rightarrow> p = InstantOverflow \<and> w' = w \<and> instant_limit \<le> now w + duration_nanos d)"
  by (simp add: cancel_timeout_def set_timeout_def return_in_def cmd_simps priority_notify_def
      nq_priority_send_def request_set_timeout_def request_retain_def request_cancel_timeout_def
      from_duration_def instant_add_def not_less)

end
