(* ===== verification/Rex_Manager.thy ===== *)
theory Rex_Manager
  imports Rex_Context
begin

text \<open>
  \<open>src/manager.rs\<close>, second half: the \<open>StateMachineManager\<close>, its table of machines and the
  task that takes signals off the queue and hands each to the machine of its kind. A machine is
  a record of the trait's two required methods; its \<open>process\<close> is a command on the world.
\<close>

section \<open>Machines and the manager's table\<close>

record ('k, 'i, 'w) machine =
  sm_process :: "'k state_id \<Rightarrow> 'i \<Rightarrow> ('w, unit) cmd"
  sm_kind :: 'k

type_synonym ('k, 'i, 'w) machines = "'k \<rightharpoonup> ('k, 'i, 'w) machine"

text \<open>\<open>collect\<close> into a \<open>HashMap\<close>, then the assertion that no kind was given twice.\<close>

definition insert_machine ::
  "('k, 'i, 'w) machine \<Rightarrow> ('k, 'i, 'w) machines \<Rightarrow> ('k, 'i, 'w) machines" where
  "insert_machine sm m = m(sm_kind sm \<mapsto> sm)"

definition collect_machines :: "('k, 'i, 'w) machine list \<Rightarrow> ('k, 'i, 'w) machines" where
  "collect_machines sms = fold insert_machine sms Map.empty"

definition manager_new :: "('k, 'i, 'w) machine list \<Rightarrow> ('k, 'i, 'w) machines outcome" where
  "manager_new sms =
     (let sm_count = length sms; kinds = length (remdups (map sm_kind sms)) in
      if sm_count = kinds then Returned (collect_machines sms)
      else Panicked (DuplicateKinds sm_count kinds))"

section \<open>The task\<close>

text \<open>A signal of a kind without a machine is logged and dropped.\<close>

definition dispatch :: "('k, 'i, 'w) machines \<Rightarrow> ('k, 'i) signal \<Rightarrow> ('w, unit) cmd" where
  "dispatch sms sig = (case sms (kind (sig_id sig)) of
     Some sm \<Rightarrow> sm_process sm (sig_id sig) (sig_input sig)
   | None \<Rightarrow> ret ())"

datatype task_status = Handled | Waiting | Ended | Died panic

type_synonym ('k, 's, 'i, 'm, 'u) task =
  "task_status \<times> stream_receiver \<times> ('k, 's, 'i, 'm, 'u) world"

text \<open>
  One turn of the \<open>while let\<close> loop: a signal is taken and processed, or the task waits. A
  panic in \<open>process\<close> ends the task.
\<close>

definition manager_step ::
  "('k, 'i, ('k, 's, 'i, 'm, 'u) world) machines \<Rightarrow> waker \<Rightarrow>
   stream_receiver \<Rightarrow> ('k, 's, 'i, 'm, 'u) world \<Rightarrow> ('k, 's, 'i, 'm, 'u) task" where
  "manager_step sms wk rx w = (case poll_next wk rx (signal_queue w) of
     (Ready (Some sig), rx', q) \<Rightarrow> (case dispatch sms sig (w\<lparr>signal_queue := q\<rparr>) of
         (Returned _, w') \<Rightarrow> (Handled, rx', w')
       | (Panicked p, w') \<Rightarrow> (Died p, rx', w'))
   | (Ready None, rx', q) \<Rightarrow> (Ended, rx', w\<lparr>signal_queue := q\<rparr>)
   | (Pending, rx', q) \<Rightarrow> (Waiting, rx', w\<lparr>signal_queue := q\<rparr>))"

text \<open>
  A run takes one turn for each reading of the clock it is given; \<open>Handled\<close> means the loop
  would go on.
\<close>

fun manager_run ::
  "('k, 'i, ('k, 's, 'i, 'm, 'u) world) machines \<Rightarrow> waker \<Rightarrow> instant list \<Rightarrow>
   stream_receiver \<Rightarrow> ('k, 's, 'i, 'm, 'u) world \<Rightarrow> ('k, 's, 'i, 'm, 'u) task" where
  "manager_run sms wk [] rx w = (Handled, rx, w)"
| "manager_run sms wk (t # ts) rx w = (case manager_step sms wk rx (w\<lparr>now := t\<rparr>) of
     (Handled, rx', w') \<Rightarrow> manager_run sms wk ts rx' w'
   | r \<Rightarrow> r)"

section \<open>Laws\<close>

lemma insert_machine_apply: "insert_machine s m k = (if k = sm_kind s then Some s else m k)"
  by (simp add: insert_machine_def)

lemma collect_machines_lookup:
  assumes "distinct (map sm_kind sms)"
  shows "collect_machines sms k = Some sm \<longleftrightarrow> sm \<in> set sms \<and> sm_kind sm = k"
proof -
  have other: "fold insert_machine sms m k = m k"
    if "k \<notin> sm_kind ` set sms" for sms :: "('a, 'b, 'c) machine list" and m
    using that by (induction sms arbitrary: m) (auto simp: insert_machine_apply)
  have "fold insert_machine sms m k = Some sm \<longleftrightarrow>
      (if k \<in> sm_kind ` set sms then sm \<in> set sms \<and> sm_kind sm = k else m k = Some sm)" for m
    using assms
  proof (induction sms arbitrary: m)
    case (Cons s sms)
    have fresh: "sm_kind s \<notin> sm_kind ` set sms" using Cons.prems by simp
    show ?case
    proof (cases "k \<in> sm_kind ` set sms")
      case True
      with fresh have "k \<noteq> sm_kind s" by metis
      with True Cons show ?thesis by auto
    next
      case False
      then have "sm \<notin> set sms \<or> sm_kind sm \<noteq> k" by auto
      with False other [OF False, of "insert_machine s m"] insert_machine_apply [of s m k]
      show ?thesis by auto
    qed
  qed simp
  then show ?thesis unfolding collect_machines_def by auto
qed

lemma manager_new_eq:
  "manager_new sms =
    (if distinct (map sm_kind sms) then Returned (collect_machines sms)
     else Panicked (DuplicateKinds (length sms) (card (sm_kind ` set sms))))"
proof -
  have "length (remdups (map sm_kind sms)) = length sms \<longleftrightarrow> distinct (map sm_kind sms)"
    by (metis distinct_remdups_id length_map length_remdups_eq remdups_id_iff_distinct)
  moreover have "length (remdups (map sm_kind sms)) = card (sm_kind ` set sms)"
    by (simp add: length_remdups_card_conv)
  ultimately show ?thesis by (auto simp: manager_new_def Let_def)
qed

lemma manager_step_signal:
  assumes "queue_values (signal_queue w) = sig # sigs"
  obtains q where "poll_next wk rx (signal_queue w) = (Ready (Some sig), rx\<lparr>rx_awake := None\<rparr>, q)"
    and "queue_values q = sigs"
    and "front_values q = tl (front_values (signal_queue w))"
    and "manager_step sms wk rx w = (case dispatch sms sig (w\<lparr>signal_queue := q\<rparr>) of
        (Returned _, w') \<Rightarrow> (Handled, rx\<lparr>rx_awake := None\<rparr>, w')
      | (Panicked p, w') \<Rightarrow> (Died p, rx\<lparr>rx_awake := None\<rparr>, w'))"
proof (cases rule: poll_next_cases [where q = "signal_queue w" and w = wk and rx = rx])
  case (popped v q)
  have v: "queue_values (signal_queue w) = v # queue_values q"
    using popped(2) by (rule poll_next_Ready)
  have "q = snd (pop_front (signal_queue w))" using popped(1) by simp
  then have f: "front_values q = tl (front_values (signal_queue w))"
    by (simp add: pop_front_lanes)
  from v assms have "v = sig" "queue_values q = sigs" by simp_all
  with popped f show thesis by (intro that [of q]) (simp_all add: manager_step_def)
next
  case empty
  with assms show thesis by simp
qed

lemma manager_step_empty:
  "queue_values (signal_queue w) = [] \<Longrightarrow> fst (manager_step sms wk rx w) = Waiting"
  by (cases rule: poll_next_cases [where q = "signal_queue w" and w = wk and rx = rx])
    (auto simp: manager_step_def dest: poll_next_Ready(1))

text \<open>
  The contract a machine has with the manager: whatever signal it processes and whether or not
  it panics, it keeps an invariant of the world that does not speak of the signal queue or
  the clock, and its panics are among those of \<open>P\<close>.
\<close>

locale keeping_machines =
  fixes sms :: "('k, 'i, ('k, 's, 'i, 'm, 'u) world) machines"
    and I :: "('k, 's, 'i, 'm, 'u) world \<Rightarrow> bool"
    and P :: "panic set"
  assumes queue_free: "I w \<Longrightarrow> I (w\<lparr>signal_queue := q\<rparr>)"
    and clock_free: "I w \<Longrightarrow> I (w\<lparr>now := t\<rparr>)"
    and process_keeps: "sms (kind i) = Some sm \<Longrightarrow> keeps I P (sm_process sm i x)"
begin

lemma dispatch_keeps: "keeps I P (dispatch sms sig)"
  by (auto simp: dispatch_def process_keeps keeps_ret split: option.splits)

lemma step_keeps:
  assumes "I w" and "manager_step sms wk rx w = (st, rx', w')"
  shows "I w' \<and> (\<forall>p. st = Died p \<longrightarrow> p \<in> P)"
proof (cases rule: poll_next_cases [where q = "signal_queue w" and w = wk and rx = rx])
  case (popped v q)
  obtain r w1 where d: "dispatch sms v (w\<lparr>signal_queue := q\<rparr>) = (r, w1)" by fastforce
  with keepsD [OF dispatch_keeps queue_free [OF assms(1)] d] popped assms(2) show ?thesis
    by (cases r) (auto simp: manager_step_def)
next
  case empty
  with assms queue_free show ?thesis by (auto simp: manager_step_def)
qed

lemma run_keeps:
  assumes "I w" and "manager_run sms wk ts rx w = (st, rx', w')"
  shows "I w' \<and> (\<forall>p. st = Died p \<longrightarrow> p \<in> P)"
  using assms
proof (induction ts arbitrary: rx w)
  case (Cons t ts)
  obtain st1 rx1 w1 where s: "manager_step sms wk rx (w\<lparr>now := t\<rparr>) = (st1, rx1, w1)"
    by (metis prod_cases3)
  from step_keeps [OF clock_free [OF Cons.prems(1)] s] Cons.IH [of w1 rx1] Cons.prems(2) s
  show ?case by (cases st1) auto
qed simp

end

section \<open>Properties\<close>

text \<open>
  StateMachineManager::new returns exactly when the kinds of the machines are distinct, in
  which case the table gives for each kind the one machine of that kind; otherwise it panics
  reporting the number of machines and of kinds.
\<close>

theorem manager_new_spec:
  "manager_new sms =
    (if distinct (map sm_kind sms) then Returned (collect_machines sms)
     else Panicked (DuplicateKinds (length sms) (card (sm_kind ` set sms)))) \<and>
   (distinct (map sm_kind sms) \<longrightarrow>
     (\<forall>k sm. collect_machines sms k = Some sm \<longleftrightarrow> sm \<in> set sms \<and> sm_kind sm = k))"
  by (auto simp: manager_new_eq collect_machines_lookup)

theorem manager_new_spec_witness:
  "collect_machines [\<lparr>sm_process = \<lambda>_ _. ret (), sm_kind = Ping\<rparr>,
      \<lparr>sm_process = \<lambda>_ _. panicking Unreachable, sm_kind = Menu\<rparr>] Menu =
    Some (\<lparr>sm_process = \<lambda>_ _. panicking Unreachable, sm_kind = Menu\<rparr> :: (game, game_input, nat) machine)"
proof -
  let ?sms = "[\<lparr>sm_process = \<lambda>_ _. ret (), sm_kind = Ping\<rparr>,
      \<lparr>sm_process = \<lambda>_ _. panicking Unreachable, sm_kind = Menu\<rparr>] :: (game, game_input, nat) machine list"
  have "distinct (map sm_kind ?sms)" by simp
  with manager_new_spec [of ?sms] show ?thesis by simp
qed

text \<open>
  A signal whose kind has no machine is taken off the queue and dropped; nothing else
  changes and the task goes on.
\<close>

theorem unknown_kind_dropped:
  assumes "queue_values (signal_queue w) = sig # sigs" and "sms (kind (sig_id sig)) = None"
  shows "\<exists>q. manager_step sms wk rx w = (Handled, rx\<lparr>rx_awake := None\<rparr>, w\<lparr>signal_queue := q\<rparr>) \<and>
    queue_values q = sigs"
  by (rule manager_step_signal [OF assms(1), where wk = wk and rx = rx and sms = sms])
    (use assms(2) in \<open>auto simp: dispatch_def cmd_simps\<close>)

theorem unknown_kind_dropped_witness:
  "fst (manager_step Map.empty 7 stream
    (snd (signal_to ping_2 (Input_Menu PingPongComplete) (world_new 0 () ::
      (game, game_state, game_input, game_msg, unit) world)))) = Handled"
proof -
  let ?w = "snd (signal_to ping_2 (Input_Menu PingPongComplete) (world_new 0 () ::
      (game, game_state, game_input, game_msg, unit) world))"
  have "queue_values (signal_queue ?w) = [\<lparr>sig_id = ping_2, sig_input = Input_Menu PingPongComplete\<rparr>]"
    by (simp add: signal_to_def cmd_simps queue_values_def world_new_def)
  from unknown_kind_dropped [OF this, of Map.empty 7 stream] show ?thesis by auto
qed

text \<open>
  When the first signal's machine panics, the run of the manager's task ends with that
  panic whatever the number of turns left, and the signals behind it stay in the queue.
\<close>

theorem panic_ends_manager:
  assumes "queue_values (signal_queue w) = sig # sigs"
    and "sms (kind (sig_id sig)) = Some sm"
    and "\<And>q. sm_process sm (sig_id sig) (sig_input sig) (w\<lparr>now := t, signal_queue := q\<rparr>) =
      (Panicked p, w\<lparr>now := t, signal_queue := q\<rparr>)"
  shows "\<exists>q. manager_run sms wk (t # ts) rx w =
      (Died p, rx\<lparr>rx_awake := None\<rparr>, w\<lparr>now := t, signal_queue := q\<rparr>) \<and>
    queue_values q = sigs"
proof -
  have "queue_values (signal_queue (w\<lparr>now := t\<rparr>)) = sig # sigs" using assms(1) by simp
  then show ?thesis
    by (rule manager_step_signal [where wk = wk and rx = rx and sms = sms])
      (use assms(2,3) in \<open>auto simp: dispatch_def\<close>)
qed

theorem panic_ends_manager_witness:
  "fst (manager_run [Ping \<mapsto> \<lparr>sm_process = \<lambda>_ _. panicking UnwrapNone, sm_kind = Ping\<rparr>] 7 [5, 6, 7] stream
    (snd (signal_to ping_2 (Input_Menu PingPongComplete) (world_new 0 () ::
      (game, game_state, game_input, game_msg, unit) world)))) = Died UnwrapNone"
proof -
  let ?w = "snd (signal_to ping_2 (Input_Menu PingPongComplete) (world_new 0 () ::
      (game, game_state, game_input, game_msg, unit) world))"
  have "queue_values (signal_queue ?w) = [\<lparr>sig_id = ping_2, sig_input = Input_Menu PingPongComplete\<rparr>]"
    by (simp add: signal_to_def cmd_simps queue_values_def world_new_def)
  from panic_ends_manager [OF this, of "[Ping \<mapsto> \<lparr>sm_process = \<lambda>_ _. panicking UnwrapNone, sm_kind = Ping\<rparr>]"
      "\<lparr>sm_process = \<lambda>_ _. panicking UnwrapNone, sm_kind = Ping\<rparr>" 5 UnwrapNone 7 "[6, 7]" stream]
  show ?thesis by (auto simp: cmd_simps simp del: manager_run.simps)
qed

text \<open>
  With no other priority signal waiting, the next turn of the manager after signal_self
  processes exactly that signal, with the machine of the id's kind, and leaves the back lane as
  it was.
\<close>

theorem signal_self_first:
  assumes "front_values (signal_queue w) = []"
    and "sms (kind i) = Some sm"
  shows "\<exists>q. manager_step sms wk rx (snd (signal_self i x w)) =
      (case sm_process sm i x (w\<lparr>signal_queue := q\<rparr>) of
        (Returned _, w') \<Rightarrow> (Handled, rx\<lparr>rx_awake := None\<rparr>, w')
      | (Panicked p, w') \<Rightarrow> (Died p, rx\<lparr>rx_awake := None\<rparr>, w')) \<and>
    front_values q = [] \<and> back_values q = back_values (signal_queue w)"
proof -
  let ?w = "snd (signal_self i x w)"
  have q: "queue_values (signal_queue ?w) = \<lparr>sig_id = i, sig_input = x\<rparr> # back_values (signal_queue w)"
    and f: "front_values (signal_queue ?w) = [\<lparr>sig_id = i, sig_input = x\<rparr>]"
    and w: "?w\<lparr>signal_queue := r\<rparr> = w\<lparr>signal_queue := r\<rparr>" for r
    using assms(1) by (simp_all add: signal_self_def cmd_simps queue_values_def)
  show ?thesis
    by (rule manager_step_signal [OF q, where wk = wk and rx = rx and sms = sms])
      (use assms(2) f w in \<open>auto simp: dispatch_def queue_values_def\<close>)
qed

theorem signal_self_first_witness:
  "fst (manager_step [Ping \<mapsto> \<lparr>sm_process = \<lambda>_ _. ret (), sm_kind = Ping\<rparr>] 7 stream
    (snd (signal_self ping_2 (Input_Menu PingPongComplete) (world_new 0 () ::
      (game, game_state, game_input, game_msg, unit) world)))) = Handled"
  using signal_self_first [of "world_new 0 () :: (game, game_state, game_input, game_msg, unit) world"
      "[Ping \<mapsto> \<lparr>sm_process = \<lambda>_ _. ret (), sm_kind = Ping\<rparr>]" ping_2
      "\<lparr>sm_process = \<lambda>_ _. ret (), sm_kind = Ping\<rparr>" 7 stream "Input_Menu PingPongComplete"]
  by (auto simp: cmd_simps)

end
