(* ===== verification/Rex_Builder.thy ===== *)
theory Rex_Builder
  imports Rex_Ingress Rex_Manager
begin

text \<open>
  \<open>src/builder.rs\<close>: how a system is put together. The signal and the notification queue are
  those of the world; what the builder holds besides is a record. \<open>build\<close> gives each processor
  its channel, in the order of registration, and panics where a constructor panics.
\<close>

section \<open>Processors\<close>

record 't timeout_manager =
  tm_tick_rate :: duration
  tm_topic :: 't

definition default_tick_rate :: duration where
  "default_tick_rate = duration_from_millis 5"

definition timeout_manager_new :: "'t \<Rightarrow> 't timeout_manager" where
  "timeout_manager_new t = \<lparr>tm_tick_rate = default_tick_rate, tm_topic = t\<rparr>"

definition tm_with_tick_rate :: "duration \<Rightarrow> 't timeout_manager \<Rightarrow> 't timeout_manager" where
  "tm_with_tick_rate d tm = tm\<lparr>tm_tick_rate := d\<rparr>"

text \<open>
  A boxed \<open>NotificationProcessor\<close>: one of the crate's two, or a user's, of which the crate sees
  how its \<open>init\<close> ends, which may be a panic, and its topics.
\<close>

datatype ('k, 'p, 't) boxed_np =
    Timeout_np "'t timeout_manager"
  | Ingress_np "('k, 'p, 't) ingress_adapter"
  | Custom_np "unit outcome" "'t list"

text \<open>
  \<open>init\<close> and \<open>get_topics\<close> on the channel \<open>c\<close>. The timeout manager makes an interval of its
  tick rate, which tokio documents to panic on a period of zero.
\<close>

definition np_init :: "channel \<Rightarrow> ('k, 'p, 't) boxed_np \<Rightarrow> 't processor outcome" where
  "np_init c np = (case np of
     Timeout_np tm \<Rightarrow>
       if duration_nanos (tm_tick_rate tm) = 0 then Panicked ZeroInterval
       else Returned \<lparr>np_channel = c, np_topics = [tm_topic tm]\<rparr>
   | Ingress_np ad \<Rightarrow> fst (adapter_init c ad)
   | Custom_np x ts \<Rightarrow> map_outcome_to (\<lambda>_. Returned \<lparr>np_channel = c, np_topics = ts\<rparr>) x)"

fun np_init_all :: "channel \<Rightarrow> ('k, 'p, 't) boxed_np list \<Rightarrow> 't processor list outcome" where
  "np_init_all c [] = Returned []"
| "np_init_all c (np # nps) =
     map_outcome_to (\<lambda>p. map_outcome_to (\<lambda>ps. Returned (p # ps)) (np_init_all (Suc c) nps)) (np_init c np)"

section \<open>The builder\<close>

record ('k, 'i, 'w, 'p, 't) rex_builder =
  state_machines :: "('k, 'i, 'w) machine list"
  notification_processors :: "('k, 'p, 't) boxed_np list"
  timeout_topic :: "'t option"
  tick_rate :: "duration option"
  builder_outbound :: "channel option"
  ingress_channel :: "channel option"

definition builder_default :: "('k, 'i, 'w, 'p, 't) rex_builder" where
  "builder_default = \<lparr>state_machines = [], notification_processors = [], timeout_topic = None,
     tick_rate = None, builder_outbound = None, ingress_channel = None\<rparr>"

definition builder_new :: "('k, 'i, 'w, 'p, 't) rex_builder" where
  "builder_new = builder_default"

definition with_sm ::
  "('k, 'i, 'w) machine \<Rightarrow> ('k, 'i, 'w, 'p, 't) rex_builder \<Rightarrow> ('k, 'i, 'w, 'p, 't) rex_builder" where
  "with_sm sm b = b\<lparr>state_machines := state_machines b @ [sm]\<rparr>"

text \<open>\<open>with_np\<close>, \<open>push_np\<close> and \<open>with_boxed_np\<close>.\<close>

definition with_np ::
  "('k, 'p, 't) boxed_np \<Rightarrow> ('k, 'i, 'w, 'p, 't) rex_builder \<Rightarrow> ('k, 'i, 'w, 'p, 't) rex_builder" where
  "with_np np b = b\<lparr>notification_processors := notification_processors b @ [np]\<rparr>"

text \<open>
  What a builder shows to the closure of \<open>with_ctx_np\<close>: handles of the two queues, on which the
  closure may push before the system runs. The closure gives a processor, or it panics.
\<close>

record ('k, 'i, 'm) builder_context =
  ctx_signals :: "('k, 'i) signal deque"
  ctx_notifications :: "'m deque"

definition builder_ctx :: "('k, 's, 'i, 'm, 'u) world \<Rightarrow> ('k, 'i, 'm) builder_context" where
  "builder_ctx w = \<lparr>ctx_signals = signal_queue w, ctx_notifications = notification_queue w\<rparr>"

text \<open>\<open>push_ctx_np\<close> does the same on a builder it is lent.\<close>

definition with_ctx_np ::
  "(('k, 'i, 'm) builder_context, ('k, 'p, 't) boxed_np) cmd \<Rightarrow> ('k, 'i, 'v, 'p, 't) rex_builder \<Rightarrow>
   (('k, 's, 'i, 'm, 'u) world, ('k, 'i, 'v, 'p, 't) rex_builder) cmd" where
  "with_ctx_np f b = (\<lambda>w. case f (builder_ctx w) of
     (x, c) \<Rightarrow> (map_outcome_to (\<lambda>np. Returned (with_np np b)) x,
       w\<lparr>signal_queue := ctx_signals c, notification_queue := ctx_notifications c\<rparr>))"

definition with_timeout_manager ::
  "'t \<Rightarrow> ('k, 'i, 'w, 'p, 't) rex_builder \<Rightarrow> ('k, 'i, 'w, 'p, 't) rex_builder" where
  "with_timeout_manager t b = b\<lparr>timeout_topic := Some t\<rparr>"

definition with_tick_rate ::
  "duration \<Rightarrow> ('k, 'i, 'w, 'p, 't) rex_builder \<Rightarrow> ('k, 'i, 'w, 'p, 't) rex_builder" where
  "with_tick_rate d b = b\<lparr>tick_rate := Some d\<rparr>"

text \<open>\<open>c\<close> is the inbound channel \<open>new_connected\<close> makes; its sending half is returned.\<close>

definition new_connected :: "channel \<Rightarrow> channel \<Rightarrow> channel \<times> ('k, 'i, 'w, 'p, 't) rex_builder" where
  "new_connected c out_tx =
     (c, builder_default\<lparr>builder_outbound := Some out_tx, ingress_channel := Some c\<rparr>)"

definition ingress_tx :: "('k, 'i, 'w, 'p, 't) rex_builder \<Rightarrow> channel outcome" where
  "ingress_tx b = unwrap IngressUninitialized (ingress_channel b)"

definition with_ingress_adapter ::
  "('k, 'p) state_router list \<Rightarrow> 't \<Rightarrow> ('k, 'i, 'w, 'p, 't) rex_builder \<Rightarrow>
   ('k, 'i, 'w, 'p, 't) rex_builder outcome" where
  "with_ingress_adapter rs t b =
     (if rs = [] then Panicked EmptyRouters
      else case ingress_channel b of
        None \<Rightarrow> Panicked IngressUninitialized
      | Some c \<Rightarrow>
          (let b' = b\<lparr>ingress_channel := None\<rparr> in
           case builder_outbound b' of
             None \<Rightarrow> Panicked OutboundUninitialized
           | Some out_tx \<Rightarrow>
               map_outcome_to
                 (\<lambda>pr. Returned (with_np (Ingress_np \<lparr>outbound_tx = out_tx, router = pr,
                    inbound_tx = c, inbound_rx = Some c, ingress_topic = t\<rparr>) b'))
                 (packet_router_new rs)))"

section \<open>Building\<close>

definition build_timeout_manager ::
  "('k, 'i, 'w, 'p, 't) rex_builder \<Rightarrow> ('k, 'i, 'w, 'p, 't) rex_builder" where
  "build_timeout_manager b = (case timeout_topic b of
     Some t \<Rightarrow> with_np (Timeout_np (tm_with_tick_rate
       (case tick_rate b of Some d \<Rightarrow> d | None \<Rightarrow> default_tick_rate) (timeout_manager_new t))) b
   | None \<Rightarrow> b)"

text \<open>
  What runs after \<open>build\<close>: the table of the manager's task, and the subscriptions of the
  notification manager's task, \<open>None\<close> when there is no such task.
\<close>

record ('k, 'i, 'w, 't) rex_system =
  sys_machines :: "('k, 'i, 'w) machines"
  sys_processors :: "'t processor list"
  sys_subscriptions :: "'t subscriptions option"

text \<open>\<open>build\<close> and \<open>build_with_handle\<close>; \<open>c\<close> is the first channel not yet in use.\<close>

definition build_inner ::
  "channel \<Rightarrow> ('k, 'i, 'w, 'p, 't) rex_builder \<Rightarrow> ('k, 'i, 'w, 't) rex_system outcome" where
  "build_inner c b =
     (let b' = build_timeout_manager b in
      map_outcome_to
        (\<lambda>ps. map_outcome_to
          (\<lambda>sms. Returned \<lparr>sys_machines = sms, sys_processors = ps,
             sys_subscriptions = (if notification_processors b' \<noteq> [] then Some (nm_new ps) else None)\<rparr>)
          (manager_new (state_machines b')))
        (if notification_processors b' \<noteq> [] then np_init_all c (notification_processors b')
         else Returned []))"

section \<open>Laws\<close>

primrec np_ready :: "('k, 'p, 't) boxed_np \<Rightarrow> bool" where
  "np_ready (Timeout_np tm) \<longleftrightarrow> duration_nanos (tm_tick_rate tm) \<noteq> 0"
| "np_ready (Ingress_np ad) \<longleftrightarrow> inbound_rx ad \<noteq> None"
| "np_ready (Custom_np x ts) \<longleftrightarrow> x = Returned ()"

text \<open>How the \<open>init\<close> of a processor that is not ready fails.\<close>

primrec np_failure :: "('k, 'p, 't) boxed_np \<Rightarrow> panic" where
  "np_failure (Timeout_np tm) = ZeroInterval"
| "np_failure (Ingress_np ad) = InboundRxMissing"
| "np_failure (Custom_np x ts) = (case x of Panicked p \<Rightarrow> p)"

primrec topics_of :: "('k, 'p, 't) boxed_np \<Rightarrow> 't list" where
  "topics_of (Timeout_np tm) = [tm_topic tm]"
| "topics_of (Ingress_np ad) = [ingress_topic ad]"
| "topics_of (Custom_np x ts) = ts"

lemma np_init_ready: "np_ready np \<Longrightarrow> np_init c np = Returned \<lparr>np_channel = c, np_topics = topics_of np\<rparr>"
  by (cases np) (auto simp: np_init_def adapter_init_def spawn_inbound_def cmd_simps)

lemma np_init_not_ready: "\<not> np_ready np \<Longrightarrow> np_init c np = Panicked (np_failure np)"
  by (cases np) (auto simp: np_init_def adapter_init_def spawn_inbound_def cmd_simps split: outcome.splits)

definition numbered :: "channel \<Rightarrow> ('k, 'p, 't) boxed_np list \<Rightarrow> 't processor list" where
  "numbered c nps = map (\<lambda>(j, np). \<lparr>np_channel = j, np_topics = topics_of np\<rparr>) (List.enumerate c nps)"

text \<open>The first processor that is not ready ends the fold.\<close>

definition first_failure :: "('k, 'p, 't) boxed_np list \<Rightarrow> panic option" where
  "first_failure nps = map_option np_failure (find (\<lambda>np. \<not> np_ready np) nps)"

lemma first_failure_None: "first_failure nps = None \<longleftrightarrow> (\<forall>np \<in> set nps. np_ready np)"
  by (auto simp: first_failure_def find_None_iff)

lemma np_init_all_spec:
  "np_init_all c nps = (case first_failure nps of None \<Rightarrow> Returned (numbered c nps) | Some p \<Rightarrow> Panicked p)"
proof (induction nps arbitrary: c)
  case (Cons np nps)
  show ?case
  proof (cases "np_ready np")
    case True
    with Cons [of "Suc c"] show ?thesis
      by (simp add: np_init_ready numbered_def first_failure_def split: option.split)
  next
    case False
    then show ?thesis by (simp add: np_init_not_ready first_failure_def)
  qed
qed (simp add: numbered_def first_failure_def)

lemma numbered_channels: "map np_channel (numbered c nps) = [c..<c + length nps]"
  by (simp add: numbered_def comp_def split_beta)

lemma numbered_topics: "map np_topics (numbered c nps) = map topics_of nps"
proof -
  have "map np_topics (numbered c nps) = map topics_of (map snd (List.enumerate c nps))"
    by (simp add: numbered_def split_beta comp_def del: map_snd_enumerate)
  then show ?thesis by simp
qed

section \<open>Properties\<close>

text \<open>
  C33. A build that returns had only processors that are ready (the timeout manager's tick rate
  is not zero, the adapter has its receiver, the init of a user's processor returns) and
  machines of distinct kinds; it has one machine per kind as registered, every processor on a
  channel of its own with its topics, in order of registration and with the timeout manager
  last, and a notification manager exactly when there is a processor. A build that panics does
  so as the first processor that is not ready, in the order of registration, or, when all are
  ready, because two machines share a kind, with the two counts.
\<close>

theorem build_spec:
  "case build_inner c b of
     Returned sys \<Rightarrow>
       (\<forall>np \<in> set (notification_processors (build_timeout_manager b)). np_ready np) \<and>
       distinct (map sm_kind (state_machines b)) \<and> sys_machines sys = collect_machines (state_machines b) \<and>
       distinct (map np_channel (sys_processors sys)) \<and>
       map np_topics (sys_processors sys) = map topics_of (notification_processors b) @
         (case timeout_topic b of None \<Rightarrow> [] | Some t \<Rightarrow> [[t]]) \<and>
       sys_subscriptions sys = (if notification_processors b = [] \<and> timeout_topic b = None then None
         else Some (nm_new (sys_processors sys)))
   | Panicked p \<Rightarrow>
       (case first_failure (notification_processors (build_timeout_manager b)) of
          Some p' \<Rightarrow> p = p'
        | None \<Rightarrow> p = DuplicateKinds (length (state_machines b)) (card (sm_kind ` set (state_machines b))) \<and>
            \<not> distinct (map sm_kind (state_machines b)))"
proof -
  let ?nps = "notification_processors (build_timeout_manager b)"
  have nps: "?nps = notification_processors b @ (case timeout_topic b of None \<Rightarrow> []
      | Some t \<Rightarrow> [Timeout_np (tm_with_tick_rate
          (case tick_rate b of Some d \<Rightarrow> d | None \<Rightarrow> default_tick_rate) (timeout_manager_new t))])"
    and sms: "state_machines (build_timeout_manager b) = state_machines b"
    by (simp_all add: build_timeout_manager_def with_np_def split: option.splits)
  have init: "(if ?nps \<noteq> [] then np_init_all c ?nps else Returned []) =
      (case first_failure ?nps of None \<Rightarrow> Returned (numbered c ?nps) | Some p \<Rightarrow> Panicked p)"
    by (simp add: np_init_all_spec) (simp add: numbered_def first_failure_def)
  show ?thesis
  proof (cases "first_failure ?nps")
    case None
    have "map topics_of ?nps = map topics_of (notification_processors b) @
        (case timeout_topic b of None \<Rightarrow> [] | Some t \<Rightarrow> [[t]])"
      unfolding nps by (simp add: tm_with_tick_rate_def timeout_manager_new_def split: option.splits)
    moreover have "?nps = [] \<longleftrightarrow> notification_processors b = [] \<and> timeout_topic b = None"
      unfolding nps by (auto split: option.splits)
    ultimately show ?thesis
      unfolding build_inner_def Let_def init sms None option.case map_outcome_to.simps manager_new_eq
      using numbered_topics [of c ?nps] numbered_channels [of c ?nps] None by (simp add: first_failure_None)
  next
    case (Some p)
    then show ?thesis unfolding build_inner_def Let_def init by simp
  qed
qed

theorem build_spec_witness:
  "\<exists>sys. build_inner 3 (with_timeout_manager Topic_Timeout (with_sm \<lparr>sm_process = \<lambda>_ _. ret (), sm_kind = TestKind\<rparr>
      (builder_default :: (test_kind, test_input, nat, in_packet, test_topic) rex_builder))) = Returned sys \<and>
    map np_topics (sys_processors sys) = [[Topic_Timeout]]"
proof -
  let ?b = "with_timeout_manager Topic_Timeout (with_sm \<lparr>sm_process = \<lambda>_ _. ret (), sm_kind = TestKind\<rparr>
      (builder_default :: (test_kind, test_input, nat, in_packet, test_topic) rex_builder))"
  have "distinct (map sm_kind (state_machines ?b))"
    and "first_failure (notification_processors (build_timeout_manager ?b)) = None"
    by (simp_all add: with_timeout_manager_def with_sm_def builder_default_def build_timeout_manager_def
        first_failure_def with_np_def tm_with_tick_rate_def default_tick_rate_def duration_nanos_from_millis)
  with build_spec [of ?b 3] show ?thesis
    by (cases "build_inner 3 ?b")
      (simp_all add: with_timeout_manager_def with_sm_def builder_default_def)
qed

text \<open>
  On a builder made by new_connected, with_ingress_adapter with distinct routers adds one
  adapter on the two channels, ready to be initialised; afterwards ingress_tx and a second
  with_ingress_adapter panic, as does with_ingress_adapter without routers or on a builder that
  was not connected.
\<close>

theorem ingress_adapter_once:
  assumes "new_connected c out_tx = (tx, b)" and "rs \<noteq> []" and "distinct (map router_kind rs)"
  shows "\<exists>b'. with_ingress_adapter rs t b = Returned b' \<and> ingress_tx b = Returned tx \<and>
    notification_processors b' = [Ingress_np \<lparr>outbound_tx = out_tx,
      router = map_of (map (\<lambda>r. (router_kind r, r)) rs), inbound_tx = tx, inbound_rx = Some tx,
      ingress_topic = t\<rparr>] \<and>
    (\<forall>np \<in> set (notification_processors b'). np_ready np) \<and>
    ingress_tx b' = Panicked IngressUninitialized \<and>
    with_ingress_adapter rs t b' = Panicked IngressUninitialized \<and>
    with_ingress_adapter [] t b = Panicked EmptyRouters \<and>
    with_ingress_adapter rs t builder_default = Panicked IngressUninitialized"
  using assms
  by (auto simp: new_connected_def with_ingress_adapter_def ingress_tx_def builder_default_def
      with_np_def packet_router_new_def insert_routers_spec Let_def)

theorem ingress_adapter_once_witness:
  "\<exists>b :: (test_kind, test_input, nat, in_packet, test_topic) rex_builder.
    with_ingress_adapter [test_router] Topic_Ingress (snd (new_connected 4 5)) = Returned b \<and>
    length (notification_processors b) = 1"
  using ingress_adapter_once [of 4 5 4 _ "[test_router]" Topic_Ingress]
  by (fastforce simp: new_connected_def)

end
