(* ===== verification/Rex_System.thy ===== *)
theory Rex_System
  imports Rex_Builder
begin

text \<open>
  The running system: the tasks that \<open>build\<close> spawns and how they interleave. A step is one turn
  of one task between two of its calls to the queues (a signal handled, a notification routed, a
  message received, a packet read, a tick) or something from outside; any order of steps is a
  run. A task that found its queue empty is parked and takes no further turn until its waker is
  called, as the scheduler does it.
\<close>

section \<open>State\<close>

text \<open>\<open>Parked n\<close>: the task waits, and \<open>n\<close> wake-ups had been made on its queue when it parked.\<close>

datatype task_state = Running | Parked nat | Finished

definition runnable :: "waker \<Rightarrow> 'a deque \<Rightarrow> task_state \<Rightarrow> bool" where
  "runnable wk q t = (case t of
     Running \<Rightarrow> True
   | Parked n \<Rightarrow> wk \<in> set (drop n (wakes q))
   | Finished \<Rightarrow> False)"

record ('k, 's, 'i, 'r, 'm, 'u, 'p, 'q) system =
  sys_world :: "('k, 's, 'i, 'm, 'u) world"
  manager_task :: task_state
  manager_rx :: stream_receiver
  nm_task :: task_state
  nm_rx :: stream_receiver
  sys_channels :: "'m channels"
  ledgers :: "channel \<Rightarrow> ('k, 'r) ledger"
  packets :: "channel \<Rightarrow> 'p list"
  inbound_on :: "channel \<Rightarrow> bool"
  outbox :: "'q channels"

text \<open>What \<open>build\<close> fixed: beside the tables, the processor behind each channel.\<close>

record ('k, 'i, 'w, 'p, 't) program = "('k, 'i, 'w, 't) rex_system" +
  prog_role :: "channel \<rightharpoonup> ('k, 'p, 't) boxed_np"

definition roles :: "channel \<Rightarrow> ('k, 'p, 't) boxed_np list \<Rightarrow> channel \<rightharpoonup> ('k, 'p, 't) boxed_np" where
  "roles c nps = map_of (List.enumerate c nps)"

definition build ::
  "channel \<Rightarrow> ('k, 'i, 'w, 'p, 't) rex_builder \<Rightarrow> ('k, 'i, 'w, 'p, 't) program outcome" where
  "build c b = map_outcome_to
     (\<lambda>sys. Returned \<lparr>sys_machines = sys_machines sys, sys_processors = sys_processors sys,
        sys_subscriptions = sys_subscriptions sys,
        prog_role = roles c (notification_processors (build_timeout_manager b))\<rparr>)
     (build_inner c b)"

text \<open>The state when the tasks have been spawned; \<open>w\<close> holds what was queued before.\<close>

definition spawned :: "('k, 's, 'i, 'm, 'u) world \<Rightarrow> ('k, 's, 'i, 'r, 'm, 'u, 'p, 'q) system" where
  "spawned w = \<lparr>sys_world = w, manager_task = Running, manager_rx = stream, nm_task = Running,
     nm_rx = stream, sys_channels = channels_new, ledgers = (\<lambda>_. ledger_new), packets = (\<lambda>_. []),
     inbound_on = (\<lambda>_. True), outbox = channels_new\<rparr>"

section \<open>Steps\<close>

definition manager_waker :: waker where
  "manager_waker = 0"

definition nm_waker :: waker where
  "nm_waker = 1"

definition task_after :: "task_status \<Rightarrow> 'a deque \<Rightarrow> task_state" where
  "task_after st q = (case st of
     Handled \<Rightarrow> Running
   | Waiting \<Rightarrow> Parked (length (wakes q))
   | _ \<Rightarrow> Finished)"

text \<open>What the task behind a channel does with a message.\<close>

definition receive ::
  "('k, 's, 'i, 'r, 'm, 't, 'p, 'q) ingress \<Rightarrow> ('k, 'p, 't) boxed_np \<Rightarrow> channel \<Rightarrow> 'm \<Rightarrow>
   ('k, 's, 'i, 'r, 'm, 'u, 'p, 'q) system \<Rightarrow> ('k, 's, 'i, 'r, 'm, 'u, 'p, 'q) system" where
  "receive I np c m s = (case np of
     Timeout_np tm \<Rightarrow> s\<lparr>ledgers := (ledgers s)(c := timeout_notified I m (ledgers s c))\<rparr>
   | Ingress_np ad \<Rightarrow> s\<lparr>outbox := outbound_step I (outbound_tx ad) m (outbox s)\<rparr>
   | Custom_np x ts \<Rightarrow> s)"

datatype ('k, 'i, 'm, 'p) sys_event =
    Manager_turn instant
  | Nm_turn
  | Received channel
  | Read_packet channel
  | Ticked channel "'k state_id hash_order" instant
  | Signalled "('k, 'i) signal push"
  | Notified "'m push"
  | Packet_arrived channel 'p

abbreviation push_world_signal ::
  "('k, 'i) signal push \<Rightarrow> ('k, 's, 'i, 'm, 'u) world \<Rightarrow> ('k, 's, 'i, 'm, 'u) world" where
  "push_world_signal p w \<equiv> w\<lparr>signal_queue := run_push p (signal_queue w)\<rparr>"

abbreviation push_world_notification ::
  "'m push \<Rightarrow> ('k, 's, 'i, 'm, 'u) world \<Rightarrow> ('k, 's, 'i, 'm, 'u) world" where
  "push_world_notification p w \<equiv> w\<lparr>notification_queue := run_push p (notification_queue w)\<rparr>"

inductive sys_step ::
  "('k, 's, 'i, 'r, 'm, 't, 'p, 'q) ingress \<Rightarrow>
   ('k, 'i, ('k, 's, 'i, 'm, 'u) world, 'p, 't) program \<Rightarrow>
   ('k, 's, 'i, 'r, 'm, 'u, 'p, 'q) system \<Rightarrow> ('k, 'i, 'm, 'p) sys_event \<Rightarrow>
   ('k, 's, 'i, 'r, 'm, 'u, 'p, 'q) system \<Rightarrow> bool"
  for I :: "('k, 's, 'i, 'r, 'm, 't, 'p, 'q) ingress"
  and P :: "('k, 'i, ('k, 's, 'i, 'm, 'u) world, 'p, 't) program" where
  manager_turn:
    "sys_step I P s (Manager_turn t)
       (s\<lparr>sys_world := w, manager_rx := rx, manager_task := task_after st (signal_queue w)\<rparr>)"
    if "runnable manager_waker (signal_queue (sys_world s)) (manager_task s)"
      and "now (sys_world s) \<le> t"
      and "manager_step (sys_machines P) manager_waker (manager_rx s) ((sys_world s)\<lparr>now := t\<rparr>) = (st, rx, w)"
| nm_route_one:
    "sys_step I P s Nm_turn
       (s\<lparr>sys_world := (sys_world s)\<lparr>notification_queue := q\<rparr>, nm_rx := rx, nm_task := Running,
          sys_channels := nm_route I subs m (sys_channels s)\<rparr>)"
    if "sys_subscriptions P = Some subs"
      and "runnable nm_waker (notification_queue (sys_world s)) (nm_task s)"
      and "poll_next nm_waker (nm_rx s) (notification_queue (sys_world s)) = (Ready (Some m), rx, q)"
| nm_wait:
    "sys_step I P s Nm_turn
       (s\<lparr>sys_world := (sys_world s)\<lparr>notification_queue := q\<rparr>, nm_rx := rx,
          nm_task := Parked (length (wakes q))\<rparr>)"
    if "sys_subscriptions P = Some subs"
      and "runnable nm_waker (notification_queue (sys_world s)) (nm_task s)"
      and "poll_next nm_waker (nm_rx s) (notification_queue (sys_world s)) = (Pending, rx, q)"
| received:
    "sys_step I P s (Received c) (receive I np c m (s\<lparr>sys_channels := ch\<rparr>))"
    if "prog_role P c = Some np" and "chan_recv c (sys_channels s) = (Some m, ch)"
| read_packet:
    "sys_step I P s (Read_packet c)
       (s\<lparr>sys_world := (sys_world s)\<lparr>signal_queue := q\<rparr>, packets := (packets s)(ic := ps),
          inbound_on := (inbound_on s)(c := x = Returned ())\<rparr>)"
    if "prog_role P c = Some (Ingress_np ad)" and "inbound_on s c" and "inbound_rx ad = Some ic"
      and "packets s ic = p # ps"
      and "inbound_step I (router ad) p (signal_queue (sys_world s)) = (x, q)"
| ticked:
    "sys_step I P s (Ticked c it t)
       (s\<lparr>sys_world := (sys_world s)\<lparr>signal_queue := q, now := t\<rparr>, ledgers := (ledgers s)(c := L)\<rparr>)"
    if "prog_role P c = Some (Timeout_np tm)" and "now (sys_world s) \<le> t" and "hash_order_ok it"
      and "tick I it t (ledgers s c, signal_queue (sys_world s)) = (L, q)"
| signalled: "sys_step I P s (Signalled p) (s\<lparr>sys_world := push_world_signal p (sys_world s)\<rparr>)"
| notified: "sys_step I P s (Notified n) (s\<lparr>sys_world := push_world_notification n (sys_world s)\<rparr>)"
| packet_arrived:
    "sys_step I P s (Packet_arrived ic p) (s\<lparr>packets := (packets s)(ic := packets s ic @ [p])\<rparr>)"

inductive_cases manager_turnE: "sys_step I P s (Manager_turn t) s'"
inductive_cases nm_turnE: "sys_step I P s Nm_turn s'"
inductive_cases receivedE: "sys_step I P s (Received c) s'"
inductive_cases read_packetE: "sys_step I P s (Read_packet c) s'"
inductive_cases tickedE: "sys_step I P s (Ticked c it t) s'"
inductive_cases signalledE: "sys_step I P s (Signalled p) s'"

text \<open>A run from one state to another, with its events.\<close>

inductive sys_run ::
  "('k, 's, 'i, 'r, 'm, 't, 'p, 'q) ingress \<Rightarrow>
   ('k, 'i, ('k, 's, 'i, 'm, 'u) world, 'p, 't) program \<Rightarrow>
   ('k, 's, 'i, 'r, 'm, 'u, 'p, 'q) system \<Rightarrow> ('k, 'i, 'm, 'p) sys_event list \<Rightarrow>
   ('k, 's, 'i, 'r, 'm, 'u, 'p, 'q) system \<Rightarrow> bool"
  for I :: "('k, 's, 'i, 'r, 'm, 't, 'p, 'q) ingress"
  and P :: "('k, 'i, ('k, 's, 'i, 'm, 'u) world, 'p, 't) program" where
  run_nil: "sys_run I P s [] s"
| run_snoc: "sys_run I P s (es @ [e]) s''" if "sys_run I P s es s'" and "sys_step I P s' e s''"

end
