(* ===== verification/Rex_View.thy ===== *)
theory Rex_View
  imports Rex_Manager
begin

text \<open>
  The world as a user of the crate sees it: the state and the parent of every id, the signals
  and notifications that wait in each lane, the clock and the user's own data. Every call a
  machine may make has a law that says what it does to this view, so the effect of a whole
  \<open>process\<close>, and of a run of the manager, is computed by chaining the laws.
\<close>

section \<open>The view\<close>

record ('k, 's, 'i, 'm, 'u) view =
  v_states :: "'k state_id \<rightharpoonup> 's"
  v_parents :: "'k state_id \<rightharpoonup> 'k state_id"
  v_front :: "('k, 'i) signal list"
  v_back :: "('k, 'i) signal list"
  v_urgent :: "'m list"
  v_normal :: "'m list"
  v_now :: instant
  v_user :: 'u

definition view_of :: "('k, 's, 'i, 'm, 'u) world \<Rightarrow> ('k, 's, 'i, 'm, 'u) view" where
  "view_of w = \<lparr>v_states = world_states w, v_parents = world_parents w,
     v_front = front_values (signal_queue w), v_back = back_values (signal_queue w),
     v_urgent = front_values (notification_queue w), v_normal = back_values (notification_queue w),
     v_now = now w, v_user = user w\<rparr>"

definition shows_view :: "('k, 's, 'i, 'm, 'u) world \<Rightarrow> ('k, 's, 'i, 'm, 'u) view \<Rightarrow> bool" where
  "shows_view w a \<longleftrightarrow> world_wf w \<and> view_of w = a"

lemma shows_view_new:
  "shows_view (world_new t u) \<lparr>v_states = Map.empty, v_parents = Map.empty, v_front = [],
     v_back = [], v_urgent = [], v_normal = [], v_now = t, v_user = u\<rparr>"
  by (simp add: shows_view_def view_of_def)

lemma shows_viewD:
  assumes "shows_view w a"
  shows "world_wf w" and "world_states w = v_states a" and "world_parents w = v_parents a"
    and "front_values (signal_queue w) = v_front a" and "back_values (signal_queue w) = v_back a"
    and "front_values (notification_queue w) = v_urgent a"
    and "back_values (notification_queue w) = v_normal a" and "now w = v_now a" and "user w = v_user a"
  using assms by (auto simp: shows_view_def view_of_def)

section \<open>Effects of the calls\<close>

lemma view_queue_effects [effect_rules]:
  "effect shows_view (ctx_notify m) a () (a\<lparr>v_normal := v_normal a @ [m]\<rparr>)"
  "effect shows_view (priority_notify m) a () (a\<lparr>v_urgent := v_urgent a @ [m]\<rparr>)"
  "effect shows_view (signal_self i x) a () (a\<lparr>v_front := v_front a @ [\<lparr>sig_id = i, sig_input = x\<rparr>]\<rparr>)"
  "effect shows_view (signal_to i x) a () (a\<lparr>v_back := v_back a @ [\<lparr>sig_id = i, sig_input = x\<rparr>]\<rparr>)"
  "effect shows_view (gets now) a (v_now a) a"
  by (auto simp: effect_def shows_view_def view_of_def ctx_defs cmd_simps world_wf_def
      nq_send_def nq_priority_send_def)

lemma view_cancel [effect_rules]:
  "effect shows_view (cancel_timeout R i) a ()
    (a\<lparr>v_urgent := v_urgent a @ [from_timeout R (request_cancel_timeout i)]\<rparr>)"
  unfolding cancel_timeout_def by (rule effect_rules)

lemma view_set_timeout [effect_rules]:
  assumes "v_now a + duration_nanos d < instant_limit"
  shows "effect shows_view (set_timeout R i d) a ()
    (a\<lparr>v_urgent := v_urgent a @ [from_timeout R \<lparr>req_id = i, req_op = Set (v_now a + duration_nanos d)\<rparr>]\<rparr>)"
  unfolding set_timeout_def using assms
  by - (rule effect_rules | simp add: request_set_timeout_def from_duration_def instant_add_def)+

lemma view_return_in [effect_rules]:
  assumes "v_now a + duration_nanos d < instant_limit"
  shows "effect shows_view (return_in R i x d) a ()
    (a\<lparr>v_urgent := v_urgent a @ [from_timeout R \<lparr>req_id = i, req_op = Retain x (v_now a + duration_nanos d)\<rparr>]\<rparr>)"
  unfolding return_in_def using assms
  by - (rule effect_rules | simp add: request_retain_def instant_add_def)+

lemma shows_view_iff:
  "shows_view w a \<longleftrightarrow> world_wf w \<and> world_states w = v_states a \<and> world_parents w = v_parents a \<and>
     front_values (signal_queue w) = v_front a \<and> back_values (signal_queue w) = v_back a \<and>
     front_values (notification_queue w) = v_urgent a \<and> back_values (notification_queue w) = v_normal a \<and>
     now w = v_now a \<and> user w = v_user a"
  by (cases a) (auto simp: shows_view_def view_of_def)

lemma view_reads [effect_rules]:
  assumes "\<not> is_nil i"
  shows "effect shows_view (ctx_get_state i) a (v_states a i) a"
    and "effect shows_view (ctx_has_state i) a (i \<in> dom (v_states a)) a"
    and "effect shows_view (ctx_get_parent_id i) a (v_parents a i) a"
    and "effect shows_view (ctx_has_parent i) a (v_parents a i \<noteq> None) a"
  using assms by (auto simp: effect_def shows_view_def view_of_def ctx_reads)

lemma view_create_tree [effect_rules]:
  assumes "\<not> is_nil i" and "v_states a i = None"
  shows "effect shows_view (on_store (create_tree R i)) a ()
    (a\<lparr>v_states := (v_states a)(i \<mapsto> new_state R (kind i))\<rparr>)"
proof (rule effectI)
  fix w assume w: "shows_view w a"
  then have wf: "store_wf (state_store w)" and "i \<notin> dom (world_states w)"
    using assms(2) by (auto simp: world_wf_def dest: shows_viewD)
  from create_tree_forest [OF wf assms(1) this(2), of R] w
  show "\<exists>w'. on_store (create_tree R i) w = (Returned (), w') \<and>
      shows_view w' (a\<lparr>v_states := (v_states a)(i \<mapsto> new_state R (kind i))\<rparr>)"
    by (auto simp: cmd_simps shows_view_def view_of_def world_wf_def)
qed

lemma view_new_child [effect_rules]:
  assumes "v_states a i = Some s" and "\<not> is_nil c" and "v_states a c = None"
  shows "effect shows_view (on_store (new_child R i c)) a ()
    (a\<lparr>v_states := (v_states a)(c \<mapsto> new_state R (kind c)), v_parents := (v_parents a)(c \<mapsto> i)\<rparr>)"
proof (rule effectI)
  fix w assume w: "shows_view w a"
  then have wf: "store_wf (state_store w)" and "i \<in> dom (world_states w)" "c \<notin> dom (world_states w)"
    using assms by (auto simp: world_wf_def dest: shows_viewD)
  from new_child_forest [OF wf this(2) assms(2) this(3), of R] w
  show "\<exists>w'. on_store (new_child R i c) w = (Returned (), w') \<and> shows_view w'
      (a\<lparr>v_states := (v_states a)(c \<mapsto> new_state R (kind c)), v_parents := (v_parents a)(c \<mapsto> i)\<rparr>)"
    by (auto simp: cmd_simps shows_view_def view_of_def world_wf_def)
qed

lemma view_update [effect_rules]:
  assumes "v_states a i = Some s"
  shows "effect shows_view (on_store (sm_update R i s')) a () (a\<lparr>v_states := (v_states a)(i \<mapsto> s')\<rparr>)"
proof (rule effectI)
  fix w assume w: "shows_view w a"
  then have wf: "store_wf (state_store w)" and "i \<in> dom (world_states w)"
    using assms by (auto simp: world_wf_def dest: shows_viewD)
  then obtain st where st: "sm_update R i s' (state_store w) = (Returned (), st)" "store_wf st"
    "forest_states st = (world_states w)(i \<mapsto> s')" "forest_parents st = world_parents w"
    using update_tree_forest [of "state_store w" i R s'] by metis
  with w show "\<exists>w'. on_store (sm_update R i s') w = (Returned (), w') \<and>
      shows_view w' (a\<lparr>v_states := (v_states a)(i \<mapsto> s')\<rparr>)"
    by (auto simp: cmd_simps shows_view_def view_of_def world_wf_def)
qed

lemma view_update_and_signal [effect_rules]:
  assumes "v_states a i = Some s"
  shows "effect shows_view (update_state_and_signal R i s') a (v_parents a i)
    (a\<lparr>v_states := (v_states a)(i \<mapsto> s'), v_back := v_back a @ parent_signals R (v_parents a i) s'\<rparr>)"
proof (rule effectI)
  fix w assume w: "shows_view w a"
  then have "world_wf w" and "i \<in> dom (world_states w)"
    using assms by (auto dest: shows_viewD)
  from update_state_and_signal_effect [OF this, of R s'] w
  show "\<exists>w'. update_state_and_signal R i s' w = (Returned (v_parents a i), w') \<and> shows_view w'
      (a\<lparr>v_states := (v_states a)(i \<mapsto> s'), v_back := v_back a @ parent_signals R (v_parents a i) s'\<rparr>)"
    by (auto simp: shows_view_def view_of_def deque_fifo.fold_push_lo)
qed

lemma view_fail_complete [effect_rules]:
  assumes "v_states a i = Some s"
  shows "effect shows_view (sm_fail R i) a (v_parents a i)
      (a\<lparr>v_states := (v_states a)(i \<mapsto> failed_state R (kind i)),
        v_back := v_back a @ parent_signals R (v_parents a i) (failed_state R (kind i))\<rparr>)"
    and "effect shows_view (sm_complete R i) a (v_parents a i)
      (a\<lparr>v_states := (v_states a)(i \<mapsto> completed_state R (kind i)),
        v_back := v_back a @ parent_signals R (v_parents a i) (completed_state R (kind i))\<rparr>)"
  unfolding sm_fail_def sm_complete_def using assms by (rule view_update_and_signal)+

section \<open>Turns of the manager\<close>

text \<open>
  \<open>leads sms ts a a'\<close>: from a world that shows \<open>a\<close>, the manager handles one signal per reading
  of \<open>ts\<close> and then shows \<open>a'\<close>.
\<close>

definition leads ::
  "('k, 'i, ('k, 's, 'i, 'm, 'u) world) machines \<Rightarrow> instant list \<Rightarrow>
   ('k, 's, 'i, 'm, 'u) view \<Rightarrow> ('k, 's, 'i, 'm, 'u) view \<Rightarrow> bool" where
  "leads sms ts a a' \<longleftrightarrow> (\<forall>wk rx w us. shows_view w a \<longrightarrow> (\<exists>rx' w'. shows_view w' a' \<and>
     manager_run sms wk (ts @ us) rx w = manager_run sms wk us rx' w'))"

lemma leads_refl: "leads sms [] a a"
  by (auto simp: leads_def)

lemma leads_append: "leads sms ts a a' \<Longrightarrow> leads sms us a' a'' \<Longrightarrow> leads sms (ts @ us) a a''"
  unfolding leads_def by (metis append.assoc)

lemma shows_view_clock: "shows_view w a \<Longrightarrow> shows_view (w\<lparr>now := t\<rparr>) (a\<lparr>v_now := t\<rparr>)"
  by (auto simp: shows_view_def view_of_def world_wf_def)

lemma leads_turn:
  assumes "v_front a @ v_back a = sig # sigs"
    and "effect shows_view (dispatch sms sig)
      (a\<lparr>v_front := tl (v_front a), v_back := (if v_front a = [] then tl (v_back a) else v_back a),
         v_now := t\<rparr>) () a'"
  shows "leads sms [t] a a'"
  unfolding leads_def
proof (intro allI impI)
  fix wk rx w us
  assume w: "shows_view w a"
  let ?w = "w\<lparr>now := t\<rparr>"
  note D = shows_viewD [OF w]
  have q: "queue_values (signal_queue ?w) = sig # sigs"
    using assms(1) D by (simp add: queue_values_def)
  show "\<exists>rx' w'. shows_view w' a' \<and>
      manager_run sms wk ([t] @ us) rx w = manager_run sms wk us rx' w'"
  proof (rule manager_step_signal [OF q, where wk = wk and rx = rx and sms = sms])
    fix q'
    assume v: "queue_values q' = sigs" "front_values q' = tl (front_values (signal_queue ?w))"
      and step: "manager_step sms wk rx ?w = (case dispatch sms sig (?w\<lparr>signal_queue := q'\<rparr>) of
          (Returned _, w') \<Rightarrow> (Handled, rx\<lparr>rx_awake := None\<rparr>, w')
        | (Panicked p, w') \<Rightarrow> (Died p, rx\<lparr>rx_awake := None\<rparr>, w'))"
    have "back_values q' = (if v_front a = [] then tl (v_back a) else v_back a)"
      using v D(4,5) assms(1) by (cases "v_front a") (auto simp: queue_values_def)
    with v(2) D have "shows_view (?w\<lparr>signal_queue := q'\<rparr>)
      (a\<lparr>v_front := tl (v_front a), v_back := (if v_front a = [] then tl (v_back a) else v_back a),
         v_now := t\<rparr>)"
      by (simp add: shows_view_def view_of_def world_wf_def)
    from effectD [OF assms(2) this] obtain w' where
      "dispatch sms sig (?w\<lparr>signal_queue := q'\<rparr>) = (Returned (), w')" "shows_view w' a'" by blast
    with step show ?thesis by auto
  qed
qed

lemma leads_step:
  assumes "v_front a @ v_back a = sig # sigs"
    and "effect shows_view (dispatch sms sig)
      (a\<lparr>v_front := tl (v_front a), v_back := (if v_front a = [] then tl (v_back a) else v_back a),
         v_now := t\<rparr>) () a'"
    and "leads sms ts a' a''"
  shows "leads sms (t # ts) a a''"
  using leads_append [OF leads_turn [OF assms(1,2)] assms(3)] by simp

text \<open>A run that has handled every signal waits, for any number of further readings but none.\<close>

lemma leads_waiting:
  assumes "leads sms ts a a'" and "v_front a' = []" and "v_back a' = []" and "shows_view w a"
    and "us \<noteq> []"
  shows "\<exists>rx' w'. manager_run sms wk (ts @ us) rx w = (Waiting, rx', w') \<and>
    shows_view w' (a'\<lparr>v_now := hd us\<rparr>)"
proof -
  obtain rx1 w1 where w1: "shows_view w1 a'"
    "manager_run sms wk (ts @ us) rx w = manager_run sms wk us rx1 w1"
    using assms(1,4) unfolding leads_def by blast
  obtain u us' where us: "us = u # us'" using assms(5) by (cases us) auto
  let ?w = "w1\<lparr>now := u\<rparr>"
  have "queue_values (signal_queue ?w) = []"
    using shows_viewD(4,5) [OF w1(1)] assms(2,3) by (simp add: queue_values_def)
  then show ?thesis
    using w1 us shows_view_clock [OF w1(1), of u]
    by (cases rule: poll_next_cases [where q = "signal_queue ?w" and w = wk and rx = rx1])
      (auto simp: manager_step_def shows_view_def view_of_def world_wf_def dest: poll_next_Ready(1))
qed

end
