(* ===== verification/Rex_Sound.thy ===== *)
theory Rex_Sound
  imports Rex_Context
begin

text \<open>
  What holds of the store in every run, whatever the machines do: also when an id is given a
  tree twice, when a child's id is already in use or when a reference was removed. A tree is
  sound when \<open>descendant_keys\<close> is exact and the state of every id is one of the id's kind; a
  store is sound when every reference leads to a sound tree that has the id. The operations
  keep this, so the panics left are those the code raises on purpose: an id that is not in
  its tree, on which \<open>by_id\<close> panics and the tree is lost, is never asked for.
\<close>

section \<open>Sound trees\<close>

definition kinds_ok :: "('k, 's, 'z) kind_ops_scheme \<Rightarrow> ('k, 's) state_node \<Rightarrow> bool" where
  "kinds_ok K n \<longleftrightarrow> (\<forall>(i, s) \<in> set (entries n). kind_of K s = kind i)"

definition tree_sound :: "('k, 's, 'z) kind_ops_scheme \<Rightarrow> ('k, 's) state_node \<Rightarrow> bool" where
  "tree_sound K n \<longleftrightarrow> exact n \<and> kinds_ok K n"

lemma covers_entries: "exact n \<Longrightarrow> covers i n \<longleftrightarrow> i \<in> fst ` set (entries n)"
  by (simp add: exact_covers ids_def)

lemma modify_path_set_state:
  fixes s :: 's
  assumes "exact n" and "covers i n"
  defines "n' \<equiv> modify_path i (\<lambda>n. n) (set_node_state s) n"
  shows "node_id n' = node_id n \<and> descendant_keys n' = descendant_keys n \<and> exact n' \<and>
    ids n' = ids n \<and> set (entries n') \<subseteq> insert (i, s) (set (entries n))"
  using assms(1,2) unfolding n'_def
proof (induction n)
  case (Node r v d cs)
  let ?n = "Node r v d cs"
  show ?case
  proof (cases "i \<in> d")
    case False
    with Node.prems show ?thesis by (auto simp: covers_def ids_Node)
  next
    case True
    with exact_child_idx [OF Node.prems(1), of i] obtain j where
      idx: "child_idx ?n i = Some j" and j: "j < length cs" and cov: "covers i (cs ! j)"
      and exj: "exact (cs ! j)"
      by auto
    let ?m = "modify_path i (\<lambda>n. n) (set_node_state s) (cs ! j)"
    have m: "node_id ?m = node_id (cs ! j)" "descendant_keys ?m = descendant_keys (cs ! j)"
      "exact ?m" "ids ?m = ids (cs ! j)" "set (entries ?m) \<subseteq> insert (i, s) (set (entries (cs ! j)))"
      using Node.IH [OF nth_mem [OF j] exj cov] by auto
    have n': "modify_path i (\<lambda>n. n) (set_node_state s) ?n = Node r v d (cs[j := ?m])"
      using True idx by simp
    have "map (\<lambda>c. insert (node_id c) (descendant_keys c)) (cs[j := ?m]) =
        map (\<lambda>c. insert (node_id c) (descendant_keys c)) cs"
      using j m by (intro map_list_update_eq) auto
    then have "(\<Union>c \<in> set (cs[j := ?m]). insert (node_id c) (descendant_keys c)) = d"
      using Node.prems(1) by (metis exact.simps list.set_map)
    moreover have "\<forall>c \<in> set (cs[j := ?m]). exact c"
      using Node.prems(1) m(3) by (auto dest: set_update_subset_insert [THEN subsetD])
    moreover have "map ids (cs[j := ?m]) = map ids cs"
      using j m(4) by (intro map_list_update_eq) auto
    moreover have "set (concat (map entries (cs[j := ?m]))) \<subseteq>
        insert (i, s) (set (concat (map entries cs)))"
      using m(5) j by (fastforce dest: set_update_subset_insert [THEN subsetD])
    ultimately show ?thesis unfolding n' by (auto simp: ids_Node)
  qed
qed

lemma update_sound:
  assumes "tree_sound K n" and "covers i n" and "kind_of K s = kind i"
  shows "\<exists>n'. tree_sound K n' \<and> ids n' = ids n \<and>
    node_update K \<lparr>upd_id = i, upd_state = s\<rparr> n = (Returned (), n') \<and>
    (\<exists>p. update_and_get_parent_id K \<lparr>upd_id = i, upd_state = s\<rparr> n = (Returned p, n'))"
proof -
  let ?n' = "modify_path i (\<lambda>n. n) (set_node_state s) n"
  have ex: "exact n" using assms(1) by (simp add: tree_sound_def)
  note n' = modify_path_set_state [OF ex assms(2), of s]
  have "tree_sound K ?n'"
    using n' assms(1,3) by (auto simp: tree_sound_def kinds_ok_def)
  moreover obtain z where "by_id i (node_zipper n) = Returned z"
    "finish_update (set_state s z) = Returned ?n'"
    using by_id_modify [OF ex assms(2)] by (auto simp: set_state_def)
  ultimately show ?thesis
    using n' by (auto simp: node_update_def into_update_def update_and_get_parent_id_def
        swapped_def finish_update_parent_id_def)
qed

lemma insert_sound:
  assumes "lawful_kind K" and "tree_sound K n" and "covers p n"
  shows "\<exists>n'. tree_sound K n' \<and> set (ids n') = insert x (set (ids n)) \<and>
    node_insert K \<lparr>ins_parent_id = Some p, ins_id = x\<rparr> n = (Returned (), n')"
proof -
  have ex: "exact n" using assms(2) by (simp add: tree_sound_def)
  let ?n' = "modify_path p (add_descendant x) (push_child K x) n"
  note n' = modify_path_insert [OF ex assms(3), of x K]
  have "set (entries ?n') = insert (x, new_state K (kind x)) (set (entries n))"
    using n' mset_eq_setD [of "entries ?n'" "(x, new_state K (kind x)) # entries n"] by simp
  then have "tree_sound K ?n'" and "set (ids ?n') = insert x (set (ids n))"
    using n' assms(2) lawful_kind.kind_of_new [OF assms(1)]
    by (auto simp: tree_sound_def kinds_ok_def ids_def)
  then show ?thesis
    using into_insert_modify [OF ex assms(3), of K x] by (auto simp: node_insert_def swapped_def)
qed

lemma get_loop_sound:
  assumes "exact n" and "covers i n"
  shows "\<exists>c. get_loop i n = Returned c \<and> (i, node_state c) \<in> set (entries n)"
  using assms
proof (induction n)
  case (Node r v d cs)
  let ?n = "Node r v d cs"
  show ?case
  proof (cases "i \<in> d")
    case False
    with Node.prems show ?thesis by (auto simp: covers_def)
  next
    case True
    with exact_child_idx [OF Node.prems(1), of i] obtain j where
      idx: "child_idx ?n i = Some j" and j: "j < length cs" and cov: "covers i (cs ! j)"
      and exj: "exact (cs ! j)"
      by auto
    with Node.IH [OF nth_mem [OF j] exj cov] True show ?thesis by (force simp: child_by_idx)
  qed
qed

lemma read_sound:
  assumes "tree_sound K n" and "covers i n"
  shows "\<exists>s. get_state n i = Returned (Some s) \<and> kind_of K s = kind i"
proof -
  have ex: "exact n" and ok: "kinds_ok K n" using assms(1) by (simp_all add: tree_sound_def)
  have root: "(node_id n, node_state n) \<in> set (entries n)" by (cases n) simp
  from get_loop_sound [OF ex assms(2)] ok root assms(2) show ?thesis
    by (auto simp: get_state_def node_get_def kinds_ok_def covers_def)
qed

lemma parent_loop_sound:
  assumes "exact n"
  shows "\<exists>p. parent_loop i n = Returned p"
  using assms
proof (induction n)
  case (Node r v d cs)
  let ?n = "Node r v d cs"
  show ?case
  proof (cases "i \<in> d")
    case False
    then show ?thesis by (simp add: parent_loop.simps)
  next
    case True
    with exact_child_idx [OF Node.prems, of i] obtain j where
      idx: "child_idx ?n i = Some j" and j: "j < length cs" and exj: "exact (cs ! j)"
      by auto
    with Node.IH [OF nth_mem [OF j] exj] True show ?thesis
      by (auto simp: parent_loop.simps [of i ?n] child_by_idx)
  qed
qed

lemma get_parent_id_sound: "tree_sound K n \<Longrightarrow> \<exists>p. get_parent_id n i = Returned p"
  using parent_loop_sound [of n i] by (auto simp: get_parent_id_def tree_sound_def)

lemma node_new_sound: "lawful_kind K \<Longrightarrow> tree_sound K (node_new K i)"
  using lawful_kind.kind_of_new [of K] by (auto simp: tree_sound_def kinds_ok_def node_new_def)

lemma map_states_sound:
  assumes "tree_sound K n" and "\<And>i s. kind_of K s = kind i \<Longrightarrow> kind_of K (g i s) = kind i"
  shows "tree_sound K (map_states g n)"
  using assms by (fastforce simp: tree_sound_def kinds_ok_def)

section \<open>Sound stores\<close>

definition store_sound :: "('k, 's, 'z) kind_ops_scheme \<Rightarrow> ('k, 's) store \<Rightarrow> bool" where
  "store_sound K st \<longleftrightarrow> (\<forall>n \<in> set (heap st). tree_sound K n) \<and>
     (\<forall>i r. trees st i = Some r \<longrightarrow> r < length (heap st) \<and> covers i (heap st ! r) \<and> \<not> is_nil i)"

lemma store_sound_ref:
  assumes "store_sound K st" and "trees st i = Some r"
  shows "r < length (heap st)" and "covers i (heap st ! r)" and "\<not> is_nil i"
    and "tree_sound K (heap st ! r)"
  using assms by (auto simp: store_sound_def)

lemma store_new_sound: "store_sound K store_new"
  by (simp add: store_sound_def store_new_def)

lemma tree_sound_covers: "tree_sound K n \<Longrightarrow> covers i n \<longleftrightarrow> i \<in> set (ids n)"
  by (simp add: tree_sound_def exact_covers)

lemma store_sound_replace:
  assumes "store_sound K st" and "r < length (heap st)" and "tree_sound K n"
    and "set (ids (heap st ! r)) \<subseteq> set (ids n)"
  shows "store_sound K (st\<lparr>heap := (heap st)[r := n]\<rparr>)"
proof -
  have "\<forall>m \<in> set ((heap st)[r := n]). tree_sound K m"
    using assms(1,3) by (auto simp: store_sound_def dest: set_update_subset_insert [THEN subsetD])
  moreover have "q < length (heap st) \<and> covers i ((heap st)[r := n] ! q) \<and> \<not> is_nil i"
    if "trees st i = Some q" for i q
    using store_sound_ref [OF assms(1) that] assms(2-4)
    by (cases "q = r") (auto simp: tree_sound_covers)
  ultimately show ?thesis by (simp add: store_sound_def)
qed

lemma store_sound_point:
  assumes "store_sound K st" and "r < length (heap st)" and "covers i (heap st ! r)" and "\<not> is_nil i"
  shows "store_sound K (st\<lparr>trees := (trees st)(i \<mapsto> r)\<rparr>)"
  using assms by (auto simp: store_sound_def)

lemma get_tree_keeps [keeps_rules]: "NilId \<in> P \<Longrightarrow> keeps (store_sound K) P (get_tree i)"
  unfolding get_tree_def by (intro keeps_rules)

lemma create_tree_keeps [keeps_rules]:
  assumes "lawful_kind K" and "NilId \<in> P"
  shows "keeps (store_sound K) P (create_tree K i)"
proof (rule keepsI)
  fix st x st'
  assume ok: "store_sound K st" and run: "create_tree K i st = (x, st')"
  let ?st = "st\<lparr>heap := heap st @ [node_new K i]\<rparr>"
  have "store_sound K ?st"
    using ok node_new_sound [OF assms(1), of i] by (fastforce simp: store_sound_def nth_append)
  moreover from this have "\<not> is_nil i \<Longrightarrow> store_sound K (?st\<lparr>trees := (trees st)(i \<mapsto> length (heap st))\<rparr>)"
    using store_sound_point [of K ?st "length (heap st)" i] by (simp add: covers_def)
  ultimately show "store_sound K st' \<and> (\<forall>p. x = Panicked p \<longrightarrow> p \<in> P)"
    using run assms(2) by (auto simp: create_tree_def arc_new_def insert_ref_def cmd_simps split: if_splits)
qed

lemma new_child_keeps [keeps_rules]:
  assumes "lawful_kind K" and "{NilId, UnwrapNone} \<subseteq> P"
  shows "keeps (store_sound K) P (new_child K i c)"
proof (rule keepsI)
  fix st x st'
  assume ok: "store_sound K st" and run: "new_child K i c st = (x, st')"
  show "store_sound K st' \<and> (\<forall>p. x = Panicked p \<longrightarrow> p \<in> P)"
  proof (cases "trees st i = None \<or> is_nil i \<or> is_nil c")
    case True
    with run ok assms(2) show ?thesis
      by (cases "trees st i")
        (auto simp: new_child_def get_tree_def insert_ref_def cmd_simps split: if_splits)
  next
    case False
    then obtain r where r: "trees st i = Some r" by auto
    note ref = store_sound_ref [OF ok r]
    from insert_sound [OF assms(1) ref(4,2), of c] obtain n where
      n: "tree_sound K n" "set (ids n) = insert c (set (ids (heap st ! r)))"
        "node_insert K \<lparr>ins_parent_id = Some i, ins_id = c\<rparr> (heap st ! r) = (Returned (), n)" by blast
    have "store_sound K (st\<lparr>heap := (heap st)[r := n]\<rparr>)"
      using store_sound_replace [OF ok ref(1) n(1)] n(2) by auto
    from store_sound_point [OF this, of r c] n(1,2) ref(1) False
    have "store_sound K (st\<lparr>trees := (trees st)(c \<mapsto> r), heap := (heap st)[r := n]\<rparr>)"
      by (cases st) (simp add: tree_sound_covers)
    with run r n(3) False show ?thesis
      by (auto simp: new_child_def get_tree_def insert_ref_def locked_def cmd_simps)
  qed
qed

lemma update_keeps:
  assumes "kind_of K s = kind i"
  shows "{NilId, MissingIdForUpdate} \<subseteq> P \<Longrightarrow> keeps (store_sound K) P (sm_update K i s)"
    and "{NilId, MissingSmTree} \<subseteq> P \<Longrightarrow> keeps (store_sound K) P (update_in_tree K i s)"
proof -
  have main: "store_sound K st' \<and> store_sound K st'' \<and>
      (x = Returned () \<or> x = Panicked NilId \<or> x = Panicked MissingIdForUpdate) \<and>
      ((\<exists>p. y = Returned p) \<or> y = Panicked NilId \<or> y = Panicked MissingSmTree)"
    if ok: "store_sound K st" and run: "sm_update K i s st = (x, st')"
      "update_in_tree K i s st = (y, st'')" for st x st' y st''
  proof (cases "trees st i = None \<or> is_nil i")
    case True
    with run ok show ?thesis
      by (auto simp: sm_update_def update_in_tree_def get_tree_def cmd_simps
          split: if_splits option.splits)
  next
    case False
    then obtain r where r: "trees st i = Some r" by auto
    note ref = store_sound_ref [OF ok r]
    from update_sound [OF ref(4,2) assms] obtain n p where
      n: "tree_sound K n" "ids n = ids (heap st ! r)"
        "node_update K \<lparr>upd_id = i, upd_state = s\<rparr> (heap st ! r) = (Returned (), n)"
        "update_and_get_parent_id K \<lparr>upd_id = i, upd_state = s\<rparr> (heap st ! r) = (Returned p, n)"
      by blast
    have "store_sound K (st\<lparr>heap := (heap st)[r := n]\<rparr>)"
      using store_sound_replace [OF ok ref(1) n(1)] n(2) by simp
    with run r n(3,4) False show ?thesis
      by (auto simp: sm_update_def update_in_tree_def get_tree_def locked_def cmd_simps)
  qed
  show "keeps (store_sound K) P (sm_update K i s)" if "{NilId, MissingIdForUpdate} \<subseteq> P"
  proof (rule keepsI)
    fix st x st'
    assume ok: "store_sound K st" and run: "sm_update K i s st = (x, st')"
    obtain y st'' where "update_in_tree K i s st = (y, st'')" by fastforce
    from main [OF ok run this] that show "store_sound K st' \<and> (\<forall>p. x = Panicked p \<longrightarrow> p \<in> P)" by auto
  qed
  show "keeps (store_sound K) P (update_in_tree K i s)" if "{NilId, MissingSmTree} \<subseteq> P"
  proof (rule keepsI)
    fix st y st''
    assume ok: "store_sound K st" and run: "update_in_tree K i s st = (y, st'')"
    obtain x st' where "sm_update K i s st = (x, st')" by fastforce
    from main [OF ok this run] that show "store_sound K st'' \<and> (\<forall>p. y = Panicked p \<longrightarrow> p \<in> P)" by auto
  qed
qed

lemma remove_keeps [keeps_rules]: "NilId \<in> P \<Longrightarrow> keeps (store_sound K) P (remove_ref i)"
  unfolding remove_ref_def by (intro keeps_rules) (auto simp: store_sound_def)

lemma read_keeps [keeps_rules]:
  assumes "NilId \<in> P"
  shows "keeps (store_sound K) P (read_state i)" and "keeps (store_sound K) P (has_tree i)"
    and "keeps (store_sound K) P (read_parent_id i)"
proof -
  show "keeps (store_sound K) P (has_tree i)"
    unfolding has_tree_def by (intro keeps_rules assms)
  show "keeps (store_sound K) P (read_state i)"
  proof (rule keepsI)
    fix st x st'
    assume ok: "store_sound K st" and run: "read_state i st = (x, st')"
    show "store_sound K st' \<and> (\<forall>p. x = Panicked p \<longrightarrow> p \<in> P)"
    proof (cases "trees st i")
      case None
      with ok run assms show ?thesis
        by (auto simp: read_state_def get_tree_def cmd_simps split: if_splits)
    next
      case (Some r)
      with ok run read_sound [OF store_sound_ref(4,2) [OF ok Some]] store_sound_ref [OF ok Some]
      show ?thesis by (auto simp: read_state_def get_tree_def cmd_simps locked_read)
    qed
  qed
  show "keeps (store_sound K) P (read_parent_id i)"
  proof (rule keepsI)
    fix st x st'
    assume ok: "store_sound K st" and run: "read_parent_id i st = (x, st')"
    show "store_sound K st' \<and> (\<forall>p. x = Panicked p \<longrightarrow> p \<in> P)"
    proof (cases "trees st i")
      case None
      with ok run assms show ?thesis
        by (auto simp: read_parent_id_def get_tree_def cmd_simps split: if_splits)
    next
      case (Some r)
      from get_parent_id_sound [OF store_sound_ref(4) [OF ok Some]] obtain p where
        "get_parent_id (heap st ! r) i = Returned p" by blast
      with Some ok run store_sound_ref [OF ok Some] show ?thesis
        by (auto simp: read_parent_id_def get_tree_def cmd_simps locked_read)
    qed
  qed
qed

lemma read_state_kind:
  assumes "store_sound K st" and "read_state i st = (Returned (Some s), st')"
  shows "kind_of K s = kind i"
proof (cases "trees st i")
  case None
  with assms(2) show ?thesis by (simp add: read_state_def get_tree_def cmd_simps split: if_splits)
next
  case (Some r)
  with assms(2) read_sound [OF store_sound_ref(4,2) [OF assms(1) Some]]
    store_sound_ref [OF assms(1) Some]
  show ?thesis by (auto simp: read_state_def get_tree_def cmd_simps locked_read)
qed

section \<open>The world\<close>

definition world_sound ::
  "('k, 's, 'i, 'r, 'm, 't) rex \<Rightarrow> ('k, 's, 'i, 'm, 'u) world \<Rightarrow> bool" where
  "world_sound R w \<longleftrightarrow> store_sound R (state_store w)"

lemma world_new_sound [simp]: "world_sound R (world_new t u)"
  by (simp add: world_sound_def store_new_sound)

lemma world_sound_frame [simp]:
  "world_sound R (w\<lparr>signal_queue := q\<rparr>) = world_sound R w"
  "world_sound R (w\<lparr>notification_queue := nq\<rparr>) = world_sound R w"
  "world_sound R (w\<lparr>user := u\<rparr>) = world_sound R w"
  "world_sound R (w\<lparr>now := t\<rparr>) = world_sound R w"
  by (simp_all add: world_sound_def)

lemma on_store_keeps [keeps_rules]:
  assumes "keeps (store_sound R) P m"
  shows "keeps (world_sound R) P (on_store m)"
proof (rule keepsI)
  fix w x w'
  assume "world_sound R w" and run: "on_store m w = (x, w')"
  moreover obtain y st where "m (state_store w) = (y, st)" by fastforce
  ultimately show "world_sound R w' \<and> (\<forall>p. x = Panicked p \<longrightarrow> p \<in> P)"
    using keepsD [OF assms] by (fastforce simp: cmd_simps world_sound_def)
qed

lemma ctx_keeps [keeps_rules]:
  "keeps (world_sound R) P (ctx_notify m)"
  "keeps (world_sound R) P (signal_self i x)"
  "keeps (world_sound R) P (signal_to i x)"
  "keeps (world_sound R) P (signal_state_change R i s)"
  "keeps (world_sound R) P (priority_notify m)"
  "keeps (world_sound R) P (cancel_timeout R i)"
  by (auto simp: keeps_def ctx_defs cmd_simps split: option.splits)

lemma request_keeps [keeps_rules]:
  assumes "InstantOverflow \<in> P"
  shows "keeps (world_sound R) P (set_timeout R i d)"
    and "keeps (world_sound R) P (return_in R i v d)"
  using assms
  by (auto simp: keeps_def set_timeout_def return_in_def priority_notify_def cmd_simps
      request_set_timeout_def request_retain_def from_duration_def instant_add_def split: if_splits)

lemma ctx_read_keeps [keeps_rules]:
  assumes "NilId \<in> P"
  shows "keeps (world_sound R) P (ctx_get_state i)"
    and "keeps (world_sound R) P (ctx_has_state i)"
    and "keeps (world_sound R) P (ctx_get_parent_id i)"
    and "keeps (world_sound R) P (ctx_has_parent i)"
  unfolding ctx_get_state_def ctx_has_state_def ctx_get_parent_id_def ctx_has_parent_def
  by (intro keeps_rules assms)+

lemma update_state_and_signal_keeps:
  assumes "kind_of R s = kind i" and "{NilId, MissingSmTree} \<subseteq> P"
  shows "keeps (world_sound R) P (update_state_and_signal R i s)"
proof -
  have "keeps (world_sound R) P (case p of Some p \<Rightarrow> seqc (signal_state_change R p s) (ret (Some p)) | None \<Rightarrow> ret None)" for p
    by (cases p) (auto intro: keeps_rules)
  with update_keeps(2) [OF assms] show ?thesis
    unfolding update_state_and_signal_def by (intro keeps_rules)
qed

lemma fail_complete_keeps [keeps_rules]:
  assumes "lawful_kind R" and "{NilId, MissingSmTree} \<subseteq> P"
  shows "keeps (world_sound R) P (sm_fail R i)" and "keeps (world_sound R) P (sm_complete R i)"
  unfolding sm_fail_def sm_complete_def
  using assms by (simp_all add: update_state_and_signal_keeps lawful_kind.kind_of_failed
      lawful_kind.kind_of_completed)

lemma ctx_get_state_kind:
  "world_sound R w \<Longrightarrow> ctx_get_state i w = (Returned (Some s), w') \<Longrightarrow> kind_of R s = kind i"
  using read_state_kind [of R "state_store w" i s]
  by (auto simp: ctx_get_state_def cmd_simps world_sound_def split: prod.splits)

end
