(* ===== verification/Rex_Game.thy ===== *)
theory Rex_Game
  imports Rex_View Rex_Sound
begin

text \<open>
  The three machines of the tests in \<open>src/manager.rs\<close>: a menu that starts a ping and a pong
  child, which exchange a packet until its counter is high enough. They are the crate's own
  use of every operation a machine has, run here through the model of the manager.
\<close>

section \<open>State of the menu machine and the source of random ids\<close>

text \<open>
  \<open>failures\<close> is the menu machine's \<open>DashMap\<close>; \<open>v4s\<close> and \<open>v4_next\<close> are the ids that
  successive calls of \<open>Uuid::new_v4\<close> return and how many were made.
\<close>

record game_user =
  failures :: "game state_id \<rightharpoonup> menu_input"
  v4s :: "nat \<Rightarrow> uuid"
  v4_next :: nat

type_synonym game_world = "(game, game_state, game_input, game_msg, game_user) world"

definition game_new_rand :: "game \<Rightarrow> (game_world, game state_id) cmd" where
  "game_new_rand k =
     bindc (gets (\<lambda>w. state_id_new_rand k (v4s (user w) (v4_next (user w))))) (\<lambda>i.
     seqc (modifies (\<lambda>w. w\<lparr>user := (user w)\<lparr>v4_next := Suc (v4_next (user w))\<rparr>\<rparr>)) (ret i))"

definition test_timeout :: duration where
  "test_timeout = duration_from_millis 11"

section \<open>The menu\<close>

text \<open>The closure of the failure branch: fail the node's state and cancel its timeout.\<close>

definition fail_node ::
  "(game, game_state) state_zipper \<Rightarrow> (game_msg deque, (game, game_state) state_node) cmd" where
  "fail_node z =
     (let z' = set_state (failed_state game_rex (kind_of game_rex (node_state (znode z)))) z;
          i = node_id (znode z')
      in seqc (modifies (nq_priority_send (from_timeout game_rex (request_cancel_timeout i))))
           (lift_outcome (finish_update z')))"

text \<open>\<open>tree.lock().update_all_fn(..)\<close> with a closure that sends notifications.\<close>

definition fail_tree :: "tree_ref \<Rightarrow> (game_world, unit) cmd" where
  "fail_tree r = (\<lambda>w.
     case update_all_fn game_rex fail_node (notification_queue w, heap (state_store w) ! r) of
       (x, nq, n) \<Rightarrow>
         (x, w\<lparr>notification_queue := nq,
               state_store := (state_store w)\<lparr>heap := (heap (state_store w))[r := n]\<rparr>\<rparr>))"

definition menu_process :: "game state_id \<Rightarrow> game_input \<Rightarrow> (game_world, unit) cmd" where
  "menu_process i input = (case input of
     Input_Menu inp \<Rightarrow>
       bindc (ctx_get_state i) (\<lambda>s.
         if map_option (is_terminal game_rex) s = Some True then ret ()
         else (case inp of
           Play who \<Rightarrow>
             bindc (game_new_rand Ping) (\<lambda>ping_id.
             bindc (game_new_rand Pong) (\<lambda>pong_id.
             seqc (on_store (create_tree game_rex i))
             (seqc (on_store (new_child game_rex i ping_id))
             (seqc (on_store (new_child game_rex i pong_id))
               (signal_to ping_id (Input_Ping (StartSending pong_id who)))))))
         | PingPongComplete \<Rightarrow> seqc (sm_complete game_rex i) (ret ())
         | failure \<Rightarrow>
             bindc (on_store (get_tree i)) (\<lambda>t.
             bindc (lift_outcome (unwrap UnwrapNone t)) (\<lambda>r.
             seqc (fail_tree r)
               (modifies (\<lambda>w. w\<lparr>user := (user w)\<lparr>failures := (failures (user w))(i \<mapsto> failure)\<rparr>\<rparr>))))))
   | _ \<Rightarrow> ret ())"

section \<open>Ping and pong\<close>

definition return_packet :: "game state_id \<Rightarrow> packet \<Rightarrow> (game_world, unit) cmd" where
  "return_packet i p =
     (let recipient = sender p; p' = p\<lparr>sender := i\<rparr> in
      case kind i of
        Ping \<Rightarrow> signal_to recipient (Input_Pong (Pong_Packet p'))
      | Pong \<Rightarrow> signal_to recipient (Input_Ping (Ping_Packet p'))
      | Menu \<Rightarrow> panicking Unreachable)"

text \<open>\<open>+=\<close> on a \<open>u64\<close>, with the overflow check of the profile the tests are built with.\<close>

definition add_u64 :: "u64 \<Rightarrow> u64 \<Rightarrow> u64 outcome" where
  "add_u64 a b = (if unat a + unat b < 2 ^ 64 then Returned (a + b) else Panicked AddOverflow)"

lemma add_u64_5 [simp]:
  "unat a < 18446744073709551611 \<Longrightarrow> add_u64 a 5 = Returned (a + 5)"
  "\<not> 20 \<le> a \<Longrightarrow> add_u64 a 5 = Returned (a + 5)" "\<not> 25 \<le> a \<Longrightarrow> add_u64 a 5 = Returned (a + 5)"
  by (simp_all add: add_u64_def word_le_nat_alt)

lemma add_u64_keeps [keeps_rules]:
  "keeps I P (lift_outcome (Returned x))"
  "AddOverflow \<in> P \<Longrightarrow> keeps I P (lift_outcome (add_u64 a b))"
  by (simp_all add: keeps_def add_u64_def lift_outcome_def)

definition ping_input_step :: "game state_id \<Rightarrow> ping_input \<Rightarrow> (game_world, unit) cmd" where
  "ping_input_step i inp = (case inp of
     StartSending pong_id who \<Rightarrow>
       seqc (on_store (sm_update game_rex i (State_Ping Ping_Sending)))
         (signal_to pong_id (Input_Pong (Pong_Packet \<lparr>msg = 0, sender = i, who_holds = who\<rparr>)))
   | Ping_Packet p \<Rightarrow>
       if 25 \<le> msg p then seqc (sm_complete game_rex i) (cancel_timeout game_rex i)
       else seqc (set_timeout game_rex i test_timeout)
         (bindc (lift_outcome (add_u64 (msg p) 5)) (\<lambda>m.
          let p' = p\<lparr>msg := m\<rparr> in
          if who_holds p' = Some Ping
          then return_in game_rex i p' (duration_from_millis (msg p'))
          else return_packet i p'))
   | Ping_Returned p \<Rightarrow>
       seqc (set_timeout game_rex i test_timeout) (return_packet i p)
   | Ping_RecvTimeout t \<Rightarrow> seqc (sm_fail game_rex i) (ret ()))"

definition ping_process :: "game state_id \<Rightarrow> game_input \<Rightarrow> (game_world, unit) cmd" where
  "ping_process i input = (case input of
     Input_Ping inp \<Rightarrow>
       bindc (ctx_get_parent_id i) (\<lambda>p.
       seqc (assert_cmd AssertionFailed (p \<noteq> None))
       (bindc (ctx_get_state i) (\<lambda>s.
       bindc (lift_outcome (unwrap UnwrapNone s)) (\<lambda>st.
         if is_terminal game_rex st then ret () else ping_input_step i inp))))
   | _ \<Rightarrow> ret ())"

definition pong_input_step :: "game state_id \<Rightarrow> pong_input \<Rightarrow> (game_world, unit) cmd" where
  "pong_input_step i inp = (case inp of
     Pong_Packet p \<Rightarrow>
       if 20 \<le> msg p
       then bindc (lift_outcome (add_u64 (msg p) 5)) (\<lambda>m.
         seqc (sm_complete game_rex i)
         (seqc (cancel_timeout game_rex i)
           (signal_to (sender p)
             (Input_Ping (Ping_Packet \<lparr>msg = m, sender = i, who_holds = who_holds p\<rparr>)))))
       else seqc (set_timeout game_rex i test_timeout)
         (seqc (if msg p = 0 then on_store (sm_update game_rex i (State_Pong Pong_Responding)) else ret ())
         (bindc (lift_outcome (add_u64 (msg p) 5)) (\<lambda>m.
          let p' = p\<lparr>msg := m\<rparr> in
          if who_holds p' = Some Pong
          then return_in game_rex i p' (duration_from_millis (msg p'))
          else return_packet i p')))
   | Pong_Returned p \<Rightarrow>
       seqc (set_timeout game_rex i test_timeout) (return_packet i p)
   | Pong_RecvTimeout t \<Rightarrow> seqc (sm_fail game_rex i) (ret ()))"

definition pong_process :: "game state_id \<Rightarrow> game_input \<Rightarrow> (game_world, unit) cmd" where
  "pong_process i input = (case input of
     Input_Pong inp \<Rightarrow>
       bindc (ctx_get_state i) (\<lambda>s.
       bindc (lift_outcome (unwrap UnwrapNone s)) (\<lambda>st.
         if is_terminal game_rex st then ret ()
         else bindc (ctx_get_parent_id i) (\<lambda>p.
           seqc (assert_cmd AssertionFailed (p \<noteq> None)) (pong_input_step i inp))))
   | _ \<Rightarrow> ret ())"

definition menu_machine :: "(game, game_input, game_world) machine" where
  "menu_machine = \<lparr>sm_process = menu_process, sm_kind = Menu\<rparr>"

definition ping_machine :: "(game, game_input, game_world) machine" where
  "ping_machine = \<lparr>sm_process = ping_process, sm_kind = Ping\<rparr>"

definition pong_machine :: "(game, game_input, game_world) machine" where
  "pong_machine = \<lparr>sm_process = pong_process, sm_kind = Pong\<rparr>"

lemmas machine_defs = menu_machine_def ping_machine_def pong_machine_def

definition game_machine_list :: "(game, game_input, game_world) machine list" where
  "game_machine_list = [menu_machine, ping_machine, pong_machine]"

definition game_machines :: "(game, game_input, game_world) machines" where
  "game_machines = collect_machines game_machine_list"

lemma game_machines_new: "manager_new game_machine_list = Returned game_machines"
  by (simp add: manager_new_def game_machine_list_def machine_defs game_machines_def)

lemma game_machines_simps [simp]:
  "game_machines Menu = Some \<lparr>sm_process = menu_process, sm_kind = Menu\<rparr>"
  "game_machines Ping = Some \<lparr>sm_process = ping_process, sm_kind = Ping\<rparr>"
  "game_machines Pong = Some \<lparr>sm_process = pong_process, sm_kind = Pong\<rparr>"
  by (simp_all add: game_machines_def collect_machines_def game_machine_list_def machine_defs insert_machine_def)

section \<open>Running a game\<close>

definition game_start :: "instant \<Rightarrow> (nat \<Rightarrow> uuid) \<Rightarrow> game state_id \<Rightarrow> who_holds \<Rightarrow> game_world" where
  "game_start t vs menu_id who =
     snd (signal_to menu_id (Input_Menu (Play who))
       (world_new t \<lparr>failures = Map.empty, v4s = vs, v4_next = 0\<rparr>))"

section \<open>Failing a whole tree\<close>

definition fail_state :: "'i \<Rightarrow> game_state \<Rightarrow> game_state" where
  "fail_state i s = game_failed_state (game_as_ref s)"

definition cancel_for :: "game state_id \<Rightarrow> game_msg" where
  "cancel_for i = GameMsg (request_cancel_timeout i)"

lemma fail_node_apply:
  "fail_node (node_zipper m) nq =
    (Returned (set_node_state (fail_state (node_id m) (node_state m)) m),
     nq_priority_send (cancel_for (node_id m)) nq)"
  by (simp add: fail_node_def Let_def set_state_def cmd_simps fail_state_def cancel_for_def)
    (simp add: node_zipper_def)

lemma fail_tree_apply:
  "fail_tree r w = (Returned (), w\<lparr>
     notification_queue := fold (\<lambda>i. nq_priority_send (cancel_for i))
       (post_order (heap (state_store w) ! r)) (notification_queue w),
     state_store := (state_store w)\<lparr>heap := (heap (state_store w))
       [r := map_states fail_state (heap (state_store w) ! r)]\<rparr>\<rparr>)"
  using finish_update_fn_states [of fail_node fail_state "\<lambda>i. nq_priority_send (cancel_for i)",
      OF fail_node_apply]
  by (simp add: fail_tree_def update_all_fn_def)

section \<open>Every run is sound\<close>

definition game_panics :: "panic set" where
  "game_panics = {NilId, UnwrapNone, MissingSmTree, MissingIdForUpdate, InstantOverflow, AddOverflow, AssertionFailed}"

abbreviation game_sound :: "game_world \<Rightarrow> bool" where
  "game_sound \<equiv> world_sound game_rex"

lemma fail_tree_keeps [keeps_rules]: "keeps game_sound P (fail_tree r)"
proof (rule keepsI)
  fix w :: game_world and x w'
  assume ok: "game_sound w" and run: "fail_tree r w = (x, w')"
  let ?st = "state_store w"
  let ?n = "map_states fail_state (heap ?st ! r)"
  have "store_sound game_rex (?st\<lparr>heap := (heap ?st)[r := ?n]\<rparr>)"
  proof (cases "r < length (heap ?st)")
    case True
    with ok have "tree_sound game_rex (heap ?st ! r)" by (simp add: world_sound_def store_sound_def)
    then have "tree_sound game_rex ?n"
      by (rule map_states_sound) (simp add: fail_state_def game_kind.kind_of_failed [simplified])
    from store_sound_replace [OF _ True this] ok show ?thesis by (simp add: world_sound_def)
  next
    case False
    with ok show ?thesis by (simp add: world_sound_def list_update_beyond)
  qed
  with run show "game_sound w' \<and> (\<forall>p. x = Panicked p \<longrightarrow> p \<in> P)"
    by (auto simp: fail_tree_apply world_sound_def)
qed

lemma game_new_rand_keeps [keeps_rules]: "keeps game_sound P (game_new_rand k)"
  unfolding game_new_rand_def by (intro keeps_rules) simp

lemma menu_process_keeps: "keeps game_sound game_panics (menu_process i x)"
  unfolding menu_process_def
  by (cases x; simp; (rule keeps_ret)?)
    (auto split: menu_input.splits intro!: keeps_rules game_kind.lawful_kind_axioms simp: game_panics_def)

lemma return_packet_keeps [keeps_rules]:
  "kind i \<noteq> Menu \<Longrightarrow> keeps game_sound P (return_packet i p)"
  unfolding return_packet_def by (cases "kind i") (simp_all add: Let_def keeps_rules)

lemma ping_process_keeps:
  assumes "kind i = Ping"
  shows "keeps game_sound game_panics (ping_process i x)"
proof -
  have "keeps game_sound game_panics (ping_input_step i y)" for y
    unfolding ping_input_step_def Let_def using assms
    by (cases y) (auto intro!: keeps_rules game_kind.lawful_kind_axioms
        simp: game_panics_def update_keeps(1))
  then show ?thesis
    unfolding ping_process_def
    by (cases x) (auto intro!: keeps_rules simp: game_panics_def)
qed

lemma pong_process_keeps:
  assumes "kind i = Pong"
  shows "keeps game_sound game_panics (pong_process i x)"
proof -
  have "keeps game_sound game_panics (pong_input_step i y)" for y
    unfolding pong_input_step_def Let_def using assms
    by (cases y) (auto intro!: keeps_rules game_kind.lawful_kind_axioms
        simp: game_panics_def update_keeps(1))
  then show ?thesis
    unfolding pong_process_def
    by (cases x) (auto intro!: keeps_rules simp: game_panics_def)
qed

interpretation game_run: keeping_machines game_machines game_sound game_panics
proof
  fix w :: game_world and q
  assume "game_sound w"
  then show "game_sound (w\<lparr>signal_queue := q\<rparr>)" by simp
next
  fix w :: game_world and t
  assume "game_sound w"
  then show "game_sound (w\<lparr>now := t\<rparr>)" by simp
next
  fix i :: "game state_id" and sm :: "(game, game_input, game_world) machine" and x
  assume "game_machines (kind i) = Some sm"
  then show "keeps game_sound game_panics (sm_process sm i x)"
    by (cases "kind i") (auto simp: menu_process_keeps ping_process_keeps pong_process_keeps)
qed

section \<open>What each machine does to the view\<close>

type_synonym game_view = "(game, game_state, game_input, game_msg, game_user) view"

lemma terminal_game_states [simp]:
  "is_terminal game_rex (State_Ping s) \<longleftrightarrow> s = Ping_Done \<or> s = Ping_Failed"
  "is_terminal game_rex (State_Pong t) \<longleftrightarrow> t = Pong_Done \<or> t = Pong_Failed"
  "is_terminal game_rex (State_Menu m) \<longleftrightarrow> m = Menu_Done \<or> m = Menu_Failed"
  by (auto simp: is_terminal_def Let_def)

lemma dispatch_game:
  "kind i = Menu \<Longrightarrow> dispatch game_machines \<lparr>sig_id = i, sig_input = x\<rparr> = menu_process i x"
  "kind i = Ping \<Longrightarrow> dispatch game_machines \<lparr>sig_id = i, sig_input = x\<rparr> = ping_process i x"
  "kind i = Pong \<Longrightarrow> dispatch game_machines \<lparr>sig_id = i, sig_input = x\<rparr> = pong_process i x"
  by (simp_all add: dispatch_def)

lemma test_timeout_nanos: "duration_nanos test_timeout = 11000000"
  by (simp add: test_timeout_def duration_nanos_from_millis)

abbreviation set_msg :: "game state_id \<Rightarrow> instant \<Rightarrow> game_msg" where
  "set_msg i t \<equiv> GameMsg \<lparr>req_id = i, req_op = Set t\<rparr>"

abbreviation cancel_msg :: "game state_id \<Rightarrow> game_msg" where
  "cancel_msg i \<equiv> GameMsg \<lparr>req_id = i, req_op = Cancel\<rparr>"

lemma ping_process_step:
  assumes "\<not> is_nil i" and "v_parents a i = Some m" and "v_states a i = Some st"
    and "\<not> is_terminal game_rex st" and "effect shows_view (ping_input_step i x) a () a'"
  shows "effect shows_view (ping_process i (Input_Ping x)) a () a'"
  unfolding ping_process_def game_input.simps
  using assms(2-4) by - (rule effect_rules assms(1,5) | simp)+

lemma pong_process_step:
  assumes "\<not> is_nil i" and "v_parents a i = Some m" and "v_states a i = Some st"
    and "\<not> is_terminal game_rex st" and "effect shows_view (pong_input_step i x) a () a'"
  shows "effect shows_view (pong_process i (Input_Pong x)) a () a'"
  unfolding pong_process_def game_input.simps
  using assms(2-4) by - (rule effect_rules assms(1,5) | simp)+

lemma return_packet_effect:
  "kind i = Ping \<Longrightarrow> effect shows_view (return_packet i p) a () (a\<lparr>v_back := v_back a @
     [\<lparr>sig_id = sender p, sig_input = Input_Pong (Pong_Packet (p\<lparr>sender := i\<rparr>))\<rparr>]\<rparr>)"
  "kind i = Pong \<Longrightarrow> effect shows_view (return_packet i p) a () (a\<lparr>v_back := v_back a @
     [\<lparr>sig_id = sender p, sig_input = Input_Ping (Ping_Packet (p\<lparr>sender := i\<rparr>))\<rparr>]\<rparr>)"
  by (simp_all add: return_packet_def Let_def effect_rules)

lemma ping_packet_pass:
  assumes "kind i = Ping" and "msg p < 25" and "who_holds p \<noteq> Some Ping"
    and "v_now a + 11000000 < instant_limit"
  shows "effect shows_view (ping_input_step i (Ping_Packet p)) a ()
    (a\<lparr>v_urgent := v_urgent a @ [set_msg i (v_now a + 11000000)],
       v_back := v_back a @ [\<lparr>sig_id = sender p,
         sig_input = Input_Pong (Pong_Packet (p\<lparr>msg := msg p + 5, sender := i\<rparr>))\<rparr>]\<rparr>)"
  unfolding ping_input_step_def ping_input.simps Let_def using assms
  by - (rule effect_eq, (rule effect_rules return_packet_effect(1) | simp add: test_timeout_nanos not_le [symmetric])+)

lemma ping_packet_hold:
  assumes "msg p < 25" and "who_holds p = Some Ping"
    and "v_now a + max 11000000 (unat (msg p + 5) * 1000000) < instant_limit"
  shows "effect shows_view (ping_input_step i (Ping_Packet p)) a ()
    (a\<lparr>v_urgent := v_urgent a @ [set_msg i (v_now a + 11000000),
       GameMsg \<lparr>req_id = i, req_op =
         Retain (p\<lparr>msg := msg p + 5\<rparr>) (v_now a + unat (msg p + 5) * 1000000)\<rparr>]\<rparr>)"
  unfolding ping_input_step_def ping_input.simps Let_def using assms
  by - (rule effect_eq, (rule effect_rules | simp add: test_timeout_nanos duration_nanos_from_millis not_le [symmetric])+)

lemma ping_packet_done:
  assumes "25 \<le> msg p" and "v_states a i = Some s" and "kind i = Ping"
  shows "effect shows_view (ping_input_step i (Ping_Packet p)) a ()
    (a\<lparr>v_states := (v_states a)(i \<mapsto> State_Ping Ping_Done),
       v_back := v_back a @ parent_signals game_rex (v_parents a i) (State_Ping Ping_Done),
       v_urgent := v_urgent a @ [cancel_msg i]\<rparr>)"
  unfolding ping_input_step_def ping_input.simps using assms
  by - (rule effect_eq, (rule effect_rules assms(2) | simp add: request_cancel_timeout_def)+)

lemma ping_start:
  assumes "v_states a i = Some s"
  shows "effect shows_view (ping_input_step i (StartSending j who)) a ()
    (a\<lparr>v_states := (v_states a)(i \<mapsto> State_Ping Ping_Sending),
       v_back := v_back a @ [\<lparr>sig_id = j,
         sig_input = Input_Pong (Pong_Packet \<lparr>msg = 0, sender = i, who_holds = who\<rparr>)\<rparr>]\<rparr>)"
  unfolding ping_input_step_def ping_input.simps using assms
  by - (rule effect_eq, (rule effect_rules assms | simp)+)

lemma ping_returned:
  assumes "kind i = Ping" and "v_now a + 11000000 < instant_limit"
  shows "effect shows_view (ping_input_step i (Ping_Returned p)) a ()
    (a\<lparr>v_urgent := v_urgent a @ [set_msg i (v_now a + 11000000)],
       v_back := v_back a @ [\<lparr>sig_id = sender p,
         sig_input = Input_Pong (Pong_Packet (p\<lparr>sender := i\<rparr>))\<rparr>]\<rparr>)"
  unfolding ping_input_step_def ping_input.simps using assms
  by - (rule effect_eq, (rule effect_rules return_packet_effect(1) | simp add: test_timeout_nanos)+)

lemma ping_timed_out:
  assumes "v_states a i = Some s" and "kind i = Ping"
  shows "effect shows_view (ping_input_step i (Ping_RecvTimeout t)) a ()
    (a\<lparr>v_states := (v_states a)(i \<mapsto> State_Ping Ping_Failed),
       v_back := v_back a @ parent_signals game_rex (v_parents a i) (State_Ping Ping_Failed)\<rparr>)"
  unfolding ping_input_step_def ping_input.simps using assms
  by - (rule effect_eq, (rule effect_rules assms(1) | simp)+)

lemma pong_packet_pass:
  assumes "kind i = Pong" and "msg p < 20" and "who_holds p \<noteq> Some Pong"
    and "v_now a + 11000000 < instant_limit" and "v_states a i = Some s"
  shows "effect shows_view (pong_input_step i (Pong_Packet p)) a ()
    (a\<lparr>v_urgent := v_urgent a @ [set_msg i (v_now a + 11000000)],
       v_states := (if msg p = 0 then (v_states a)(i \<mapsto> State_Pong Pong_Responding) else v_states a),
       v_back := v_back a @ [\<lparr>sig_id = sender p,
         sig_input = Input_Ping (Ping_Packet (p\<lparr>msg := msg p + 5, sender := i\<rparr>))\<rparr>]\<rparr>)"
  unfolding pong_input_step_def pong_input.simps Let_def using assms
  by (cases "msg p = 0")
    (rule effect_eq, (rule effect_rules return_packet_effect(2) | simp add: test_timeout_nanos not_le [symmetric])+)+

lemma pong_packet_done:
  assumes "20 \<le> msg p" and "unat (msg p) + 5 < 2 ^ 64" and "v_states a i = Some s" and "kind i = Pong"
  shows "effect shows_view (pong_input_step i (Pong_Packet p)) a ()
    (a\<lparr>v_states := (v_states a)(i \<mapsto> State_Pong Pong_Done),
       v_back := v_back a @ parent_signals game_rex (v_parents a i) (State_Pong Pong_Done) @
         [\<lparr>sig_id = sender p, sig_input =
           Input_Ping (Ping_Packet \<lparr>msg = msg p + 5, sender = i, who_holds = who_holds p\<rparr>)\<rparr>],
       v_urgent := v_urgent a @ [cancel_msg i]\<rparr>)"
  unfolding pong_input_step_def pong_input.simps using assms
  by - (rule effect_eq, (rule effect_rules assms(2) | simp add: request_cancel_timeout_def)+)

lemma pong_timed_out:
  assumes "v_states a i = Some s" and "kind i = Pong"
  shows "effect shows_view (pong_input_step i (Pong_RecvTimeout t)) a ()
    (a\<lparr>v_states := (v_states a)(i \<mapsto> State_Pong Pong_Failed),
       v_back := v_back a @ parent_signals game_rex (v_parents a i) (State_Pong Pong_Failed)\<rparr>)"
  unfolding pong_input_step_def pong_input.simps using assms
  by - (rule effect_eq, (rule effect_rules assms(1) | simp)+)

lemma game_new_rand_effect:
  "effect shows_view (game_new_rand k) a (state_id_new_rand k (v4s (v_user a) (v4_next (v_user a))))
    (a\<lparr>v_user := (v_user a)\<lparr>v4_next := Suc (v4_next (v_user a))\<rparr>\<rparr>)"
  by (auto simp: effect_def game_new_rand_def cmd_simps shows_view_def view_of_def world_wf_def)

lemma menu_play:
  fixes a :: game_view
  defines "ping \<equiv> \<lparr>kind = Ping, uuid = v4s (v_user a) (v4_next (v_user a))\<rparr>"
    and "pong \<equiv> \<lparr>kind = Pong, uuid = v4s (v_user a) (Suc (v4_next (v_user a)))\<rparr>"
  assumes "kind i = Menu" and "\<not> is_nil i" and "\<not> is_nil ping" and "\<not> is_nil pong"
    and "v_states a i = None" and "v_states a ping = None" and "v_states a pong = None"
  shows "effect shows_view (menu_process i (Input_Menu (Play who))) a ()
    (a\<lparr>v_states := (v_states a)(i \<mapsto> State_Menu Menu_Ready, ping \<mapsto> State_Ping Ping_Ready,
         pong \<mapsto> State_Pong Pong_Ready),
       v_parents := (v_parents a)(ping \<mapsto> i, pong \<mapsto> i),
       v_user := (v_user a)\<lparr>v4_next := Suc (Suc (v4_next (v_user a)))\<rparr>,
       v_back := v_back a @ [\<lparr>sig_id = ping, sig_input = Input_Ping (StartSending pong who)\<rparr>]\<rparr>)"
proof -
  have ne: "ping \<noteq> i" "pong \<noteq> i" "ping \<noteq> pong" using assms(1-3) by auto
  have ids: "state_id_new_rand Ping (v4s (v_user a) (v4_next (v_user a))) = ping"
    "state_id_new_rand Pong (v4s (v_user a) (Suc (v4_next (v_user a)))) = pong"
    by (simp_all add: ping_def pong_def state_id_new_rand_def)
  have kinds: "kind ping = Ping" "kind pong = Pong" by (simp_all add: ping_def pong_def)
  show ?thesis
    unfolding menu_process_def game_input.simps menu_input.simps
    using assms(3-) ne kinds
    by - (rule effect_eq, (rule effect_rules game_new_rand_effect
      | simp add: ids fun_upd_twist del: state_id.equality)+)
qed

lemma menu_complete:
  assumes "v_states a i = Some (State_Menu Menu_Ready)" and "kind i = Menu" and "\<not> is_nil i"
  shows "effect shows_view (menu_process i (Input_Menu PingPongComplete)) a ()
    (a\<lparr>v_states := (v_states a)(i \<mapsto> State_Menu Menu_Done),
       v_back := v_back a @ parent_signals game_rex (v_parents a i) (State_Menu Menu_Done)\<rparr>)"
  unfolding menu_process_def game_input.simps menu_input.simps using assms
  by - (rule effect_eq, (rule effect_rules assms(1) | simp)+)

section \<open>A whole game\<close>

text \<open>
  The view in the middle of a game between the ids \<open>\<lparr>Menu, m\<rparr>\<close>, \<open>\<lparr>Ping, u\<rparr>\<close> and
  \<open>\<lparr>Pong, v\<rparr>\<close>: the states of the three, the timeout requests sent and the signals waiting.
\<close>

definition board :: "uuid \<Rightarrow> uuid \<Rightarrow> uuid \<Rightarrow> menu_state \<Rightarrow> ping_state \<Rightarrow> pong_state \<Rightarrow>
    game state_id \<Rightarrow> game_state option" where
  "board m u v ms ps qs =
     [\<lparr>kind = Menu, uuid = m\<rparr> \<mapsto> State_Menu ms, \<lparr>kind = Ping, uuid = u\<rparr> \<mapsto> State_Ping ps,
      \<lparr>kind = Pong, uuid = v\<rparr> \<mapsto> State_Pong qs]"

lemma board_simps [simp]:
  "board m u v ms ps qs \<lparr>kind = Menu, uuid = m\<rparr> = Some (State_Menu ms)"
  "board m u v ms ps qs \<lparr>kind = Ping, uuid = u\<rparr> = Some (State_Ping ps)"
  "board m u v ms ps qs \<lparr>kind = Pong, uuid = v\<rparr> = Some (State_Pong qs)"
  "(board m u v ms ps qs)(\<lparr>kind = Menu, uuid = m\<rparr> \<mapsto> State_Menu ms') = board m u v ms' ps qs"
  "(board m u v ms ps qs)(\<lparr>kind = Ping, uuid = u\<rparr> \<mapsto> State_Ping ps') = board m u v ms ps' qs"
  "(board m u v ms ps qs)(\<lparr>kind = Pong, uuid = v\<rparr> \<mapsto> State_Pong qs') = board m u v ms ps qs'"
  by (auto simp: board_def)

definition parents_of :: "uuid \<Rightarrow> uuid \<Rightarrow> uuid \<Rightarrow> game state_id \<Rightarrow> game state_id option" where
  "parents_of m u v = [\<lparr>kind = Ping, uuid = u\<rparr> \<mapsto> \<lparr>kind = Menu, uuid = m\<rparr>,
      \<lparr>kind = Pong, uuid = v\<rparr> \<mapsto> \<lparr>kind = Menu, uuid = m\<rparr>]"

lemma parents_of_simps [simp]:
  "parents_of m u v \<lparr>kind = Ping, uuid = u\<rparr> = Some \<lparr>kind = Menu, uuid = m\<rparr>"
  "parents_of m u v \<lparr>kind = Pong, uuid = v\<rparr> = Some \<lparr>kind = Menu, uuid = m\<rparr>"
  "parents_of m u v \<lparr>kind = Menu, uuid = m\<rparr> = None"
  by (auto simp: parents_of_def)

lemma parent_signals_game [simp]:
  "parent_signals game_rex (Some \<lparr>kind = Menu, uuid = m\<rparr>) (State_Ping Ping_Done) =
     [\<lparr>sig_id = \<lparr>kind = Menu, uuid = m\<rparr>, sig_input = Input_Menu PingPongComplete\<rparr>]"
  "parent_signals game_rex (Some \<lparr>kind = Menu, uuid = m\<rparr>) (State_Ping Ping_Failed) =
     [\<lparr>sig_id = \<lparr>kind = Menu, uuid = m\<rparr>, sig_input = Input_Menu FailedPing\<rparr>]"
  "parent_signals game_rex (Some \<lparr>kind = Menu, uuid = m\<rparr>) (State_Pong Pong_Failed) =
     [\<lparr>sig_id = \<lparr>kind = Menu, uuid = m\<rparr>, sig_input = Input_Menu FailedPong\<rparr>]"
  "parent_signals game_rex (Some \<lparr>kind = Menu, uuid = m\<rparr>) (State_Pong Pong_Done) = []"
  "parent_signals game_rex None s = []"
  by (simp_all add: parent_signals_def game_state_input_def)

abbreviation to_pong :: "uuid \<Rightarrow> uuid \<Rightarrow> who_holds \<Rightarrow> u64 \<Rightarrow> (game, game_input) signal" where
  "to_pong u v who x \<equiv> \<lparr>sig_id = \<lparr>kind = Pong, uuid = v\<rparr>, sig_input = Input_Pong (Pong_Packet
     \<lparr>msg = x, sender = \<lparr>kind = Ping, uuid = u\<rparr>, who_holds = who\<rparr>)\<rparr>"

abbreviation to_ping :: "uuid \<Rightarrow> uuid \<Rightarrow> who_holds \<Rightarrow> u64 \<Rightarrow> (game, game_input) signal" where
  "to_ping u v who x \<equiv> \<lparr>sig_id = \<lparr>kind = Ping, uuid = u\<rparr>, sig_input = Input_Ping (Ping_Packet
     \<lparr>msg = x, sender = \<lparr>kind = Pong, uuid = v\<rparr>, who_holds = who\<rparr>)\<rparr>"

definition in_play :: "uuid \<Rightarrow> uuid \<Rightarrow> uuid \<Rightarrow> menu_state \<Rightarrow> ping_state \<Rightarrow> pong_state \<Rightarrow>
    (game, game_input) signal list \<Rightarrow> game_msg list \<Rightarrow> instant \<Rightarrow> game_user \<Rightarrow> game_view" where
  "in_play m u v ms ps qs q N t usr =
     \<lparr>v_states = board m u v ms ps qs, v_parents = parents_of m u v, v_front = [], v_back = q,
      v_urgent = N, v_normal = [], v_now = t, v_user = usr\<rparr>"

lemma in_play_sel [simp]:
  "v_states (in_play m u v ms ps qs q N t usr) = board m u v ms ps qs"
  "v_parents (in_play m u v ms ps qs q N t usr) = parents_of m u v"
  "v_front (in_play m u v ms ps qs q N t usr) = []"
  "v_back (in_play m u v ms ps qs q N t usr) = q"
  "v_urgent (in_play m u v ms ps qs q N t usr) = N"
  "v_now (in_play m u v ms ps qs q N t usr) = t"
  "v_user (in_play m u v ms ps qs q N t usr) = usr"
  by (simp_all add: in_play_def)

lemma turn_back:
  assumes "v_front a = []" and "v_back a = sig # sigs"
    and "effect shows_view (dispatch sms sig) (a\<lparr>v_back := sigs, v_now := t\<rparr>) () a'"
  shows "leads sms [t] a a'"
proof -
  have "a\<lparr>v_front := tl (v_front a), v_back := (if v_front a = [] then tl (v_back a) else v_back a),
      v_now := t\<rparr> = a\<lparr>v_back := sigs, v_now := t\<rparr>" using assms(1,2) by (cases a) simp
  from leads_turn [where a = a and t = t and sig = sig, unfolded this] assms show ?thesis by simp
qed

lemma turn_ping:
  assumes "v_front a = []" and "v_back a = \<lparr>sig_id = i, sig_input = Input_Ping x\<rparr> # sigs"
    and "kind i = Ping" and "\<not> is_nil i" and "v_parents a i = Some m" and "v_states a i = Some st"
    and "\<not> is_terminal game_rex st"
    and "effect shows_view (ping_input_step i x) (a\<lparr>v_back := sigs, v_now := t\<rparr>) () a'"
  shows "leads game_machines [t] a a'"
  using assms(2-) by (intro turn_back [OF assms(1,2)])
    (simp add: dispatch_game ping_process_step [where m = m and st = st])

lemma turn_pong:
  assumes "v_front a = []" and "v_back a = \<lparr>sig_id = i, sig_input = Input_Pong x\<rparr> # sigs"
    and "kind i = Pong" and "\<not> is_nil i" and "v_parents a i = Some m" and "v_states a i = Some st"
    and "\<not> is_terminal game_rex st"
    and "effect shows_view (pong_input_step i x) (a\<lparr>v_back := sigs, v_now := t\<rparr>) () a'"
  shows "leads game_machines [t] a a'"
  using assms(2-) by (intro turn_back [OF assms(1,2)])
    (simp add: dispatch_game pong_process_step [where m = m and st = st])

lemma turn_menu:
  assumes "v_front a = []" and "v_back a = \<lparr>sig_id = i, sig_input = x\<rparr> # sigs" and "kind i = Menu"
    and "effect shows_view (menu_process i x) (a\<lparr>v_back := sigs, v_now := t\<rparr>) () a'"
  shows "leads game_machines [t] a a'"
  using assms by (intro turn_back) (auto simp: dispatch_game)

lemma pong_passes:
  assumes "v \<noteq> 0" and "x < 20" and "who \<noteq> Some Pong" and "t' + 11000000 < instant_limit"
    and "qs = Pong_Ready \<or> qs = Pong_Responding"
  shows "leads game_machines [t'] (in_play m u v ms ps qs [to_pong u v who x] N t usr)
    (in_play m u v ms ps (if x = 0 then Pong_Responding else qs) [to_ping u v who (x + 5)]
      (N @ [set_msg \<lparr>kind = Pong, uuid = v\<rparr> (t' + 11000000)]) t' usr)"
proof (rule turn_pong)
  show "effect shows_view (pong_input_step \<lparr>kind = Pong, uuid = v\<rparr>
      (Pong_Packet \<lparr>msg = x, sender = \<lparr>kind = Ping, uuid = u\<rparr>, who_holds = who\<rparr>))
    (in_play m u v ms ps qs [to_pong u v who x] N t usr\<lparr>v_back := [], v_now := t'\<rparr>) ()
    (in_play m u v ms ps (if x = 0 then Pong_Responding else qs) [to_ping u v who (x + 5)]
      (N @ [set_msg \<lparr>kind = Pong, uuid = v\<rparr> (t' + 11000000)]) t' usr)"
    by (rule effect_eq, rule pong_packet_pass) (use assms in \<open>auto simp: in_play_def\<close>)
qed (use assms in \<open>auto simp: is_nil_def\<close>)

lemma ping_passes:
  assumes "u \<noteq> 0" and "x < 25" and "who \<noteq> Some Ping" and "t' + 11000000 < instant_limit"
  shows "leads game_machines [t'] (in_play m u v ms Ping_Sending qs [to_ping u v who x] N t usr)
    (in_play m u v ms Ping_Sending qs [to_pong u v who (x + 5)]
      (N @ [set_msg \<lparr>kind = Ping, uuid = u\<rparr> (t' + 11000000)]) t' usr)"
proof (rule turn_ping)
  show "effect shows_view (ping_input_step \<lparr>kind = Ping, uuid = u\<rparr>
      (Ping_Packet \<lparr>msg = x, sender = \<lparr>kind = Pong, uuid = v\<rparr>, who_holds = who\<rparr>))
    (in_play m u v ms Ping_Sending qs [to_ping u v who x] N t usr\<lparr>v_back := [], v_now := t'\<rparr>) ()
    (in_play m u v ms Ping_Sending qs [to_pong u v who (x + 5)]
      (N @ [set_msg \<lparr>kind = Ping, uuid = u\<rparr> (t' + 11000000)]) t' usr)"
    by (rule effect_eq, rule ping_packet_pass) (use assms in \<open>auto simp: in_play_def\<close>)
qed (use assms in \<open>auto simp: is_nil_def\<close>)

lemma pong_ends:
  assumes "v \<noteq> 0" and "20 \<le> x" and "unat x + 5 < 2 ^ 64" and "qs = Pong_Ready \<or> qs = Pong_Responding"
  shows "leads game_machines [t'] (in_play m u v ms ps qs [to_pong u v who x] N t usr)
    (in_play m u v ms ps Pong_Done [to_ping u v who (x + 5)]
      (N @ [cancel_msg \<lparr>kind = Pong, uuid = v\<rparr>]) t' usr)"
proof (rule turn_pong)
  show "effect shows_view (pong_input_step \<lparr>kind = Pong, uuid = v\<rparr>
      (Pong_Packet \<lparr>msg = x, sender = \<lparr>kind = Ping, uuid = u\<rparr>, who_holds = who\<rparr>))
    (in_play m u v ms ps qs [to_pong u v who x] N t usr\<lparr>v_back := [], v_now := t'\<rparr>) ()
    (in_play m u v ms ps Pong_Done [to_ping u v who (x + 5)]
      (N @ [cancel_msg \<lparr>kind = Pong, uuid = v\<rparr>]) t' usr)"
    by (rule effect_eq, rule pong_packet_done) (use assms in \<open>auto simp: in_play_def\<close>)
qed (use assms in \<open>auto simp: is_nil_def\<close>)

lemma ping_ends:
  assumes "u \<noteq> 0" and "25 \<le> x"
  shows "leads game_machines [t'] (in_play m u v ms Ping_Sending qs [to_ping u v who x] N t usr)
    (in_play m u v ms Ping_Done qs [\<lparr>sig_id = \<lparr>kind = Menu, uuid = m\<rparr>, sig_input = Input_Menu PingPongComplete\<rparr>]
      (N @ [cancel_msg \<lparr>kind = Ping, uuid = u\<rparr>]) t' usr)"
proof (rule turn_ping)
  show "effect shows_view (ping_input_step \<lparr>kind = Ping, uuid = u\<rparr>
      (Ping_Packet \<lparr>msg = x, sender = \<lparr>kind = Pong, uuid = v\<rparr>, who_holds = who\<rparr>))
    (in_play m u v ms Ping_Sending qs [to_ping u v who x] N t usr\<lparr>v_back := [], v_now := t'\<rparr>) ()
    (in_play m u v ms Ping_Done qs [\<lparr>sig_id = \<lparr>kind = Menu, uuid = m\<rparr>, sig_input = Input_Menu PingPongComplete\<rparr>]
      (N @ [cancel_msg \<lparr>kind = Ping, uuid = u\<rparr>]) t' usr)"
    by (rule effect_eq, rule ping_packet_done) (use assms in \<open>auto simp: in_play_def\<close>)
qed (use assms in \<open>auto simp: is_nil_def\<close>)

lemma ping_starts:
  assumes "u \<noteq> 0"
  shows "leads game_machines [t'] (in_play m u v ms Ping_Ready qs [\<lparr>sig_id = \<lparr>kind = Ping, uuid = u\<rparr>,
        sig_input = Input_Ping (StartSending \<lparr>kind = Pong, uuid = v\<rparr> who)\<rparr>] N t usr)
    (in_play m u v ms Ping_Sending qs [to_pong u v who 0] N t' usr)"
proof (rule turn_ping)
  show "effect shows_view (ping_input_step \<lparr>kind = Ping, uuid = u\<rparr> (StartSending \<lparr>kind = Pong, uuid = v\<rparr> who))
    (in_play m u v ms Ping_Ready qs [\<lparr>sig_id = \<lparr>kind = Ping, uuid = u\<rparr>,
        sig_input = Input_Ping (StartSending \<lparr>kind = Pong, uuid = v\<rparr> who)\<rparr>] N t usr\<lparr>v_back := [], v_now := t'\<rparr>) ()
    (in_play m u v ms Ping_Sending qs [to_pong u v who 0] N t' usr)"
    by (rule effect_eq, rule ping_start) (auto simp: in_play_def)
qed (use assms in \<open>auto simp: is_nil_def\<close>)

lemma menu_ends:
  assumes "m \<noteq> 0"
  shows "leads game_machines [t'] (in_play m u v Menu_Ready ps qs
      [\<lparr>sig_id = \<lparr>kind = Menu, uuid = m\<rparr>, sig_input = Input_Menu PingPongComplete\<rparr>] N t usr)
    (in_play m u v Menu_Done ps qs [] N t' usr)"
proof (rule turn_menu)
  show "effect shows_view (menu_process \<lparr>kind = Menu, uuid = m\<rparr> (Input_Menu PingPongComplete))
    (in_play m u v Menu_Ready ps qs
      [\<lparr>sig_id = \<lparr>kind = Menu, uuid = m\<rparr>, sig_input = Input_Menu PingPongComplete\<rparr>] N t usr\<lparr>v_back := [], v_now := t'\<rparr>) ()
    (in_play m u v Menu_Done ps qs [] N t' usr)"
    by (rule effect_eq, rule menu_complete) (use assms in \<open>auto simp: in_play_def is_nil_def\<close>)
qed auto

lemma game_start_view:
  "shows_view (game_start t vs i who)
    \<lparr>v_states = Map.empty, v_parents = Map.empty, v_front = [],
     v_back = [\<lparr>sig_id = i, sig_input = Input_Menu (Play who)\<rparr>], v_urgent = [], v_normal = [],
     v_now = t, v_user = \<lparr>failures = Map.empty, v4s = vs, v4_next = 0\<rparr>\<rparr>"
  by (simp add: game_start_def signal_to_def cmd_simps shows_view_def view_of_def world_wf_def store_new_wf)

lemma play_starts:
  assumes "m \<noteq> 0" and "vs 0 \<noteq> 0" and "vs 1 \<noteq> 0"
  shows "leads game_machines [t']
    \<lparr>v_states = Map.empty, v_parents = Map.empty, v_front = [],
     v_back = [\<lparr>sig_id = \<lparr>kind = Menu, uuid = m\<rparr>, sig_input = Input_Menu (Play who)\<rparr>],
     v_urgent = [], v_normal = [],
     v_now = t, v_user = \<lparr>failures = Map.empty, v4s = vs, v4_next = 0\<rparr>\<rparr>
    (in_play m (vs 0) (vs 1) Menu_Ready Ping_Ready Pong_Ready
      [\<lparr>sig_id = \<lparr>kind = Ping, uuid = vs 0\<rparr>,
        sig_input = Input_Ping (StartSending \<lparr>kind = Pong, uuid = vs 1\<rparr> who)\<rparr>] [] t'
      \<lparr>failures = Map.empty, v4s = vs, v4_next = 2\<rparr>)"
  (is "leads _ _ ?a ?a'")
proof (rule turn_menu)
  show "effect shows_view (menu_process \<lparr>kind = Menu, uuid = m\<rparr> (Input_Menu (Play who)))
      (?a\<lparr>v_back := [], v_now := t'\<rparr>) () ?a'"
    by (rule effect_eq, rule menu_play)
      (use assms in \<open>auto simp: in_play_def is_nil_def board_def parents_of_def\<close>)
qed auto

lemma rounds:
  assumes "m \<noteq> 0" and "u \<noteq> 0" and "v \<noteq> 0" and "who \<noteq> Some Ping" and "who \<noteq> Some Pong"
    and "\<forall>t \<in> {t2, t3, t4, t5}. t + 11000000 < instant_limit"
  shows "leads game_machines [t1, t2, t3, t4, t5, t6, t7, t8]
    (in_play m u v Menu_Ready Ping_Ready Pong_Ready
      [\<lparr>sig_id = \<lparr>kind = Ping, uuid = u\<rparr>,
        sig_input = Input_Ping (StartSending \<lparr>kind = Pong, uuid = v\<rparr> who)\<rparr>] [] t0 usr)
    (in_play m u v Menu_Done Ping_Done Pong_Done []
      [set_msg \<lparr>kind = Pong, uuid = v\<rparr> (t2 + 11000000), set_msg \<lparr>kind = Ping, uuid = u\<rparr> (t3 + 11000000),
       set_msg \<lparr>kind = Pong, uuid = v\<rparr> (t4 + 11000000), set_msg \<lparr>kind = Ping, uuid = u\<rparr> (t5 + 11000000),
       cancel_msg \<lparr>kind = Pong, uuid = v\<rparr>, cancel_msg \<lparr>kind = Ping, uuid = u\<rparr>] t8 usr)"
proof -
  have pong: "leads game_machines [t'] (in_play m u v ms ps qs [to_pong u v who x] N t usr)
      (in_play m u v ms ps (if x = 0 then Pong_Responding else qs) [to_ping u v who (x + 5)]
        (N @ [set_msg \<lparr>kind = Pong, uuid = v\<rparr> (t' + 11000000)]) t' usr)"
    if "x < 20" "t' \<in> {t2, t3, t4, t5}" "qs = Pong_Ready \<or> qs = Pong_Responding" for x t' t ms ps qs N
    using that assms by (intro pong_passes) auto
  have ping: "leads game_machines [t'] (in_play m u v ms Ping_Sending qs [to_ping u v who x] N t usr)
      (in_play m u v ms Ping_Sending qs [to_pong u v who (x + 5)]
        (N @ [set_msg \<lparr>kind = Ping, uuid = u\<rparr> (t' + 11000000)]) t' usr)"
    if "x < 25" "t' \<in> {t2, t3, t4, t5}" for x t' t ms qs N
    using that assms by (intro ping_passes) auto
  note r0 = ping_starts [OF assms(2), where t' = t1 and N = "[]" and t = t0]
  note r1 = pong [of 0 t2 Pong_Ready, simplified]
  note r2 = ping [of 5 t3, simplified]
  note r3 = pong [of 10 t4 Pong_Responding, simplified]
  note r4 = ping [of 15 t5, simplified]
  note r5 = pong_ends [OF assms(3), where x = 20 and qs = Pong_Responding and t' = t6, simplified]
  note r6 = ping_ends [OF assms(2), where x = 25 and t' = t7, simplified]
  note r7 = menu_ends [OF assms(1), where t' = t8]
  show ?thesis
    using leads_append [OF leads_append [OF leads_append [OF leads_append [OF leads_append [OF
      leads_append [OF leads_append [OF r0 r1] r2] r3] r4] r5] r6] r7]
    by simp
qed

lemma game_completes_view:
  assumes "m \<noteq> 0" and "vs 0 \<noteq> 0" and "vs 1 \<noteq> 0" and "who \<noteq> Some Ping" and "who \<noteq> Some Pong"
    and "\<forall>t \<in> set ts. t + 11000000 < instant_limit" and "10 \<le> length ts"
  shows "\<exists>rx w. manager_run game_machines wk ts rx0 (game_start t vs \<lparr>kind = Menu, uuid = m\<rparr> who) = (Waiting, rx, w) \<and>
    shows_view w (in_play m (vs 0) (vs 1) Menu_Done Ping_Done Pong_Done []
      [set_msg \<lparr>kind = Pong, uuid = vs 1\<rparr> (ts ! 2 + 11000000), set_msg \<lparr>kind = Ping, uuid = vs 0\<rparr> (ts ! 3 + 11000000),
       set_msg \<lparr>kind = Pong, uuid = vs 1\<rparr> (ts ! 4 + 11000000), set_msg \<lparr>kind = Ping, uuid = vs 0\<rparr> (ts ! 5 + 11000000),
       cancel_msg \<lparr>kind = Pong, uuid = vs 1\<rparr>, cancel_msg \<lparr>kind = Ping, uuid = vs 0\<rparr>] (ts ! 9)
      \<lparr>failures = Map.empty, v4s = vs, v4_next = 2\<rparr>)"
proof -
  obtain t0 t1 t2 t3 t4 t5 t6 t7 t8 us where
    ts: "ts = t0 # t1 # t2 # t3 # t4 # t5 # t6 # t7 # t8 # us" and us: "us \<noteq> []"
    using assms(7) by (auto simp: numeral_eq_Suc Suc_le_length_iff)
  have lim: "\<forall>t \<in> {t2, t3, t4, t5}. t + 11000000 < instant_limit" using assms(6) ts by simp
  note start = play_starts [where t' = t0 and t = t and who = who, OF assms(1-3)]
  have last: "hd us = ts ! 9" using us by (simp add: ts hd_conv_nth)
  from leads_waiting [OF leads_append [OF start rounds [OF assms(1-5) lim, of t1 t6 t7 t8]] _ _
      game_start_view us, where wk = wk and rx = rx0]
  show ?thesis
    unfolding last [symmetric] unfolding ts by (auto simp: in_play_def simp del: manager_run.simps One_nat_def)
qed

text \<open>
  C6. Let a menu machine be told to play with a packet nobody holds, for any non-nil ids and any
  clock readings that leave room for the 11 ms timeout. Given at least ten turns, the manager's
  task ends up waiting with an empty signal queue, the menu, its ping child and its pong child
  are all Done, both children have the menu as parent, no failure is recorded, and the timeout
  requests sent ahead of other notifications are four Sets, 11 ms after the readings at which
  they were made, and two Cancels.
\<close>

theorem game_completes:
  assumes "m \<noteq> 0" and "vs 0 \<noteq> 0" and "vs 1 \<noteq> 0" and "who \<noteq> Some Ping" and "who \<noteq> Some Pong"
    and "\<forall>t \<in> set ts. t + 11000000 < instant_limit" and "10 \<le> length ts"
  shows "\<exists>rx w. manager_run game_machines wk ts rx0 (game_start t vs \<lparr>kind = Menu, uuid = m\<rparr> who) = (Waiting, rx, w) \<and>
    ctx_get_state \<lparr>kind = Menu, uuid = m\<rparr> w = (Returned (Some (State_Menu Menu_Done)), w) \<and>
    ctx_get_state \<lparr>kind = Ping, uuid = vs 0\<rparr> w = (Returned (Some (State_Ping Ping_Done)), w) \<and>
    ctx_get_state \<lparr>kind = Pong, uuid = vs 1\<rparr> w = (Returned (Some (State_Pong Pong_Done)), w) \<and>
    ctx_get_parent_id \<lparr>kind = Ping, uuid = vs 0\<rparr> w = (Returned (Some \<lparr>kind = Menu, uuid = m\<rparr>), w) \<and>
    ctx_get_parent_id \<lparr>kind = Pong, uuid = vs 1\<rparr> w = (Returned (Some \<lparr>kind = Menu, uuid = m\<rparr>), w) \<and>
    queue_values (signal_queue w) = [] \<and> failures (user w) = Map.empty \<and>
    map req_op (map game_msg_timeout (front_values (notification_queue w))) =
      [Set (ts ! 2 + 11000000), Set (ts ! 3 + 11000000), Set (ts ! 4 + 11000000),
       Set (ts ! 5 + 11000000), Cancel, Cancel]"
proof -
  let ?menu = "\<lparr>kind = Menu, uuid = m\<rparr>" and ?ping = "\<lparr>kind = Ping, uuid = vs 0\<rparr>"
    and ?pong = "\<lparr>kind = Pong, uuid = vs 1\<rparr>"
  from game_completes_view [OF assms, of wk rx0 t] obtain rx w where
    run: "manager_run game_machines wk ts rx0 (game_start t vs ?menu who) = (Waiting, rx, w)"
    and w: "shows_view w (in_play m (vs 0) (vs 1) Menu_Done Ping_Done Pong_Done []
      [set_msg ?pong (ts ! 2 + 11000000), set_msg ?ping (ts ! 3 + 11000000),
       set_msg ?pong (ts ! 4 + 11000000), set_msg ?ping (ts ! 5 + 11000000),
       cancel_msg ?pong, cancel_msg ?ping] (ts ! 9) \<lparr>failures = Map.empty, v4s = vs, v4_next = 2\<rparr>)" by blast
  have nil: "\<not> is_nil ?menu" "\<not> is_nil ?ping" "\<not> is_nil ?pong" using assms(1-3) by (simp_all add: is_nil_def)
  note D = shows_viewD [OF w]
  note R = ctx_reads [OF D(1)]
  show ?thesis
    using run D R [OF nil(1)] R [OF nil(2)] R [OF nil(3)] by (simp add: queue_values_def)
qed

theorem game_completes_witness:
  "\<exists>rx w. manager_run game_machines 7 [1, 2, 3, 4, 5, 6, 7, 8, 9, 10] stream
      (game_start 0 (\<lambda>n. of_nat (n + 2)) menu_1 None) = (Waiting, rx, w) \<and>
    ctx_get_state pong_3 w = (Returned (Some (State_Pong Pong_Done)), w)"
proof -
  have "\<forall>t \<in> set [1, 2, 3, 4, 5, 6, 7, 8, 9, 10]. t + 11000000 < instant_limit"
    by (simp add: instant_limit_def nanos_per_sec_def)
  then show ?thesis
    using game_completes [of 1 "\<lambda>n. of_nat (n + 2)" None "[1, 2, 3, 4, 5, 6, 7, 8, 9, 10]" 7 stream 0]
    by (auto simp del: manager_run.simps)
qed

section \<open>Failure\<close>

lemma fold_priority_send:
  "front_values (fold (\<lambda>i. nq_priority_send (f i)) is nq) = front_values nq @ map f is"
  "back_values (fold (\<lambda>i. nq_priority_send (f i)) is nq) = back_values nq"
  by (induction "is" arbitrary: nq) (simp_all add: nq_priority_send_def)

lemma fail_tree_forest:
  fixes w :: game_world
  assumes "world_wf w" and "i \<in> dom (world_states w)"
  shows "\<exists>r w' order. trees (state_store w) i = Some r \<and> \<not> is_nil i \<and>
    fail_tree r w = (Returned (), w') \<and> world_wf w' \<and>
    distinct order \<and> set order = {j. trees (state_store w) j = trees (state_store w) i} \<and>
    world_states w' = (\<lambda>j. if j \<in> set order then map_option (fail_state j) (world_states w j)
      else world_states w j) \<and>
    world_parents w' = world_parents w \<and>
    front_values (notification_queue w') = front_values (notification_queue w) @ map cancel_for order \<and>
    back_values (notification_queue w') = back_values (notification_queue w) \<and>
    user w' = user w \<and> signal_queue w' = signal_queue w \<and> now w' = now w"
proof -
  let ?st = "state_store w"
  have wf: "store_wf ?st" using assms(1) by (simp add: world_wf_def)
  obtain r where r: "trees ?st i = Some r" "r < length (heap ?st)" "tree_wf (heap ?st ! r)" "\<not> is_nil i"
    using store_wf_dom [OF wf assms(2)] by blast
  let ?n = "heap ?st ! r" and ?n' = "map_states fail_state (heap ?st ! r)"
  let ?st' = "?st\<lparr>heap := (heap ?st)[r := ?n']\<rparr>" and ?order = "post_order (heap ?st ! r)"
  have mem: "trees ?st j = Some r \<longleftrightarrow> j \<in> set (ids ?n)" for j
    using wf r(2) by (auto simp: store_wf_def dom_states)
  have dom': "dom (states ?n') = {} \<union> dom (states ?n)" by (simp add: dom_states)
  have wf': "tree_wf ?n'" using r(3) by simp
  have eq: "?st\<lparr>trees := (\<lambda>i. if i \<in> {} then Some r else trees ?st i), heap := (heap ?st)[r := ?n']\<rparr> = ?st'"
    by simp
  note rep = store_replace [OF wf r(2) wf' dom', unfolded eq, simplified]
  have key: "forest_states ?st j = states ?n j" "forest_parents ?st j = parents ?n j"
    if "trees ?st j = Some r" for j
    using that by (simp_all add: forest_states_def forest_parents_def)
  have order: "set ?order = {j. trees ?st j = trees ?st i}"
    by (simp add: set_post_order r(1) mem)
  have "distinct ?order"
    using r(3) mset_eq_imp_distinct_iff [OF length_post_order [of ?n]] by (simp add: tree_wf_def)
  moreover have "forest_states ?st' = (\<lambda>j. if j \<in> set ?order
      then map_option (fail_state j) (forest_states ?st j) else forest_states ?st j)"
    using rep(2) key(1) order r(1) by (auto simp: map_states_states fun_eq_iff)
  moreover have "forest_parents ?st' = forest_parents ?st"
    using rep(3) key(2) by (auto simp: fun_eq_iff)
  ultimately show ?thesis
    using r order rep(1)
    by (intro exI [of _ r] exI [of _ "snd (fail_tree r w)"] exI [of _ ?order])
      (simp add: fail_tree_apply world_wf_def fold_priority_send)
qed

lemma menu_failure:
  fixes w :: game_world
  assumes "world_wf w" and "world_states w i = Some (State_Menu Menu_Ready)"
    and "x = FailedPing \<or> x = FailedPong"
  shows "\<exists>w1 order. menu_process i (Input_Menu x) w =
      (Returned (), w1\<lparr>user := (user w)\<lparr>failures := (failures (user w))(i \<mapsto> x)\<rparr>\<rparr>) \<and> world_wf w1 \<and>
    distinct order \<and> set order = {j. trees (state_store w) j = trees (state_store w) i} \<and>
    world_states w1 = (\<lambda>j. if j \<in> set order then map_option (fail_state j) (world_states w j)
      else world_states w j) \<and>
    world_parents w1 = world_parents w \<and>
    front_values (notification_queue w1) = front_values (notification_queue w) @ map cancel_for order \<and>
    back_values (notification_queue w1) = back_values (notification_queue w) \<and>
    signal_queue w1 = signal_queue w \<and> now w1 = now w"
proof -
  have "i \<in> dom (world_states w)" using assms(2) by auto
  from fail_tree_forest [OF assms(1) this] obtain r w1 order where
    r: "trees (state_store w) i = Some r" "\<not> is_nil i" "fail_tree r w = (Returned (), w1)" and
    w1: "world_wf w1" "distinct order"
      "set order = {j. trees (state_store w) j = trees (state_store w) i}"
      "world_states w1 = (\<lambda>j. if j \<in> set order then map_option (fail_state j) (world_states w j)
        else world_states w j)"
      "world_parents w1 = world_parents w"
      "front_values (notification_queue w1) = front_values (notification_queue w) @ map cancel_for order"
      "back_values (notification_queue w1) = back_values (notification_queue w)"
      "user w1 = user w" "signal_queue w1 = signal_queue w" "now w1 = now w" by blast
  have "menu_process i (Input_Menu x) w =
      (Returned (), w1\<lparr>user := (user w)\<lparr>failures := (failures (user w))(i \<mapsto> x)\<rparr>\<rparr>)"
    using assms(2,3) ctx_reads(1) [OF assms(1) r(2)] r w1(8)
    by (auto simp: menu_process_def cmd_simps get_tree_def)
  with w1 show ?thesis by blast
qed

text \<open>
  C30. A menu machine that is ready and is told of a failed child returns, having set every id
  that shares its tree, and no other, to the failed state of its kind, left all parents alone,
  sent one Cancel per id of the tree ahead of other notifications, and recorded the failure
  under its own id.
\<close>

theorem failure_fails_tree:
  assumes "world_wf w" and "world_states w i = Some (State_Menu Menu_Ready)"
    and "x = FailedPing \<or> x = FailedPong"
  shows "\<exists>w' order. menu_process i (Input_Menu x) w = (Returned (), w') \<and> world_wf w' \<and>
    distinct order \<and> set order = {j. trees (state_store w) j = trees (state_store w) i} \<and>
    (\<forall>j. world_states w' j = (if j \<in> set order
      then map_option (\<lambda>s. game_failed_state (game_as_ref s)) (world_states w j) else world_states w j)) \<and>
    world_parents w' = world_parents w \<and>
    front_values (notification_queue w') = front_values (notification_queue w) @
      map (\<lambda>j. GameMsg \<lparr>req_id = j, req_op = Cancel\<rparr>) order \<and>
    failures (user w') = (failures (user w))(i \<mapsto> x) \<and> signal_queue w' = signal_queue w"
proof -
  from menu_failure [OF assms] obtain w1 order where
    "menu_process i (Input_Menu x) w =
      (Returned (), w1\<lparr>user := (user w)\<lparr>failures := (failures (user w))(i \<mapsto> x)\<rparr>\<rparr>)" "world_wf w1"
    "distinct order" "set order = {j. trees (state_store w) j = trees (state_store w) i}"
    "world_states w1 = (\<lambda>j. if j \<in> set order then map_option (fail_state j) (world_states w j)
      else world_states w j)"
    "world_parents w1 = world_parents w"
    "front_values (notification_queue w1) = front_values (notification_queue w) @ map cancel_for order"
    "signal_queue w1 = signal_queue w" by blast
  then show ?thesis
    by (intro exI [of _ "w1\<lparr>user := (user w)\<lparr>failures := (failures (user w))(i \<mapsto> x)\<rparr>\<rparr>"]
      exI [of _ order]) (simp add: world_wf_def fail_state_def [abs_def] cancel_for_def request_cancel_timeout_def)
qed

theorem failure_fails_tree_witness:
  "\<exists>w w' :: game_world. menu_process menu_1 (Input_Menu FailedPong) w = (Returned (), w') \<and>
    world_states w' menu_1 = Some (State_Menu Menu_Failed) \<and> failures (user w') menu_1 = Some FailedPong"
proof -
  let ?a = "\<lparr>v_states = Map.empty, v_parents = Map.empty, v_front = [], v_back = [], v_urgent = [],
    v_normal = [], v_now = 0, v_user = \<lparr>failures = Map.empty, v4s = (\<lambda>_. 0), v4_next = 0\<rparr>\<rparr> :: game_view"
  have "effect shows_view (on_store (create_tree game_rex menu_1)) ?a ()
      (?a\<lparr>v_states := (v_states ?a)(menu_1 \<mapsto> new_state game_rex (kind menu_1))\<rparr>)"
    by (rule view_create_tree) (simp_all add: is_nil_def)
  from effectD [OF this shows_view_new] obtain w :: game_world where
    "shows_view w (?a\<lparr>v_states := [menu_1 \<mapsto> State_Menu Menu_Ready]\<rparr>)" by auto
  then have w: "world_wf w" "world_states w menu_1 = Some (State_Menu Menu_Ready)"
    by (simp_all add: shows_viewD)
  from failure_fails_tree [OF w, of FailedPong] w(2) show ?thesis by fastforce
qed

text \<open>
  When the state of an id is terminal, processing any input with the menu or the pong
  machine, or with the ping machine when the id has a parent, returns and leaves the whole world
  unchanged.
\<close>

theorem terminal_ignores_input:
  assumes "world_wf w" and "world_states w i = Some s" and "is_terminal game_rex s"
  shows "menu_process i x w = (Returned (), w) \<and> pong_process i x w = (Returned (), w) \<and>
    (world_parents w i \<noteq> None \<longrightarrow> ping_process i x w = (Returned (), w))"
proof -
  have "\<not> is_nil i" using world_not_nil [OF assms(1), of i] assms(2) by auto
  note R = ctx_reads [OF assms(1) this]
  show ?thesis
    using R assms(2,3)
    by (cases x) (auto simp: menu_process_def ping_process_def pong_process_def cmd_simps)
qed

theorem terminal_ignores_input_witness:
  "\<exists>w :: game_world. world_states w menu_1 = Some (State_Menu Menu_Done) \<and>
    menu_process menu_1 (Input_Menu FailedPong) w = (Returned (), w)"
proof -
  let ?a = "\<lparr>v_states = Map.empty, v_parents = Map.empty, v_front = [], v_back = [], v_urgent = [],
    v_normal = [], v_now = 0, v_user = \<lparr>failures = Map.empty, v4s = (\<lambda>_. 0), v4_next = 0\<rparr>\<rparr> :: game_view"
  have "effect shows_view (seqc (on_store (create_tree game_rex menu_1))
      (on_store (sm_update game_rex menu_1 (State_Menu Menu_Done)))) ?a ()
      (?a\<lparr>v_states := [menu_1 \<mapsto> State_Menu Menu_Done]\<rparr>)"
    by (rule effect_eq, (rule effect_rules | simp add: is_nil_def)+)
  from effectD [OF this shows_view_new] obtain w :: game_world where
    "shows_view w (?a\<lparr>v_states := [menu_1 \<mapsto> State_Menu Menu_Done]\<rparr>)" by blast
  then have w: "world_wf w" "world_states w menu_1 = Some (State_Menu Menu_Done)"
    by (simp_all add: shows_viewD)
  from terminal_ignores_input [OF w, of "Input_Menu FailedPong"] w(2) show ?thesis by auto
qed

text \<open>
  C10. Of the three machines of the manager's tests: from any sound world and with any signals
  in the queue, whatever their ids, packets and other inputs and however often an id is reused,
  every run of the manager over them leaves the store sound (every reference leads to an exact
  tree that has the id), and every state that can be read belongs to the kind of its id. If the
  task died, it died of an assertion or unwrap of the code that names its cause, or of the
  overflow of an instant or of the packet's counter: the assertion on an id that is not in its
  tree, an index out of bounds and the unreachable arm of return_packet are not reached.
\<close>

theorem game_run_sound:
  assumes "world_sound game_rex w" and "manager_run game_machines wk ts rx w = (st, rx', w')"
  shows "world_sound game_rex w' \<and>
    (\<forall>p. st = Died p \<longrightarrow> p \<in> {NilId, UnwrapNone, MissingSmTree, MissingIdForUpdate,
      InstantOverflow, AddOverflow, AssertionFailed}) \<and>
    (\<forall>i s w''. ctx_get_state i w' = (Returned (Some s), w'') \<longrightarrow> game_as_ref s = kind i)"
  using game_run.run_keeps [OF assms] ctx_get_state_kind [of game_rex w']
  by (auto simp: game_panics_def)

theorem game_run_sound_witness:
  "world_sound game_rex (snd (snd (manager_run game_machines 7 [1, 2, 3] stream
    (game_start 0 (\<lambda>n. of_nat (n + 2)) menu_1 None))))"
proof -
  let ?w = "game_start 0 (\<lambda>n. of_nat (n + 2)) menu_1 None"
  have "world_sound game_rex ?w" by (simp add: game_start_def signal_to_def cmd_simps)
  moreover obtain st rx' w' where run: "manager_run game_machines 7 [1, 2, 3] stream ?w = (st, rx', w')"
    by (metis prod_cases3)
  ultimately have "world_sound game_rex w'" using game_run_sound by blast
  with run show ?thesis by (simp del: manager_run.simps)
qed

end
