(* ===== verification/Rex_Arena.thy ===== *)
theory Rex_Arena
  imports Rex_System Rex_Game
begin

text \<open>
  The system that the tests \<open>pong_timeout\<close> and \<open>ping_timeout\<close> of \<open>src/manager.rs\<close> build: the
  three machines of the game and a timeout manager. \<open>Game\<close> does not implement \<open>Ingress\<close>: the
  conversions of packets, which the type of a system asks for, are left unspecified, and what is
  proved of the game holds whatever they are.
\<close>

definition game_ingress ::
  "(game, game_state, game_input, packet, game_msg, unit, unit, unit) ingress" where
  "game_ingress = rex.extend game_rex (ingress.fields undefined undefined undefined)"

lemma game_ingress_sel [simp]:
  "timeout_input game_ingress = game_timeout_input" "return_item game_ingress = game_return_item"
  "get_topic game_ingress = (\<lambda>_. ())" "try_timeout game_ingress = (\<lambda>m. Some (game_msg_timeout m))"
  by (simp_all add: game_ingress_def rex.defs ingress.defs)

definition test_tick_rate :: duration where
  "test_tick_rate = duration_from_millis 3"

text \<open>\<open>Duration / u32\<close>, which keeps the nanoseconds below a second.\<close>

definition duration_div :: "duration \<Rightarrow> nat \<Rightarrow> duration" where
  "duration_div d n =
     (let t = duration_nanos d div n in
      \<lparr>secs = of_nat (t div nanos_per_sec), nanos = of_nat (t mod nanos_per_sec)\<rparr>)"

definition duel_builder :: "(game, game_input, game_world, unit, unit) rex_builder" where
  "duel_builder =
     with_tick_rate (duration_div test_tick_rate 2)
     (with_timeout_manager ()
     (with_sm \<lparr>sm_process = pong_process, sm_kind = Pong\<rparr>
     (with_sm \<lparr>sm_process = ping_process, sm_kind = Ping\<rparr>
     (with_sm \<lparr>sm_process = menu_process, sm_kind = Menu\<rparr> builder_default))))"

type_synonym game_system = "(game, game_state, game_input, packet, game_msg, game_user, unit, unit) system"

definition duel_timers :: "unit timeout_manager" where
  "duel_timers = \<lparr>tm_tick_rate = duration_div test_tick_rate 2, tm_topic = ()\<rparr>"

definition duel_program :: "(game, game_input, game_world, unit, unit) program" where
  "duel_program = \<lparr>sys_machines = game_machines,
     sys_processors = [\<lparr>np_channel = 0, np_topics = [()]\<rparr>],
     sys_subscriptions = Some [() \<mapsto> [0]], prog_role = [0 \<mapsto> Timeout_np duel_timers]\<rparr>"

lemma duel_tick_nanos: "duration_nanos (duration_div test_tick_rate 2) = 1500000"
proof -
  have "duration_nanos test_tick_rate = 3000000"
    by (simp add: test_tick_rate_def duration_nanos_from_millis)
  then show ?thesis
    by (simp add: duration_div_def duration_nanos_def nanos_per_sec_def Let_def unat_of_nat)
qed

lemma nm_new_single: "nm_new [\<lparr>np_channel = c, np_topics = [t]\<rparr>] = [t \<mapsto> [c]]"
  by (simp add: nm_new_def subscribe_def)

lemma duel_build: "build 0 duel_builder = Returned duel_program"
  using duel_tick_nanos game_machines_new
  by (simp add: build_def build_inner_def Let_def duel_builder_def with_tick_rate_def
      with_timeout_manager_def with_sm_def builder_default_def build_timeout_manager_def with_np_def
      np_init_def tm_with_tick_rate_def timeout_manager_new_def roles_def duel_program_def
      duel_timers_def nm_new_single game_machine_list_def machine_defs)

lemma duel_program_sel [simp]:
  "sys_machines duel_program = game_machines" "sys_subscriptions duel_program = Some [() \<mapsto> [0]]"
  "prog_role duel_program = [0 \<mapsto> Timeout_np duel_timers]"
  by (simp_all add: duel_program_def)

section \<open>A sample run\<close>

definition no_user :: game_user where
  "no_user = \<lparr>failures = Map.empty, v4s = (\<lambda>_. 0), v4_next = 0\<rparr>"

definition sample_start :: game_system where
  "sample_start = spawned (world_new 0 no_user)"

text \<open>One request sent, routed and recorded; then both tasks go to sleep.\<close>

definition sample_sent :: game_system where
  "sample_sent = sample_start\<lparr>sys_world := push_world_notification (Push_front (cancel_msg ping_2)) (sys_world sample_start)\<rparr>"

definition sample_routed :: game_system where
  "sample_routed = sample_sent\<lparr>sys_world := (sys_world sample_sent)\<lparr>notification_queue := deque_new\<rparr>,
     nm_rx := stream, nm_task := Running,
     sys_channels := nm_route game_ingress [() \<mapsto> [0]] (cancel_msg ping_2) channels_new\<rparr>"

definition sample_recorded :: game_system where
  "sample_recorded = receive game_ingress (Timeout_np duel_timers) 0 (cancel_msg ping_2)
     (sample_routed\<lparr>sys_channels := channels_new\<rparr>)"

abbreviation waited :: "waker \<Rightarrow> 'a deque" where
  "waited wk \<equiv> \<lparr>front_values = [], back_values = [], rx_notifiers = [\<lparr>handle = wk, awake = 0\<rparr>],
     flags = [False], wakes = []\<rparr>"

definition sample_end :: game_system where
  "sample_end = sample_recorded\<lparr>sys_world := (sys_world sample_recorded)\<lparr>notification_queue := waited nm_waker,
       signal_queue := waited manager_waker\<rparr>, nm_rx := \<lparr>rx_awake = Some 0\<rparr>, nm_task := Parked 0,
     manager_rx := \<lparr>rx_awake = Some 0\<rparr>, manager_task := Parked 0\<rparr>"

lemmas sample_defs = sample_start_def sample_sent_def sample_routed_def sample_recorded_def sample_end_def
  spawned_def world_new_def push_front_def notify_rx_def deque_new_def stream_def receive_def poll_next_def pop_front_def
  runnable_def manager_step_def task_after_def

lemma sample_steps:
  "sys_step game_ingress duel_program sample_start (Notified (Push_front (cancel_msg ping_2))) sample_sent"
  "sys_step game_ingress duel_program sample_sent Nm_turn sample_routed"
  "sys_step game_ingress duel_program sample_routed (Received 0) sample_recorded"
proof -
  show "sys_step game_ingress duel_program sample_start (Notified (Push_front (cancel_msg ping_2))) sample_sent"
    unfolding sample_sent_def by (rule notified)
  show "sys_step game_ingress duel_program sample_sent Nm_turn sample_routed"
    using nm_route_one [of duel_program "[() \<mapsto> [0]]" sample_sent "cancel_msg ping_2" stream deque_new game_ingress]
    by (simp add: sample_defs channels_new_def)
  show "sys_step game_ingress duel_program sample_routed (Received 0) sample_recorded"
    using received [of duel_program 0 "Timeout_np duel_timers" sample_routed "cancel_msg ping_2" channels_new game_ingress]
    by (simp add: sample_recorded_def) (simp add: sample_defs chan_recv_def nm_route_fold chan_send_def channels_new_def fun_eq_iff)
qed

lemma sample_sleep:
  "\<exists>s. sys_step game_ingress duel_program sample_recorded Nm_turn s \<and>
     sys_step game_ingress duel_program s (Manager_turn 0) sample_end"
proof -
  let ?s = "sample_recorded\<lparr>sys_world := (sys_world sample_recorded)\<lparr>notification_queue := waited nm_waker\<rparr>,
     nm_rx := \<lparr>rx_awake = Some 0\<rparr>, nm_task := Parked 0\<rparr>"
  have "sys_step game_ingress duel_program sample_recorded Nm_turn ?s"
    using nm_wait [of duel_program "[() \<mapsto> [0]]" sample_recorded "\<lparr>rx_awake = Some 0\<rparr>" "waited nm_waker" game_ingress]
    by (simp add: sample_defs)
  moreover have "sys_step game_ingress duel_program ?s (Manager_turn 0) sample_end"
    using manager_turn [of ?s 0 duel_program Waiting "\<lparr>rx_awake = Some 0\<rparr>"
      "(sys_world ?s)\<lparr>signal_queue := waited manager_waker\<rparr>" game_ingress]
    by (simp add: sample_defs)
  ultimately show ?thesis by blast
qed
lemma sample_run:
  "\<exists>es. sys_run game_ingress duel_program sample_start es sample_end"
  using sample_steps sample_sleep by (meson sys_run.intros)

end
