(* ===== verification/Rex_Quiet.thy ===== *)
theory Rex_Quiet
  imports Rex_Arena
begin

text \<open>
  Invariants of the running system. A machine may only push to the two queues; then no task ever
  sleeps while its queue holds something, so a system in which no task can take a turn has no
  work left. The store stays sound and every ledger consistent, whatever the order of steps.
\<close>

section \<open>What a machine may do to the queues\<close>

text \<open>
  \<open>grows q0 q\<close>: \<open>q\<close> came from \<open>q0\<close> by pushing. \<open>extends w0 w\<close>: both queues of \<open>w\<close> came from
  those of \<open>w0\<close> by pushing, at the same clock reading.
\<close>

definition grows :: "'a deque \<Rightarrow> 'a deque \<Rightarrow> bool" where
  "grows q0 q \<longleftrightarrow> (\<exists>ps. q = run_ops run_push ps q0)"

lemma grows_refl: "grows q q"
  unfolding grows_def by (metis run_ops.simps(1))

lemma grows_trans: "grows q0 q1 \<Longrightarrow> grows q1 q2 \<Longrightarrow> grows q0 q2"
  unfolding grows_def by (metis run_ops_append)

lemma grows_run_push: "grows q0 q \<Longrightarrow> grows q0 (run_push p q)"
  by (rule grows_trans) (auto simp: grows_def intro: exI [of _ "[p]"])

lemma grows_push:
  "grows q0 q \<Longrightarrow> grows q0 (push_front x q)"
  "grows q0 q \<Longrightarrow> grows q0 (push_back x q)"
  using grows_run_push [of q0 q "Push_front x"] grows_run_push [of q0 q "Push_back x"] by simp_all

lemma grows_fold: "(\<And>x q. grows q0 q \<Longrightarrow> grows q0 (f x q)) \<Longrightarrow> grows q0 q \<Longrightarrow> grows q0 (fold f xs q)"
  by (induction xs arbitrary: q) auto

definition extends ::
  "('k, 's, 'i, 'm, 'u) world \<Rightarrow> ('k, 's, 'i, 'm, 'u) world \<Rightarrow> bool" where
  "extends w0 w \<longleftrightarrow> now w = now w0 \<and> grows (signal_queue w0) (signal_queue w) \<and>
     grows (notification_queue w0) (notification_queue w)"

lemma extends_refl: "extends w w"
  by (simp add: extends_def grows_refl)

lemma on_store_extends [keeps_rules]: "keeps (extends w0) UNIV (on_store m)"
  by (auto simp: keeps_def cmd_simps extends_def split: prod.splits)

lemma ctx_extends [keeps_rules]:
  "keeps (extends w0) UNIV (ctx_notify m)"
  "keeps (extends w0) UNIV (priority_notify m)"
  "keeps (extends w0) UNIV (signal_self i x)"
  "keeps (extends w0) UNIV (signal_to i x)"
  "keeps (extends w0) UNIV (signal_state_change R i s)"
  by (auto simp: keeps_def ctx_defs cmd_simps extends_def nq_send_def nq_priority_send_def grows_push
      split: option.splits)

lemma ctx_read_extends [keeps_rules]:
  "keeps (extends w0) UNIV (ctx_get_state i)"
  "keeps (extends w0) UNIV (ctx_has_state i)"
  "keeps (extends w0) UNIV (ctx_get_parent_id i)"
  "keeps (extends w0) UNIV (ctx_has_parent i)"
  unfolding ctx_get_state_def ctx_has_state_def ctx_get_parent_id_def ctx_has_parent_def
  by (intro keeps_rules)+

lemma keeps_lift [keeps_rules]: "keeps I UNIV (lift_outcome m)"
  by (simp add: keeps_def cmd_simps)

lemma sm_extends [keeps_rules]:
  "keeps (extends w0) UNIV (update_state_and_signal R i s)"
  "keeps (extends w0) UNIV (sm_fail R i)"
  "keeps (extends w0) UNIV (sm_complete R i)"
  "keeps (extends w0) UNIV (set_timeout R i d)"
  "keeps (extends w0) UNIV (return_in R i x d)"
  "keeps (extends w0) UNIV (cancel_timeout R i)"
  unfolding update_state_and_signal_def sm_fail_def sm_complete_def set_timeout_def return_in_def
    cancel_timeout_def
  by (auto intro!: keeps_rules split: option.split)

locale pushing_machines =
  fixes sms :: "('k, 'i, ('k, 's, 'i, 'm, 'u) world) machines"
  assumes process_extends: "sms (kind i) = Some sm \<Longrightarrow> keeps (extends w0) UNIV (sm_process sm i x)"
begin

lemma dispatch_extends: "keeps (extends w0) UNIV (dispatch sms sig)"
  by (auto simp: dispatch_def process_extends keeps_ret split: option.splits)

lemma dispatch_extends_run:
  assumes "dispatch sms sig w = (x, w')"
  shows "extends w w'"
  using keepsD(1) [OF dispatch_extends extends_refl assms] .

end

lemma fail_tree_extends [keeps_rules]: "keeps (extends w0) UNIV (fail_tree r)"
proof (rule keepsI)
  fix w :: game_world and x w'
  assume w: "extends w0 w" and run: "fail_tree r w = (x, w')"
  have "grows (notification_queue w0) (fold (\<lambda>i. nq_priority_send (cancel_for i)) js (notification_queue w))" for js
    using w by (intro grows_fold) (simp_all add: extends_def nq_priority_send_def grows_push)
  with w run show "extends w0 w' \<and> (\<forall>p. x = Panicked p \<longrightarrow> p \<in> UNIV)"
    by (auto simp: fail_tree_apply extends_def)
qed

lemma game_new_rand_extends [keeps_rules]: "keeps (extends w0) UNIV (game_new_rand k)"
  unfolding game_new_rand_def by (intro keeps_rules) (simp add: extends_def)

lemma record_failure_extends [keeps_rules]:
  "keeps (extends w0) UNIV (modifies (\<lambda>w. w\<lparr>user := f w\<rparr>))"
  by (auto simp: keeps_def cmd_simps extends_def)

interpretation game_pushes: pushing_machines game_machines
proof
  fix i :: "game state_id" and sm :: "(game, game_input, game_world) machine" and w0 x
  assume sm: "game_machines (kind i) = Some sm"
  have r: "keeps (extends w0) UNIV (return_packet j p)" for j p
    unfolding return_packet_def Let_def by (cases "kind j") (simp_all add: keeps_rules)
  have "keeps (extends w0) UNIV (menu_process i x)"
    unfolding menu_process_def by (cases x) (auto split: menu_input.splits intro!: keeps_rules)
  moreover have "keeps (extends w0) UNIV (ping_input_step i y)" for y
    unfolding ping_input_step_def Let_def by (cases y) (auto intro!: keeps_rules r)
  then have "keeps (extends w0) UNIV (ping_process i x)"
    unfolding ping_process_def by (cases x) (auto intro!: keeps_rules)
  moreover have "keeps (extends w0) UNIV (pong_input_step i y)" for y
    unfolding pong_input_step_def Let_def by (cases y) (auto intro!: keeps_rules r)
  then have "keeps (extends w0) UNIV (pong_process i x)"
    unfolding pong_process_def by (cases x) (auto intro!: keeps_rules)
  ultimately show "keeps (extends w0) UNIV (sm_process sm i x)"
    using sm by (cases "kind i") auto
qed

section \<open>Parked tasks\<close>

text \<open>The invariant of a single consumer, for a task of the system and its queue.\<close>

definition parked_ok :: "waker \<Rightarrow> 'a deque \<Rightarrow> task_state \<Rightarrow> bool" where
  "parked_ok wk q t \<longleftrightarrow> wake_inv wk \<lparr>cq = q, crx = stream,
     parked = (case t of Parked n \<Rightarrow> True | _ \<Rightarrow> False),
     mark = (case t of Parked n \<Rightarrow> n | _ \<Rightarrow> 0), taken = []\<rparr>"

lemma parked_ok_unfold:
  "parked_ok wk q t \<longleftrightarrow>
     (\<forall>n \<in> set (rx_notifiers q). handle n = wk) \<and>
     (\<forall>n. t = Parked n \<longrightarrow> n \<le> length (wakes q) \<and>
        (wk \<in> set (drop n (wakes q)) \<or> queue_values q = [] \<and> rx_notifiers q \<noteq> []))"
  by (auto simp: parked_ok_def wake_inv_def woken_def split: task_state.splits)

lemma parked_ok_push: "parked_ok wk q t \<Longrightarrow> parked_ok wk (run_push p q) t"
  unfolding parked_ok_def by (drule consumer_push_inv [where p = p]) simp

lemma parked_ok_grows:
  assumes "parked_ok wk q t" and "grows q q'"
  shows "parked_ok wk q' t"
proof -
  have "parked_ok wk (run_ops run_push ps q) t" for ps
    using assms(1) by (induction ps arbitrary: q) (simp_all add: parked_ok_push)
  with assms(2) show ?thesis by (auto simp: grows_def)
qed

lemma parked_ok_running: "parked_ok wk q t \<Longrightarrow> parked_ok wk q Running"
  by (simp add: parked_ok_unfold)

lemma parked_ok_popped:
  assumes "parked_ok wk q t" and "poll_next wk rx q = (Ready (Some v), rx', q')"
  shows "parked_ok wk q' Running"
  using assms(1) poll_next_Ready(3) [OF assms(2)] by (simp add: parked_ok_unfold)

lemma parked_ok_pending:
  assumes "parked_ok wk q t" and "poll_next wk rx q = (Pending, rx', q')"
  shows "parked_ok wk q' (Parked (length (wakes q')))"
  by (cases rule: poll_next_cases [where q = q and w = wk and rx = rx])
    (use assms in \<open>auto simp: parked_ok_unfold queue_values_def\<close>)

lemma parked_ok_quiet:
  assumes "parked_ok wk q t" and "\<not> runnable wk q t" and "t \<noteq> Finished"
  shows "queue_values q = []"
  using assms by (cases t) (auto simp: parked_ok_unfold runnable_def)

section \<open>Invariants of the system\<close>

definition tasks_ok :: "('k, 's, 'i, 'r, 'm, 'u, 'p, 'q) system \<Rightarrow> bool" where
  "tasks_ok s \<longleftrightarrow>
     parked_ok manager_waker (signal_queue (sys_world s)) (manager_task s) \<and>
     parked_ok nm_waker (notification_queue (sys_world s)) (nm_task s) \<and>
     nm_task s \<noteq> Finished"

lemma spawned_tasks_ok: "tasks_ok (spawned (world_new t u))"
  by (simp add: tasks_ok_def spawned_def parked_ok_unfold deque_new_def)

lemma push_signal_grows: "grows q0 q \<Longrightarrow> grows q0 (push_signal i x q)"
  by (simp add: push_signal_def grows_push split: option.split)

lemma tick_grows: "grows q (snd (tick R it t (L, q)))"
proof -
  have "grows q0 (snd (release_timers R t js (M, q)))" if "grows q0 q" for q0 js M and q :: "('a, 'b) signal deque"
    using that by (induction js arbitrary: M q) (auto simp: push_signal_grows)
  moreover have "grows q0 (release_retained R xs q)" if "grows q0 q" for q0 xs and q :: "('a, 'b) signal deque"
    using that by (induction xs arbitrary: q) (auto simp: push_signal_grows)
  ultimately show ?thesis by (simp add: tick_def Let_def split_beta grows_refl)
qed

lemma inbound_grows: "inbound_step I pr p q = (x, q') \<Longrightarrow> grows q q'"
  by (auto simp: inbound_step_apply grows_refl grows_push split: outcome.splits option.splits)

lemma manager_step_queues:
  assumes "pushing_machines sms"
    and "manager_step sms wk rx w = (st, rx', w')"
    and "parked_ok wk (signal_queue w) t" and "parked_ok wk' (notification_queue w) t'"
  shows "parked_ok wk (signal_queue w') (task_after st (signal_queue w'))"
    and "parked_ok wk' (notification_queue w') t'"
proof -
  have "parked_ok wk (signal_queue w') (task_after st (signal_queue w')) \<and>
    parked_ok wk' (notification_queue w') t'"
  proof (cases "poll_next wk rx (signal_queue w)")
    case (fields r rx1 q)
    show ?thesis
    proof (cases r)
      case Pending
      with fields assms parked_ok_pending [OF assms(3)] show ?thesis
        by (auto simp: manager_step_def task_after_def)
    next
      case (Ready v)
      with fields obtain sig where sig: "v = Some sig"
        by (cases rule: poll_next_cases [where q = "signal_queue w" and w = wk and rx = rx]) auto
      obtain x w1 where d: "dispatch sms sig (w\<lparr>signal_queue := q\<rparr>) = (x, w1)" by fastforce
      have ext: "extends (w\<lparr>signal_queue := q\<rparr>) w1"
        using pushing_machines.dispatch_extends_run [OF assms(1) d] .
      have "parked_ok wk q Running"
        using parked_ok_popped [OF assms(3), of rx sig rx1 q] fields Ready sig by simp
      with ext have "parked_ok wk (signal_queue w1) Running" and "parked_ok wk' (notification_queue w1) t'"
        using assms(4) by (auto simp: extends_def intro: parked_ok_grows)
      with assms(2) fields Ready sig d show ?thesis
        by (cases x) (auto simp: manager_step_def task_after_def parked_ok_unfold)
    qed
  qed
  then show "parked_ok wk (signal_queue w') (task_after st (signal_queue w'))"
    "parked_ok wk' (notification_queue w') t'" by auto
qed

lemma manager_step_now:
  assumes "pushing_machines sms" and "manager_step sms wk rx w = (st, rx', w')"
  shows "now w' = now w"
proof (cases rule: poll_next_cases [where q = "signal_queue w" and w = wk and rx = rx])
  case (popped v q)
  obtain x w1 where d: "dispatch sms v (w\<lparr>signal_queue := q\<rparr>) = (x, w1)" by fastforce
  then have "now w1 = now w"
    using pushing_machines.dispatch_extends_run [OF assms(1) d] by (simp add: extends_def)
  with popped d assms(2) show ?thesis by (cases x) (auto simp: manager_step_def)
next
  case empty
  with assms(2) show ?thesis by (auto simp: manager_step_def)
qed

lemma receive_frame [simp]:
  "sys_world (receive I np c m s) = sys_world s"
  "manager_task (receive I np c m s) = manager_task s" "nm_task (receive I np c m s) = nm_task s"
  "manager_rx (receive I np c m s) = manager_rx s" "nm_rx (receive I np c m s) = nm_rx s"
  "sys_channels (receive I np c m s) = sys_channels s" "packets (receive I np c m s) = packets s"
  "inbound_on (receive I np c m s) = inbound_on s"
  by (simp_all add: receive_def split: boxed_np.splits)

lemma step_tasks_ok:
  assumes "pushing_machines (sys_machines P)" and "sys_step I P s e s'" and "tasks_ok s"
  shows "tasks_ok s'"
  using assms(2,3)
proof (induction rule: sys_step.induct)
  case (manager_turn s t st rx w)
  then show ?case
    using manager_step_queues [OF assms(1), of manager_waker "manager_rx s" "(sys_world s)\<lparr>now := t\<rparr>" st rx w
        "manager_task s" nm_waker "nm_task s"]
    by (simp add: tasks_ok_def)
next
  case (nm_route_one subs s m rx q)
  then show ?case by (auto simp: tasks_ok_def intro: parked_ok_popped)
next
  case (nm_wait subs s rx q)
  then show ?case by (auto simp: tasks_ok_def intro: parked_ok_pending)
next
  case (read_packet c ad s ic p ps x q)
  then show ?case using inbound_grows [of I "router ad" p] by (auto simp: tasks_ok_def intro: parked_ok_grows)
next
  case (ticked c tm s t it L q)
  then show ?case
    using tick_grows [of "signal_queue (sys_world s)" I it t "ledgers s c"]
    by (auto simp: tasks_ok_def intro: parked_ok_grows)
qed (simp_all add: tasks_ok_def parked_ok_push)

text \<open>What every step keeps, every run keeps.\<close>

locale kept_by_steps =
  fixes I :: "('k, 's, 'i, 'r, 'm, 't, 'p, 'q) ingress"
    and P :: "('k, 'i, ('k, 's, 'i, 'm, 'u) world, 'p, 't) program"
    and J :: "('k, 's, 'i, 'r, 'm, 'u, 'p, 'q) system \<Rightarrow> bool"
  assumes step_keeps: "sys_step I P s e s' \<Longrightarrow> J s \<Longrightarrow> J s'"
begin

lemma run_keeps: "sys_run I P s es s' \<Longrightarrow> J s \<Longrightarrow> J s'"
  by (induction rule: sys_run.induct) (auto intro: step_keeps)

end

interpretation tasks_kept:
  kept_by_steps I P "\<lambda>s. pushing_machines (sys_machines P) \<longrightarrow> tasks_ok s" for I P
  by unfold_locales (auto intro: step_tasks_ok)

primrec task_event :: "('k, 'i, 'm, 'p) sys_event \<Rightarrow> bool" where
  "task_event (Manager_turn t) = True"
| "task_event Nm_turn = True"
| "task_event (Received c) = True"
| "task_event (Read_packet c) = True"
| "task_event (Ticked c it t) = False"
| "task_event (Signalled p) = False"
| "task_event (Notified p) = False"
| "task_event (Packet_arrived c p) = False"

text \<open>A task that is runnable, and a channel that holds something, have a step.\<close>

lemma manager_can_turn:
  assumes "runnable manager_waker (signal_queue (sys_world s)) (manager_task s)"
  shows "\<exists>s'. sys_step I P s (Manager_turn (now (sys_world s))) s'"
proof -
  obtain st rx w where "manager_step (sys_machines P) manager_waker (manager_rx s)
      ((sys_world s)\<lparr>now := now (sys_world s)\<rparr>) = (st, rx, w)" by (metis prod_cases3)
  with assms show ?thesis by (blast intro: sys_step.manager_turn)
qed

lemma nm_can_turn:
  assumes "sys_subscriptions P = Some subs"
    and "runnable nm_waker (notification_queue (sys_world s)) (nm_task s)"
  shows "\<exists>s'. sys_step I P s Nm_turn s'"
proof (cases rule: poll_next_cases [where q = "notification_queue (sys_world s)" and w = nm_waker
    and rx = "nm_rx s"])
  case (popped v q)
  from sys_step.nm_route_one [OF assms popped(2)] show ?thesis by blast
next
  case empty
  from sys_step.nm_wait [OF assms empty(2)] show ?thesis by blast
qed

lemma can_receive:
  assumes "prog_role P c = Some np" and "chan_queue (sys_channels s) c \<noteq> []"
  shows "\<exists>s'. sys_step I P s (Received c) s'"
proof -
  obtain m ch where "chan_recv c (sys_channels s) = (Some m, ch)"
    using assms(2) by (cases "chan_queue (sys_channels s) c") (auto simp: chan_recv_def)
  with assms(1) show ?thesis by (blast intro: sys_step.received)
qed

lemma can_read_packet:
  assumes "prog_role P c = Some (Ingress_np ad)" and "inbound_on s c" and "inbound_rx ad = Some ic"
    and "packets s ic \<noteq> []"
  shows "\<exists>s'. sys_step I P s (Read_packet c) s'"
proof -
  obtain p ps where "packets s ic = p # ps" using assms(4) by (cases "packets s ic") auto
  moreover obtain x q where "inbound_step I (router ad) p (signal_queue (sys_world s)) = (x, q)" by fastforce
  ultimately show ?thesis using assms(1-3) by (blast intro: sys_step.read_packet)
qed

lemma run_tasks_ok:
  assumes "pushing_machines (sys_machines P)" and "sys_run I P (spawned (world_new t u)) es s"
  shows "tasks_ok s"
  using tasks_kept.run_keeps [OF assms(2)] assms(1) by (simp add: spawned_tasks_ok)

text \<open>
  C19. The system never falls asleep with work to do: in every state that any order of turns,
  ticks and outside pushes can lead to, if no task can take a turn and the manager's task was
  not ended by a panic, then the signal queue is empty, the notification queue is empty when
  there is a notification manager, every processor's channel is empty, and so are the packets of
  every ingress task that still runs. The machines may be any that only push to the two queues.
\<close>

theorem quiet_system_is_done:
  assumes "pushing_machines (sys_machines P)" and "sys_run I P (spawned (world_new t u)) es s"
    and "\<And>e s'. task_event e \<Longrightarrow> \<not> sys_step I P s e s'" and "manager_task s \<noteq> Finished"
  shows "queue_values (signal_queue (sys_world s)) = [] \<and>
    (sys_subscriptions P \<noteq> None \<longrightarrow> queue_values (notification_queue (sys_world s)) = []) \<and>
    (\<forall>c. prog_role P c \<noteq> None \<longrightarrow> chan_queue (sys_channels s) c = []) \<and>
    (\<forall>c ad ic. prog_role P c = Some (Ingress_np ad) \<longrightarrow> inbound_on s c \<longrightarrow> inbound_rx ad = Some ic \<longrightarrow>
      packets s ic = [])"
proof (intro conjI impI allI)
  have ok: "parked_ok manager_waker (signal_queue (sys_world s)) (manager_task s)"
    "parked_ok nm_waker (notification_queue (sys_world s)) (nm_task s)" "nm_task s \<noteq> Finished"
    using run_tasks_ok [OF assms(1,2)] by (simp_all add: tasks_ok_def)
  have "\<not> runnable manager_waker (signal_queue (sys_world s)) (manager_task s)"
    using manager_can_turn [of s I P] assms(3) [of "Manager_turn _"] by auto
  with ok(1) show "queue_values (signal_queue (sys_world s)) = []" using assms(4) by (rule parked_ok_quiet)
  {
    assume "sys_subscriptions P \<noteq> None"
    then have "\<not> runnable nm_waker (notification_queue (sys_world s)) (nm_task s)"
      using nm_can_turn [of P _ s I] assms(3) [of Nm_turn] by auto
    with ok(2) show "queue_values (notification_queue (sys_world s)) = []" using ok(3) by (rule parked_ok_quiet)
  }
  {
    fix c assume "prog_role P c \<noteq> None"
    then show "chan_queue (sys_channels s) c = []"
      using can_receive [of P c _ s I] assms(3) [of "Received c"] by auto
  }
  {
    fix c ad ic
    assume "prog_role P c = Some (Ingress_np ad)" "inbound_on s c" "inbound_rx ad = Some ic"
    then show "packets s ic = []"
      using can_read_packet [of P c ad s ic I] assms(3) [of "Read_packet c"] by auto
  }
qed

lemma sample_end_quiet:
  assumes "sys_step game_ingress duel_program sample_end e s'"
  shows "\<not> task_event e"
proof
  assume "task_event e"
  then show False
    using assms
    by (cases e) (auto elim!: manager_turnE nm_turnE receivedE read_packetE
        simp: sample_defs duel_timers_def channels_new_def chan_recv_def split: if_splits)
qed

theorem quiet_system_is_done_witness:
  "\<exists>es. sys_run game_ingress duel_program (spawned (world_new 0 no_user)) es sample_end \<and>
    queue_values (signal_queue (sys_world sample_end)) = [] \<and>
    queue_values (notification_queue (sys_world sample_end)) = [] \<and>
    chan_queue (sys_channels sample_end) 0 = []"
proof -
  obtain es where run: "sys_run game_ingress duel_program (spawned (world_new 0 no_user)) es sample_end"
    using sample_run by (auto simp: sample_start_def)
  have "task_event e \<Longrightarrow> \<not> sys_step game_ingress duel_program sample_end e s'" for e s'
    using sample_end_quiet by blast
  from quiet_system_is_done [OF _ run this] show ?thesis
    using game_pushes.pushing_machines_axioms run by (auto simp: sample_end_def)
qed

section \<open>Soundness of the whole system\<close>

definition ledgers_ok :: "('k, 's, 'i, 'r, 'm, 'u, 'p, 'q) system \<Rightarrow> bool" where
  "ledgers_ok s \<longleftrightarrow> (\<forall>c. ledger_wf (ledgers s c))"

lemma timeout_notified_wf: "ledger_wf L \<Longrightarrow> ledger_wf (timeout_notified R m L)"
  by (simp add: timeout_notified_def apply_operation_wf split: option.split)

lemma step_ledgers_ok:
  assumes "sys_step I P s e s'" and "ledgers_ok s"
  shows "ledgers_ok s'"
  using assms
proof (induction rule: sys_step.induct)
  case (received c np s m ch)
  then show ?case
    by (simp add: ledgers_ok_def receive_def timeout_notified_wf split: boxed_np.split)
next
  case (ticked c tm s t it L q)
  then have "ledger_wf L"
    using tick_wf(1) [of "ledgers s c" it I t "signal_queue (sys_world s)"] by (simp add: ledgers_ok_def)
  with ticked show ?case by (simp add: ledgers_ok_def)
qed (simp_all add: ledgers_ok_def)

text \<open>Only the manager's turns reach the store and the machines' own state.\<close>

lemma step_store:
  assumes "sys_step I P s e s'" and "\<And>t. e \<noteq> Manager_turn t"
  shows "state_store (sys_world s') = state_store (sys_world s) \<and> user (sys_world s') = user (sys_world s)"
  using assms by (induction rule: sys_step.induct) auto

lemma step_game_sound:
  assumes "sys_machines P = game_machines" and "sys_step I P s e s'" and "game_sound (sys_world s)"
  shows "game_sound (sys_world s')"
proof (cases "\<exists>t. e = Manager_turn t")
  case True
  then obtain t where "sys_step I P s (Manager_turn t) s'" using assms(2) by blast
  then show ?thesis
  proof (rule manager_turnE)
    fix st rx w
    assume "s' = s\<lparr>sys_world := w, manager_rx := rx, manager_task := task_after st (signal_queue w)\<rparr>"
      and step: "manager_step (sys_machines P) manager_waker (manager_rx s) ((sys_world s)\<lparr>now := t\<rparr>) = (st, rx, w)"
    with game_run.step_keeps [OF _ step [unfolded assms(1)]] assms(3) show ?thesis by simp
  qed
next
  case False
  with step_store [OF assms(2)] assms(3) show ?thesis by (simp add: world_sound_def)
qed

interpretation ledgers_kept: kept_by_steps I P ledgers_ok for I P
  by unfold_locales (rule step_ledgers_ok)

interpretation store_kept:
  kept_by_steps I P "\<lambda>s. sys_machines P = game_machines \<longrightarrow> game_sound (sys_world s)" for I P
  by unfold_locales (auto intro: step_game_sound)

text \<open>
  C20. In every state that a system with the three machines of the manager's tests can reach,
  with any processors, any interleaving of its tasks and any signals, notifications and packets
  from outside, a state that can be read belongs to the kind of its id, the store is sound and
  in every timeout ledger the two indices agree.
\<close>

theorem system_stays_typed:
  assumes "sys_machines P = game_machines" and "sys_run I P (spawned (world_new t u)) es s"
  shows "world_sound game_rex (sys_world s) \<and> (\<forall>c. ledger_wf (ledgers s c)) \<and>
    (\<forall>i st w'. ctx_get_state i (sys_world s) = (Returned (Some st), w') \<longrightarrow> game_as_ref st = kind i)"
proof -
  have "game_sound (sys_world s)" and "ledgers_ok s"
    using store_kept.run_keeps [OF assms(2)] ledgers_kept.run_keeps [OF assms(2)] assms(1)
    by (simp_all add: spawned_def ledgers_ok_def ledger_new_wf)
  then show ?thesis using ctx_get_state_kind [of game_rex "sys_world s"] by (auto simp: ledgers_ok_def)
qed

theorem system_stays_typed_witness:
  "\<exists>es. sys_run game_ingress duel_program (spawned (world_new 0 no_user)) es sample_end \<and>
    world_sound game_rex (sys_world sample_end) \<and> ledger_wf (ledgers sample_end 0)"
proof -
  obtain es where run: "sys_run game_ingress duel_program (spawned (world_new 0 no_user)) es sample_end"
    using sample_run by (auto simp: sample_start_def)
  with system_stays_typed [OF _ run] show ?thesis by auto
qed

end
