(* ===== verification/Rex_Routing.thy ===== *)
theory Rex_Routing
  imports Rex_Quiet
begin

text \<open>
  The way of a timeout request from the notification queue to a ledger, through the notification
  manager's task and the channel of a timeout manager. The order in which the tasks on this way
  take their turns does not matter, and they come to an end.
\<close>

section \<open>Requests under way\<close>

definition subscribers :: "'t subscriptions option \<Rightarrow> 't \<Rightarrow> channel list" where
  "subscribers so t = (case so of None \<Rightarrow> [] | Some subs \<Rightarrow> (case subs t of None \<Rightarrow> [] | Some cs \<Rightarrow> cs))"

lemma route_subscribers:
  "chan_queue (nm_route I subs m ch) d =
    (if chan_closed ch d then chan_queue ch d
     else chan_queue ch d @ replicate (count_list (subscribers (Some subs) (get_topic I m)) d) m)"
  by (simp add: nm_route_fold fold_send_queue subscribers_def)

text \<open>The messages that will reach channel \<open>c\<close> if nothing more is sent, in order.\<close>

definition backlog ::
  "('k, 's, 'i, 'r, 'm, 't, 'p, 'q) ingress \<Rightarrow> 't subscriptions option \<Rightarrow> channel \<Rightarrow>
   ('k, 's, 'i, 'r, 'm, 'u, 'p, 'q) system \<Rightarrow> 'm list" where
  "backlog I so c s = chan_queue (sys_channels s) c @
     concat (map (\<lambda>m. replicate (count_list (subscribers so (get_topic I m)) c) m)
       (queue_values (notification_queue (sys_world s))))"

text \<open>The ledger behind channel \<open>c\<close> once they have arrived.\<close>

definition settled_ledger ::
  "('k, 's, 'i, 'r, 'm, 't, 'p, 'q) ingress \<Rightarrow> 't subscriptions option \<Rightarrow> channel \<Rightarrow>
   ('k, 's, 'i, 'r, 'm, 'u, 'p, 'q) system \<Rightarrow> ('k, 'r) ledger" where
  "settled_ledger I so c s = fold (timeout_notified I) (backlog I so c s) (ledgers s c)"

primrec routing_event :: "('k, 'i, 'm, 'p) sys_event \<Rightarrow> bool" where
  "routing_event (Manager_turn t) = False"
| "routing_event Nm_turn = True"
| "routing_event (Received c) = True"
| "routing_event (Read_packet c) = False"
| "routing_event (Ticked c it t) = False"
| "routing_event (Signalled p) = False"
| "routing_event (Notified p) = False"
| "routing_event (Packet_arrived c p) = False"

lemma chan_recv_Some:
  "chan_recv c ch = (Some m, ch') \<longleftrightarrow>
    (\<exists>ms. chan_queue ch c = m # ms \<and> ch' = ch\<lparr>chan_queue := (chan_queue ch)(c := ms)\<rparr>)"
  by (auto simp: chan_recv_def split: list.splits)

lemma receive_ledger:
  "ledgers (receive I np c m s) d =
    (if d = c \<and> (\<exists>tm. np = Timeout_np tm) then timeout_notified I m (ledgers s d) else ledgers s d)"
  by (auto simp: receive_def split: boxed_np.split)

lemma step_closed: "sys_step I P s e s' \<Longrightarrow> chan_closed (sys_channels s') = chan_closed (sys_channels s)"
  by (induction rule: sys_step.induct) (auto simp: route_queue(2) chan_recv_Some)

lemma routing_settled:
  assumes "sys_step I P s e s'" and "routing_event e"
    and "prog_role P c = Some (Timeout_np tm)" and "\<not> chan_closed (sys_channels s) c"
  shows "settled_ledger I (sys_subscriptions P) c s' = settled_ledger I (sys_subscriptions P) c s"
  using assms
proof (induction rule: sys_step.induct)
  case (nm_route_one subs s m rx q)
  then show ?case
    by (simp add: settled_ledger_def backlog_def route_subscribers poll_next_Ready(1) [OF nm_route_one.hyps(3)])
next
  case (nm_wait subs s rx q)
  then have "queue_values q = queue_values (notification_queue (sys_world s))"
    by (cases rule: poll_next_cases [where q = "notification_queue (sys_world s)" and w = nm_waker and rx = "nm_rx s"])
      (auto simp: queue_values_def)
  then show ?case by (simp add: settled_ledger_def backlog_def)
next
  case (received d np s m ch)
  then show ?case
    by (auto simp: settled_ledger_def backlog_def chan_recv_Some receive_ledger)
qed simp_all

lemma routing_run_settled:
  assumes "sys_run I P s es s'" and "\<forall>e \<in> set es. routing_event e"
    and "prog_role P c = Some (Timeout_np tm)" and "\<not> chan_closed (sys_channels s) c"
  shows "settled_ledger I (sys_subscriptions P) c s' = settled_ledger I (sys_subscriptions P) c s \<and>
    \<not> chan_closed (sys_channels s') c"
  using assms
proof (induction rule: sys_run.induct)
  case (run_snoc s es s' e s'')
  then show ?case using routing_settled [of I P s' e s'' c tm] step_closed [of I P s' e s''] by simp
qed simp

text \<open>
  C21. From one state, however the notification manager's task and the processors' tasks take
  turns, the ledger of a timeout manager is the same once no request is under way, and it is the
  one that results from applying the requests in channel and queue order.
\<close>

theorem routing_order_irrelevant:
  assumes "prog_role P c = Some (Timeout_np tm)" and "\<not> chan_closed (sys_channels s) c"
    and "sys_run I P s es1 s1" and "\<forall>e \<in> set es1. routing_event e"
    and "backlog I (sys_subscriptions P) c s1 = []"
    and "sys_run I P s es2 s2" and "\<forall>e \<in> set es2. routing_event e"
    and "backlog I (sys_subscriptions P) c s2 = []"
  shows "ledgers s1 c = fold (timeout_notified I) (backlog I (sys_subscriptions P) c s) (ledgers s c) \<and>
    ledgers s2 c = ledgers s1 c"
  using routing_run_settled [OF assms(3,4,1,2)] routing_run_settled [OF assms(6,7,1,2)] assms(5,8)
  by (simp add: settled_ledger_def)

theorem routing_order_irrelevant_witness:
  "\<exists>s. sys_run game_ingress duel_program sample_sent [Nm_turn, Received 0, Nm_turn] s \<and>
    ledgers s 0 = timeout_notified game_ingress (cancel_msg ping_2) ledger_new"
proof -
  let ?I = game_ingress and ?P = duel_program
  have one: "sys_run ?I ?P sample_sent [Nm_turn, Received 0] sample_recorded"
    using run_snoc [OF run_snoc [OF run_nil sample_steps(2)] sample_steps(3)] by simp
  obtain s where step: "sys_step ?I ?P sample_recorded Nm_turn s"
    and rest: "sys_step ?I ?P s (Manager_turn 0) sample_end" using sample_sleep by blast
  have two: "sys_run ?I ?P sample_sent [Nm_turn, Received 0, Nm_turn] s"
    using run_snoc [OF one step] by simp
  have "backlog ?I (Some [() \<mapsto> [0]]) 0 sample_sent = [cancel_msg ping_2]"
    and "backlog ?I (Some [() \<mapsto> [0]]) 0 sample_recorded = []"
    and "ledgers sample_sent 0 = ledger_new" and "\<not> chan_closed (sys_channels sample_sent) 0"
    by (simp_all add: backlog_def sample_defs channels_new_def queue_values_def subscribers_def)
  moreover have "backlog ?I (Some [() \<mapsto> [0]]) 0 s = []"
    using step by (auto elim!: nm_turnE simp: backlog_def sample_defs channels_new_def queue_values_def)
  ultimately show ?thesis
    using routing_order_irrelevant [of ?P 0 duel_timers sample_sent ?I, OF _ _ one _ _ two] two by auto
qed

section \<open>Routing ends\<close>

definition routing_work ::
  "('k, 's, 'i, 'r, 'm, 't, 'p, 'q) ingress \<Rightarrow>
   ('k, 'i, ('k, 's, 'i, 'm, 'u) world, 'p, 't) program \<Rightarrow>
   ('k, 's, 'i, 'r, 'm, 'u, 'p, 'q) system \<Rightarrow> nat" where
  "routing_work I P s =
     sum_list (map (\<lambda>m. Suc (length (subscribers (sys_subscriptions P) (get_topic I m))))
       (queue_values (notification_queue (sys_world s)))) +
     (\<Sum>c \<in> dom (prog_role P). length (chan_queue (sys_channels s) c)) +
     (if runnable nm_waker (notification_queue (sys_world s)) (nm_task s) then 1 else 0)"

lemma count_list_sum: "finite C \<Longrightarrow> (\<Sum>c \<in> C. count_list xs c) \<le> length xs"
proof (induction xs)
  case (Cons x xs)
  have "(\<Sum>c \<in> C. count_list (x # xs) c) = (\<Sum>c \<in> C. (if x = c then 1 else 0) + count_list xs c)"
    by (intro sum.cong) auto
  also have "\<dots> = (\<Sum>c \<in> C. if x = c then 1 else 0) + (\<Sum>c \<in> C. count_list xs c)" by (rule sum.distrib)
  also have "(\<Sum>c \<in> C. if x = c then 1 else 0 :: nat) \<le> 1" using Cons.prems by (simp add: sum.delta')
  finally show ?case using Cons.IH [OF Cons.prems] by simp
qed simp

lemma runnable_parked_end: "\<not> runnable wk q (Parked (length (wakes q)))"
  by (simp add: runnable_def)

lemma routing_step_decreases:
  assumes "sys_step I P s e s'" and "routing_event e" and "finite (dom (prog_role P))"
  shows "routing_work I P s' < routing_work I P s"
  using assms
proof (induction rule: sys_step.induct)
  case (nm_route_one subs s m rx q)
  let ?n = "count_list (subscribers (Some subs) (get_topic I m))"
  let ?C = "dom (prog_role P)"
  have "(\<Sum>c \<in> ?C. length (chan_queue (nm_route I subs m (sys_channels s)) c)) \<le>
      (\<Sum>c \<in> ?C. length (chan_queue (sys_channels s) c) + ?n c)"
    by (intro sum_mono) (simp add: route_subscribers)
  also have "\<dots> \<le> (\<Sum>c \<in> ?C. length (chan_queue (sys_channels s) c)) +
      length (subscribers (Some subs) (get_topic I m))"
    using count_list_sum [OF nm_route_one.prems(2)] by (simp add: sum.distrib)
  finally show ?case
    using nm_route_one.hyps
    by (simp add: routing_work_def poll_next_Ready(1) [OF nm_route_one.hyps(3)])
next
  case (nm_wait subs s rx q)
  then have "queue_values q = queue_values (notification_queue (sys_world s))"
    by (cases rule: poll_next_cases [where q = "notification_queue (sys_world s)" and w = nm_waker and rx = "nm_rx s"])
      (auto simp: queue_values_def)
  with nm_wait show ?case by (simp add: routing_work_def runnable_parked_end)
next
  case (received d np s m ch)
  then obtain ms where ms: "chan_queue (sys_channels s) d = m # ms"
    "ch = (sys_channels s)\<lparr>chan_queue := (chan_queue (sys_channels s))(d := ms)\<rparr>"
    by (auto simp: chan_recv_Some)
  have "(\<Sum>c \<in> dom (prog_role P). length (chan_queue ch c)) <
      (\<Sum>c \<in> dom (prog_role P). length (chan_queue (sys_channels s) c))"
    using received ms by (intro sum_strict_mono_ex1) auto
  then show ?case by (simp add: routing_work_def)
qed simp_all

text \<open>
  C22. The routing of notifications ends: from a state the system can reach, at most
  routing_work turns of the notification manager's and the processors' tasks are possible
  without a turn of another task, in any order, and when none is possible any more, the
  notification queue and every processor's channel are empty.
\<close>

theorem routing_terminates:
  assumes "finite (dom (prog_role P))" and "pushing_machines (sys_machines P)"
    and "sys_subscriptions P = Some subs"
    and "sys_run I P (spawned (world_new t u)) es0 s" and "sys_run I P s es s'"
    and "\<forall>e \<in> set es. routing_event e"
  shows "length es \<le> routing_work I P s \<and>
    ((\<nexists>e s''. routing_event e \<and> sys_step I P s' e s'') \<longrightarrow>
      queue_values (notification_queue (sys_world s')) = [] \<and>
      (\<forall>c. prog_role P c \<noteq> None \<longrightarrow> chan_queue (sys_channels s') c = []))"
proof
  have "length es + routing_work I P s' \<le> routing_work I P s"
    using assms(5,6)
  proof (induction rule: sys_run.induct)
    case (run_snoc s es s' e s'')
    then show ?case using routing_step_decreases [of I P s' e s'', OF _ _ assms(1)] by fastforce
  qed simp
  then show "length es \<le> routing_work I P s" by simp
  have "tasks_ok s" using run_tasks_ok [OF assms(2,4)] .
  then have ok: "tasks_ok s'" using tasks_kept.run_keeps [OF assms(5)] assms(2) by simp
  show "(\<nexists>e s''. routing_event e \<and> sys_step I P s' e s'') \<longrightarrow>
      queue_values (notification_queue (sys_world s')) = [] \<and>
      (\<forall>c. prog_role P c \<noteq> None \<longrightarrow> chan_queue (sys_channels s') c = [])"
  proof (intro impI conjI allI)
    assume none: "\<nexists>e s''. routing_event e \<and> sys_step I P s' e s''"
    then have "\<not> runnable nm_waker (notification_queue (sys_world s')) (nm_task s')"
      using nm_can_turn [OF assms(3), of s' I] by (metis routing_event.simps(2))
    with ok show "queue_values (notification_queue (sys_world s')) = []"
      by (auto simp: tasks_ok_def intro: parked_ok_quiet)
    fix c assume "prog_role P c \<noteq> None"
    with none show "chan_queue (sys_channels s') c = []"
      using can_receive [of P c _ s' I] by (metis not_None_eq routing_event.simps(3))
  qed
qed

theorem routing_terminates_witness:
  "\<exists>s. sys_run game_ingress duel_program sample_sent [Nm_turn, Received 0, Nm_turn] s \<and>
    3 \<le> routing_work game_ingress duel_program sample_sent"
proof -
  let ?I = game_ingress and ?P = duel_program
  obtain s where "sys_step ?I ?P sample_recorded Nm_turn s" using sample_sleep by blast
  from run_snoc [OF run_snoc [OF run_snoc [OF run_nil sample_steps(2)] sample_steps(3)] this]
  have run: "sys_run ?I ?P sample_sent [Nm_turn, Received 0, Nm_turn] s" by simp
  have "sys_run ?I ?P (spawned (world_new 0 no_user)) [Notified (Push_front (cancel_msg ping_2))] sample_sent"
    using run_snoc [OF run_nil sample_steps(1)] by (simp add: sample_start_def)
  from routing_terminates [OF _ _ _ this run] game_pushes.pushing_machines_axioms run
  show ?thesis by auto
qed

end
