(* ===== verification/Rex_Shows.thy ===== *)
theory Rex_Shows
  imports Rex_Routing
begin

text \<open>
  The system of the duel seen from some distance: what its world shows, and the timers that the
  timeout manager will have once the requests under way have reached it. How each step changes
  that.
\<close>

section \<open>What the game system shows\<close>

text \<open>
  The system at some distance: the view of its world without the timeout requests under way,
  and the deadlines and held items that the timeout manager will have once they have arrived.
\<close>

primrec msg_abs :: "game_msg \<Rightarrow> (game, packet) timer_abs \<Rightarrow> (game, packet) timer_abs" where
  "msg_abs (GameMsg r) T = timer_abs_step (Operate (req_id r) (req_op r)) T"

definition shows_duel :: "game_system \<Rightarrow> game_view \<Rightarrow> (game, packet) timer_abs \<Rightarrow> bool" where
  "shows_duel s b T \<longleftrightarrow> v_urgent b = [] \<and> v_normal b = [] \<and> manager_task s \<noteq> Finished \<and>
     \<not> chan_closed (sys_channels s) 0 \<and> ledger_wf (ledgers s 0) \<and>
     (\<exists>N T0. shows_view (sys_world s) (b\<lparr>v_urgent := N\<rparr>) \<and> timer_rel (ledgers s 0) T0 \<and>
        T = fold msg_abs (chan_queue (sys_channels s) 0 @ N) T0)"

definition idle :: "game_system \<Rightarrow> bool" where
  "idle s \<longleftrightarrow> queue_values (signal_queue (sys_world s)) = [] \<and>
     queue_values (notification_queue (sys_world s)) = [] \<and> chan_queue (sys_channels s) 0 = []"

lemma shows_duelE:
  assumes "shows_duel s b T"
  obtains N T0 where "shows_view (sys_world s) (b\<lparr>v_urgent := N\<rparr>)" and "v_urgent b = []" and "v_normal b = []"
    and "manager_task s \<noteq> Finished" and "\<not> chan_closed (sys_channels s) 0" and "ledger_wf (ledgers s 0)"
    and "timer_rel (ledgers s 0) T0" and "T = fold msg_abs (chan_queue (sys_channels s) 0 @ N) T0"
    and "front_values (signal_queue (sys_world s)) = v_front b"
    and "back_values (signal_queue (sys_world s)) = v_back b"
    and "front_values (notification_queue (sys_world s)) = N"
    and "back_values (notification_queue (sys_world s)) = []"
    and "now (sys_world s) = v_now b"
proof -
  from assms obtain N T0 where "shows_view (sys_world s) (b\<lparr>v_urgent := N\<rparr>)"
    and "timer_rel (ledgers s 0) T0" "T = fold msg_abs (chan_queue (sys_channels s) 0 @ N) T0"
    unfolding shows_duel_def by blast
  with assms show thesis by (intro that [of N T0]) (simp_all add: shows_duel_def shows_view_iff)
qed

lemma timer_rel_notified:
  assumes "ledger_wf L" and "timer_rel L T"
  shows "timer_rel (timeout_notified game_ingress m L) (msg_abs m T)"
proof -
  obtain r D H where "m = GameMsg r" and T: "T = (D, H)" by (cases m, cases T)
  with timer_rel_operate [of L D H "req_id r" "req_op r"] assms show ?thesis
    by (simp add: timeout_notified_def)
qed

lemma shows_duel_nm:
  assumes "sys_step game_ingress duel_program s Nm_turn s'" and "shows_duel s b T"
  shows "shows_duel s' b T"
  using assms(2)
proof (rule shows_duelE)
  fix N T0
  assume w: "shows_view (sys_world s) (b\<lparr>v_urgent := N\<rparr>)" "v_urgent b = []" "v_normal b = []"
    and ok: "manager_task s \<noteq> Finished" "\<not> chan_closed (sys_channels s) 0" "ledger_wf (ledgers s 0)"
    and T: "timer_rel (ledgers s 0) T0" "T = fold msg_abs (chan_queue (sys_channels s) 0 @ N) T0"
    and q: "front_values (notification_queue (sys_world s)) = N"
      "back_values (notification_queue (sys_world s)) = []"
  show "shows_duel s' b T"
    using assms(1)
  proof (rule nm_turnE)
    fix subs m rx q'
    assume s': "s' = s\<lparr>sys_world := (sys_world s)\<lparr>notification_queue := q'\<rparr>, nm_rx := rx, nm_task := Running,
        sys_channels := nm_route game_ingress subs m (sys_channels s)\<rparr>"
      and subs: "sys_subscriptions duel_program = Some subs"
      and poll: "poll_next nm_waker (nm_rx s) (notification_queue (sys_world s)) = (Ready (Some m), rx, q')"
    have "pop_front (notification_queue (sys_world s)) = (Some m, q')"
      using poll by (cases rule: poll_next_cases
        [where q = "notification_queue (sys_world s)" and w = nm_waker and rx = "nm_rx s"]) auto
    with q obtain N' where "N = m # N'" "front_values q' = N'" "back_values q' = []"
      by (auto simp: pop_front_def split: list.splits)
    with w T ok subs show ?thesis
      unfolding shows_duel_def s'
      by (intro conjI exI [of _ N'] exI [of _ T0])
        (auto simp: shows_view_iff world_wf_def nm_route_fold chan_send_def)
  next
    fix subs rx q'
    assume s': "s' = s\<lparr>sys_world := (sys_world s)\<lparr>notification_queue := q'\<rparr>, nm_rx := rx,
        nm_task := Parked (length (wakes q'))\<rparr>"
      and poll: "poll_next nm_waker (nm_rx s) (notification_queue (sys_world s)) = (Pending, rx, q')"
    have "front_values q' = N" "back_values q' = []"
      using poll q by (cases rule: poll_next_cases
        [where q = "notification_queue (sys_world s)" and w = nm_waker and rx = "nm_rx s"]; auto)+
    with w T ok show ?thesis
      unfolding shows_duel_def s'
      by (intro conjI exI [of _ N] exI [of _ T0]) (auto simp: shows_view_iff world_wf_def)
  qed
qed

lemma shows_duel_received:
  assumes "sys_step game_ingress duel_program s (Received c) s'" and "shows_duel s b T"
  shows "shows_duel s' b T"
  using assms(2)
proof (rule shows_duelE)
  fix N T0
  assume w: "shows_view (sys_world s) (b\<lparr>v_urgent := N\<rparr>)" "v_urgent b = []" "v_normal b = []"
    and ok: "manager_task s \<noteq> Finished" "\<not> chan_closed (sys_channels s) 0" "ledger_wf (ledgers s 0)"
    and T: "timer_rel (ledgers s 0) T0" "T = fold msg_abs (chan_queue (sys_channels s) 0 @ N) T0"
  show "shows_duel s' b T"
    using assms(1)
  proof (rule receivedE)
    fix np m ch
    assume s': "s' = receive game_ingress np c m (s\<lparr>sys_channels := ch\<rparr>)"
      and np: "prog_role duel_program c = Some np" and ch: "chan_recv c (sys_channels s) = (Some m, ch)"
    from np have c: "c = 0" "np = Timeout_np duel_timers" by (auto split: if_splits)
    with ch obtain ms where ms: "chan_queue (sys_channels s) 0 = m # ms"
      "ch = (sys_channels s)\<lparr>chan_queue := (chan_queue (sys_channels s))(0 := ms)\<rparr>"
      by (auto simp: chan_recv_Some)
    show ?thesis
      unfolding shows_duel_def s' c
      using w T ok ms timer_rel_notified [OF ok(3) T(1), of m]
      by (intro conjI exI [of _ N] exI [of _ "msg_abs m T0"])
        (simp_all add: receive_def timeout_notified_wf)
  qed
qed

lemma shows_duel_routing:
  assumes "sys_step game_ingress duel_program s e s'" and "routing_event e" and "shows_duel s b T"
  shows "shows_duel s' b T"
  using assms by (cases e) (simp_all add: shows_duel_nm shows_duel_received)

text \<open>A turn of the manager with a signal, whose machine sends the requests \<open>ops\<close>, all urgent.\<close>

definition popped_view :: "instant \<Rightarrow> game_view \<Rightarrow> game_view" where
  "popped_view t b = b\<lparr>v_front := tl (v_front b),
     v_back := (if v_front b = [] then tl (v_back b) else v_back b), v_now := t\<rparr>"

lemma shows_duel_turn:
  assumes "sys_step game_ingress duel_program s (Manager_turn t) s'" and "shows_duel s b T"
    and "v_front b @ v_back b = sig # sigs"
    and "\<And>w N. shows_view w ((popped_view t b)\<lparr>v_urgent := N\<rparr>) \<Longrightarrow>
      \<exists>w' ops. dispatch game_machines sig w = (Returned (), w') \<and> Q ops \<and>
        shows_view w' (b'\<lparr>v_urgent := N @ ops\<rparr>)"
    and "v_urgent b' = []" and "v_normal b' = []"
  shows "\<exists>ops. Q ops \<and> shows_duel s' b' (fold msg_abs ops T)"
  using assms(2)
proof (rule shows_duelE)
  fix N T0
  assume w: "shows_view (sys_world s) (b\<lparr>v_urgent := N\<rparr>)" "v_urgent b = []" "v_normal b = []"
    and ok: "manager_task s \<noteq> Finished" "\<not> chan_closed (sys_channels s) 0" "ledger_wf (ledgers s 0)"
    and T: "timer_rel (ledgers s 0) T0" "T = fold msg_abs (chan_queue (sys_channels s) 0 @ N) T0"
    and lanes: "front_values (signal_queue (sys_world s)) = v_front b"
      "back_values (signal_queue (sys_world s)) = v_back b"
  let ?w = "(sys_world s)\<lparr>now := t\<rparr>"
  have q: "queue_values (signal_queue ?w) = sig # sigs"
    using assms(3) lanes by (simp add: queue_values_def)
  show ?thesis
    using assms(1)
  proof (rule manager_turnE)
    fix st rx w'
    assume s': "s' = s\<lparr>sys_world := w', manager_rx := rx, manager_task := task_after st (signal_queue w')\<rparr>"
      and step: "manager_step (sys_machines duel_program) manager_waker (manager_rx s) ?w = (st, rx, w')"
    show ?thesis
    proof (rule manager_step_signal [OF q, where wk = manager_waker and rx = "manager_rx s" and sms = game_machines])
      fix q'
      assume q': "queue_values q' = sigs" "front_values q' = tl (front_values (signal_queue ?w))"
        and run: "manager_step game_machines manager_waker (manager_rx s) ?w =
          (case dispatch game_machines sig (?w\<lparr>signal_queue := q'\<rparr>) of
            (Returned _, w') \<Rightarrow> (Handled, (manager_rx s)\<lparr>rx_awake := None\<rparr>, w')
          | (Panicked p, w') \<Rightarrow> (Died p, (manager_rx s)\<lparr>rx_awake := None\<rparr>, w'))"
      have "back_values q' = (if v_front b = [] then tl (v_back b) else v_back b)"
        using q' lanes assms(3) by (cases "v_front b") (auto simp: queue_values_def)
      with q'(2) lanes w have "shows_view (?w\<lparr>signal_queue := q'\<rparr>) ((popped_view t b)\<lparr>v_urgent := N\<rparr>)"
        by (auto simp: shows_view_iff world_wf_def popped_view_def)
      from assms(4) [OF this] obtain w1 ops where
        w1: "dispatch game_machines sig (?w\<lparr>signal_queue := q'\<rparr>) = (Returned (), w1)" "Q ops"
          "shows_view w1 (b'\<lparr>v_urgent := N @ ops\<rparr>)" by blast
      with step run have "st = Handled" "w' = w1" by auto
      with w1 ok T assms(5,6) show ?thesis
        unfolding shows_duel_def s'
        by (intro exI [of _ ops] conjI exI [of _ "N @ ops"] exI [of _ T0]) (auto simp: task_after_def)
    qed
  qed
qed

lemma shows_duel_turn_effect:
  assumes "sys_step game_ingress duel_program s (Manager_turn t) s'" and "shows_duel s b T"
    and "v_front b @ v_back b = sig # sigs"
    and "\<And>N. effect shows_view (dispatch game_machines sig) ((popped_view t b)\<lparr>v_urgent := N\<rparr>) ()
      (b'\<lparr>v_urgent := N @ ops\<rparr>)"
    and "v_urgent b' = []" and "v_normal b' = []"
  shows "shows_duel s' b' (fold msg_abs ops T)"
  using shows_duel_turn [OF assms(1-3) _ assms(5,6), of "\<lambda>x. x = ops"] effectD [OF assms(4)] by blast

text \<open>A turn that finds the queue empty.\<close>

lemma shows_duel_wait:
  assumes "sys_step game_ingress duel_program s (Manager_turn t) s'" and "shows_duel s b T"
    and "v_front b = []" and "v_back b = []"
  shows "shows_duel s' (b\<lparr>v_now := t\<rparr>) T"
  using assms(2)
proof (rule shows_duelE)
  fix N T0
  assume w: "shows_view (sys_world s) (b\<lparr>v_urgent := N\<rparr>)" "v_urgent b = []" "v_normal b = []"
    and ok: "manager_task s \<noteq> Finished" "\<not> chan_closed (sys_channels s) 0" "ledger_wf (ledgers s 0)"
    and T: "timer_rel (ledgers s 0) T0" "T = fold msg_abs (chan_queue (sys_channels s) 0 @ N) T0"
    and lanes: "front_values (signal_queue (sys_world s)) = v_front b"
      "back_values (signal_queue (sys_world s)) = v_back b"
  let ?w = "(sys_world s)\<lparr>now := t\<rparr>"
  have q: "queue_values (signal_queue ?w) = []" using assms(3,4) lanes by (simp add: queue_values_def)
  show ?thesis
    using assms(1)
  proof (rule manager_turnE)
    fix st rx w'
    assume s': "s' = s\<lparr>sys_world := w', manager_rx := rx, manager_task := task_after st (signal_queue w')\<rparr>"
      and step: "manager_step (sys_machines duel_program) manager_waker (manager_rx s) ?w = (st, rx, w')"
    have "st = Waiting" using manager_step_empty [OF q, of "sys_machines duel_program" manager_waker "manager_rx s"] step
      by simp
    moreover have "shows_view w' (b\<lparr>v_now := t, v_urgent := N\<rparr>)"
      using step w q
      by (cases rule: poll_next_cases [where q = "signal_queue ?w" and w = manager_waker and rx = "manager_rx s"])
        (auto simp: manager_step_def shows_view_iff world_wf_def dest: poll_next_Ready(1))
    ultimately show ?thesis
      unfolding shows_duel_def s'
      using w ok T
      by (intro conjI exI [of _ N] exI [of _ T0]) (auto simp: task_after_def)
  qed
qed

text \<open>A tick when no request is under way.\<close>

lemma shows_duel_tick:
  assumes "sys_step game_ingress duel_program s (Ticked c it t) s'" and "shows_duel s b (D, H)" and "idle s"
  shows "\<exists>due. distinct due \<and> set due = {i. \<exists>a < t. D i = Some a} \<and> sorted (map (\<lambda>i. the (D i)) due) \<and>
    shows_duel s' (b\<lparr>v_front := timeout_signals game_ingress t due @
        item_signals game_ingress (map snd (sort_key fst (filter (\<lambda>h. fst h < t) H))), v_now := t\<rparr>)
      (timer_abs_step (Tick it t) (D, H)) \<and> now (sys_world s) \<le> t"
  using assms(2)
proof (rule shows_duelE)
  fix N T0
  assume w: "shows_view (sys_world s) (b\<lparr>v_urgent := N\<rparr>)" "v_urgent b = []" "v_normal b = []"
    and ok: "manager_task s \<noteq> Finished" "\<not> chan_closed (sys_channels s) 0" "ledger_wf (ledgers s 0)"
    and T: "timer_rel (ledgers s 0) T0" "(D, H) = fold msg_abs (chan_queue (sys_channels s) 0 @ N) T0"
    and lanes: "front_values (signal_queue (sys_world s)) = v_front b"
      "back_values (signal_queue (sys_world s)) = v_back b"
      "front_values (notification_queue (sys_world s)) = N"
  from assms(3) lanes(3) have N: "N = []" "chan_queue (sys_channels s) 0 = []"
    by (auto simp: idle_def queue_values_def)
  with T have rel: "timer_rel (ledgers s 0) (D, H)" by simp
  have front: "v_front b = []" "v_back b = []"
    using assms(3) lanes by (auto simp: idle_def queue_values_def)
  show ?thesis
    using assms(1)
  proof (rule tickedE)
    fix tm L q
    assume s': "s' = s\<lparr>sys_world := (sys_world s)\<lparr>signal_queue := q, now := t\<rparr>, ledgers := (ledgers s)(c := L)\<rparr>"
      and c: "prog_role duel_program c = Some (Timeout_np tm)" and it: "hash_order_ok it"
      and le: "now (sys_world s) \<le> t"
      and tick: "tick game_ingress it t (ledgers s c, signal_queue (sys_world s)) = (L, q)"
    from c have c0: "c = 0" by (auto split: if_splits)
    have L: "L = fst (tick game_ingress it t (ledgers s 0, signal_queue (sys_world s)))"
      and q: "q = snd (tick game_ingress it t (ledgers s 0, signal_queue (sys_world s)))"
      using tick c0 by simp_all
    have "timer_ids (ledgers s 0) = D" using rel by (simp add: timer_rel_def)
    with due_ids_spec [OF ok(3) it, of t] have due: "distinct (due_ids it t (ledgers s 0))"
      "set (due_ids it t (ledgers s 0)) = {i. \<exists>a < t. D i = Some a}"
      "sorted (map (\<lambda>i. the (D i)) (due_ids it t (ledgers s 0)))" by auto
    have items: "due_items t (ledgers s 0) = map snd (sort_key fst (filter (\<lambda>h. fst h < t) H))"
      by (rule due_items_spec [OF ok(3) rel])
    have lanes': "front_values q = timeout_signals game_ingress t (due_ids it t (ledgers s 0)) @
        item_signals game_ingress (due_items t (ledgers s 0))" "back_values q = []"
      using front lanes unfolding q by (simp_all add: tick_queue)
    have "timer_rel L (timer_abs_step (Tick it t) (D, H))" and "ledger_wf L"
      unfolding L using timer_rel_tick [OF ok(3) it rel] tick_wf(1) [OF ok(3) it] by blast+
    then show ?thesis
      using due items lanes' w ok N le front
      by (intro exI [of _ "due_ids it t (ledgers s 0)"])
        (auto simp: shows_duel_def s' c0 shows_view_iff world_wf_def
          intro!: exI [of _ "timer_abs_step (Tick it t) (D, H)"])
  qed
qed

lemma step_clock:
  assumes "sys_step game_ingress duel_program s e s'"
  shows "now (sys_world s) \<le> now (sys_world s')"
  using assms
proof (induction rule: sys_step.induct)
  case (manager_turn s t st rx w)
  have "pushing_machines (sys_machines duel_program)" by (simp add: game_pushes.pushing_machines_axioms)
  from manager_step_now [OF this manager_turn.hyps(3)] manager_turn.hyps(2) show ?case by simp
qed simp_all

end
