(* ===== verification/Rex_Moves.thy ===== *)
theory Rex_Moves
  imports Rex_Shows
begin

text \<open>
  The turns of the manager in a game in progress: what each input of the ping and the pong
  machine does to the view, as one rule per input and one per lane it may come from.
\<close>

section \<open>More effects of the game's machines\<close>

lemma pong_packet_hold:
  assumes "msg p < 20" and "who_holds p = Some Pong" and "v_states a i = Some s"
    and "v_now a + max 11000000 (unat (msg p + 5) * 1000000) < instant_limit"
  shows "effect shows_view (pong_input_step i (Pong_Packet p)) a ()
    (a\<lparr>v_urgent := v_urgent a @ [set_msg i (v_now a + 11000000),
       GameMsg \<lparr>req_id = i, req_op =
         Retain (p\<lparr>msg := msg p + 5\<rparr>) (v_now a + unat (msg p + 5) * 1000000)\<rparr>],
       v_states := (if msg p = 0 then (v_states a)(i \<mapsto> State_Pong Pong_Responding) else v_states a)\<rparr>)"
  unfolding pong_input_step_def pong_input.simps Let_def using assms
  by (cases "msg p = 0")
    (rule effect_eq, (rule effect_rules | simp add: test_timeout_nanos duration_nanos_from_millis not_le [symmetric])+)+

lemma pong_returned:
  assumes "kind i = Pong" and "v_now a + 11000000 < instant_limit"
  shows "effect shows_view (pong_input_step i (Pong_Returned p)) a ()
    (a\<lparr>v_urgent := v_urgent a @ [set_msg i (v_now a + 11000000)],
       v_back := v_back a @ [\<lparr>sig_id = sender p,
         sig_input = Input_Ping (Ping_Packet (p\<lparr>sender := i\<rparr>))\<rparr>]\<rparr>)"
  unfolding pong_input_step_def pong_input.simps using assms
  by - (rule effect_eq, (rule effect_rules return_packet_effect(2) | simp add: test_timeout_nanos)+)

lemma ping_ignores:
  assumes "\<not> is_nil i" and "v_parents a i = Some p" and "v_states a i = Some st" and "is_terminal game_rex st"
  shows "effect shows_view (ping_process i x) a () a"
  unfolding ping_process_def using assms(2-)
  by (cases x) (simp, (rule effect_rules assms(1) | simp)+)+

lemma pong_ignores:
  assumes "\<not> is_nil i" and "v_states a i = Some st" and "is_terminal game_rex st"
  shows "effect shows_view (pong_process i x) a () a"
  unfolding pong_process_def using assms(2-)
  by (cases x) (simp, (rule effect_rules assms(1) | simp)+)+

lemma menu_ignores:
  assumes "\<not> is_nil i" and "v_states a i = Some st" and "is_terminal game_rex st"
  shows "effect shows_view (menu_process i x) a () a"
  unfolding menu_process_def using assms(2-)
  by (cases x) (simp, (rule effect_rules assms(1) | simp)+)+

lemma parent_in_tree: "(j, p) \<in> set (parent_pairs n) \<Longrightarrow> p \<in> set (ids n)"
  by (induction n) (auto simp: ids_Node)

lemma forest_parent_tree:
  assumes "store_wf st" and "forest_parents st j = Some i"
  shows "trees st j = trees st i"
proof -
  obtain r where r: "trees st j = Some r" "parents (heap st ! r) j = Some i"
    using assms(2) by (auto simp: forest_parents_def bind_eq_Some_conv)
  then have "i \<in> dom (states (heap st ! r))"
    by (auto simp: parents_def dom_states dest!: map_of_SomeD intro: parent_in_tree)
  moreover have "r < length (heap st)" using assms(1) r(1) by (auto simp: store_wf_def)
  ultimately have "trees st i = Some r" using assms(1) by (simp add: store_wf_def)
  with r(1) show ?thesis by simp
qed

section \<open>Telling the menu\<close>

abbreviation menu_id :: "uuid \<Rightarrow> game state_id" where
  "menu_id m \<equiv> \<lparr>kind = Menu, uuid = m\<rparr>"

abbreviation ping_id :: "uuid \<Rightarrow> game state_id" where
  "ping_id u \<equiv> \<lparr>kind = Ping, uuid = u\<rparr>"

abbreviation pong_id :: "uuid \<Rightarrow> game state_id" where
  "pong_id v \<equiv> \<lparr>kind = Pong, uuid = v\<rparr>"

definition any_view :: "uuid \<Rightarrow> uuid \<Rightarrow> uuid \<Rightarrow> menu_state \<Rightarrow> ping_state \<Rightarrow> pong_state \<Rightarrow>
    (game, game_input) signal list \<Rightarrow> (game, game_input) signal list \<Rightarrow> instant \<Rightarrow> game_user \<Rightarrow> game_view" where
  "any_view m u v ms ps qs front back t usr = \<lparr>v_states = board m u v ms ps qs,
     v_parents = parents_of m u v, v_front = front, v_back = back, v_urgent = [], v_normal = [],
     v_now = t, v_user = usr\<rparr>"

lemma menu_failure_view:
  assumes "shows_view w ((any_view m u v Menu_Ready ps qs front back t usr)\<lparr>v_urgent := N\<rparr>)"
    and "x = FailedPing \<or> x = FailedPong"
  shows "\<exists>w' ops. menu_process (menu_id m) (Input_Menu x) w = (Returned (), w') \<and>
    set ops = {cancel_msg (menu_id m), cancel_msg (ping_id u), cancel_msg (pong_id v)} \<and>
    shows_view w' ((any_view m u v Menu_Failed Ping_Failed Pong_Failed front back t
      (usr\<lparr>failures := (failures usr)(menu_id m \<mapsto> x)\<rparr>))\<lparr>v_urgent := N @ ops\<rparr>)"
proof -
  let ?st = "state_store w"
  have V: "world_wf w" "world_states w = board m u v Menu_Ready ps qs" "world_parents w = parents_of m u v"
    "user w = usr"
    using assms(1) by (simp_all add: shows_view_iff any_view_def)
  from menu_failure [OF V(1), of "menu_id m", OF _ assms(2)] V(2) obtain w1 order where
    w1: "menu_process (menu_id m) (Input_Menu x) w =
        (Returned (), w1\<lparr>user := (user w)\<lparr>failures := (failures (user w))(menu_id m \<mapsto> x)\<rparr>\<rparr>)"
      "world_wf w1" "set order = {j. trees ?st j = trees ?st (menu_id m)}"
      "world_states w1 = (\<lambda>j. if j \<in> set order then map_option (fail_state j) (world_states w j)
        else world_states w j)" "world_parents w1 = world_parents w"
      "front_values (notification_queue w1) = front_values (notification_queue w) @ map cancel_for order"
      "back_values (notification_queue w1) = back_values (notification_queue w)"
      "now w1 = now w" "signal_queue w1 = signal_queue w" by auto
  have wf: "store_wf ?st" using V(1) by (simp add: world_wf_def)
  have "trees ?st (ping_id u) = trees ?st (menu_id m)" "trees ?st (pong_id v) = trees ?st (menu_id m)"
    using forest_parent_tree [OF wf] V(3) by simp_all
  moreover have "j \<in> {menu_id m, ping_id u, pong_id v}" if "trees ?st j = trees ?st (menu_id m)" for j
  proof -
    have "menu_id m \<in> dom (trees ?st)" using dom_forest [OF wf] V(2) by (auto simp: board_def)
    with that have "j \<in> dom (world_states w)" using dom_forest [OF wf] by (auto simp: dom_def)
    with V(2) show ?thesis by (auto simp: board_def split: if_splits)
  qed
  ultimately have order: "set order = {menu_id m, ping_id u, pong_id v}" using w1(3) by auto
  have "world_states w1 = board m u v Menu_Failed Ping_Failed Pong_Failed"
    unfolding w1(4) order V(2) by (auto simp: board_def fail_state_def fun_eq_iff)
  then show ?thesis
    using w1 V assms(1) order
    by (intro exI [of _ "w1\<lparr>user := (user w)\<lparr>failures := (failures (user w))(menu_id m \<mapsto> x)\<rparr>\<rparr>"]
      exI [of _ "map cancel_for order"])
      (auto simp: shows_view_iff any_view_def world_wf_def cancel_for_def request_cancel_timeout_def)
qed

lemma any_view_sel [simp]:
  "v_states (any_view m u v ms ps qs front back t usr) = board m u v ms ps qs"
  "v_parents (any_view m u v ms ps qs front back t usr) = parents_of m u v"
  "v_front (any_view m u v ms ps qs front back t usr) = front"
  "v_back (any_view m u v ms ps qs front back t usr) = back"
  "v_urgent (any_view m u v ms ps qs front back t usr) = []"
  "v_normal (any_view m u v ms ps qs front back t usr) = []"
  "v_now (any_view m u v ms ps qs front back t usr) = t"
  "v_user (any_view m u v ms ps qs front back t usr) = usr"
  by (simp_all add: any_view_def)

lemma popped_any_view:
  "popped_view t' (any_view m u v ms ps qs (sig # front) back t usr) = any_view m u v ms ps qs front back t' usr"
  "popped_view t' (any_view m u v ms ps qs [] (sig # back) t usr) = any_view m u v ms ps qs [] back t' usr"
  by (simp_all add: popped_view_def any_view_def)

abbreviation duel_step :: "game_system \<Rightarrow> (game, game_input, game_msg, unit) sys_event \<Rightarrow> game_system \<Rightarrow> bool" where
  "duel_step \<equiv> sys_step game_ingress duel_program"

section \<open>Inputs\<close>

text \<open>\<open>f\<close> leads from one view to the other and sends the requests \<open>ops\<close> ahead.\<close>

definition sends :: "(game_world, unit) cmd \<Rightarrow> game_view \<Rightarrow> game_msg list \<Rightarrow> game_view \<Rightarrow> bool" where
  "sends f a ops b \<longleftrightarrow>
     (\<forall>N. effect shows_view f (a\<lparr>v_urgent := N\<rparr>) () (b\<lparr>v_urgent := N @ ops\<rparr>))"

lemma sendsI: "(\<And>N. effect shows_view f (a\<lparr>v_urgent := N\<rparr>) () (b\<lparr>v_urgent := N @ ops\<rparr>)) \<Longrightarrow> sends f a ops b"
  by (simp add: sends_def)

lemma ping_moves:
  "sends (ping_input_step (ping_id u) (Ping_RecvTimeout d)) (any_view m u v ms ps qs fs bs t usr) []
     (any_view m u v ms Ping_Failed qs fs (bs @ [\<lparr>sig_id = menu_id m, sig_input = Input_Menu FailedPing\<rparr>]) t usr)"
  "sends (ping_input_step (ping_id u) (StartSending (pong_id v) who)) (any_view m u v ms ps qs fs bs t usr) []
     (any_view m u v ms Ping_Sending qs fs (bs @ [to_pong u v who 0]) t usr)"
  "t + 11000000 < instant_limit \<Longrightarrow>
   sends (ping_input_step (ping_id u) (Ping_Returned p)) (any_view m u v ms ps qs fs bs t usr)
     [set_msg (ping_id u) (t + 11000000)]
     (any_view m u v ms ps qs fs (bs @ [\<lparr>sig_id = sender p,
        sig_input = Input_Pong (Pong_Packet (p\<lparr>sender := ping_id u\<rparr>))\<rparr>]) t usr)"
  "t + 11000000 < instant_limit \<Longrightarrow> x < 25 \<Longrightarrow> who \<noteq> Some Ping \<Longrightarrow>
   sends (ping_input_step (ping_id u) (Ping_Packet \<lparr>msg = x, sender = pong_id v, who_holds = who\<rparr>))
     (any_view m u v ms ps qs fs bs t usr) [set_msg (ping_id u) (t + 11000000)]
     (any_view m u v ms ps qs fs (bs @ [to_pong u v who (x + 5)]) t usr)"
  "t + max 11000000 (unat (x + 5) * 1000000) < instant_limit \<Longrightarrow> x < 25 \<Longrightarrow>
   sends (ping_input_step (ping_id u) (Ping_Packet \<lparr>msg = x, sender = pong_id v, who_holds = Some Ping\<rparr>))
     (any_view m u v ms ps qs fs bs t usr)
     [set_msg (ping_id u) (t + 11000000), GameMsg \<lparr>req_id = ping_id u, req_op =
        Retain \<lparr>msg = x + 5, sender = pong_id v, who_holds = Some Ping\<rparr> (t + unat (x + 5) * 1000000)\<rparr>]
     (any_view m u v ms ps qs fs bs t usr)"
  by (rule sendsI, rule effect_eq,
      rule ping_timed_out ping_start ping_returned ping_packet_pass ping_packet_hold;
      auto simp: any_view_def)+

lemma pong_moves:
  "sends (pong_input_step (pong_id v) (Pong_RecvTimeout d)) (any_view m u v ms ps qs fs bs t usr) []
     (any_view m u v ms ps Pong_Failed fs (bs @ [\<lparr>sig_id = menu_id m, sig_input = Input_Menu FailedPong\<rparr>]) t usr)"
  "t + 11000000 < instant_limit \<Longrightarrow>
   sends (pong_input_step (pong_id v) (Pong_Returned p)) (any_view m u v ms ps qs fs bs t usr)
     [set_msg (pong_id v) (t + 11000000)]
     (any_view m u v ms ps qs fs (bs @ [\<lparr>sig_id = sender p,
        sig_input = Input_Ping (Ping_Packet (p\<lparr>sender := pong_id v\<rparr>))\<rparr>]) t usr)"
  "t + 11000000 < instant_limit \<Longrightarrow> x < 20 \<Longrightarrow> who \<noteq> Some Pong \<Longrightarrow>
   sends (pong_input_step (pong_id v) (Pong_Packet \<lparr>msg = x, sender = ping_id u, who_holds = who\<rparr>))
     (any_view m u v ms ps qs fs bs t usr) [set_msg (pong_id v) (t + 11000000)]
     (any_view m u v ms ps (if x = 0 then Pong_Responding else qs) fs (bs @ [to_ping u v who (x + 5)]) t usr)"
  "t + max 11000000 (unat (x + 5) * 1000000) < instant_limit \<Longrightarrow> x < 20 \<Longrightarrow>
   sends (pong_input_step (pong_id v) (Pong_Packet \<lparr>msg = x, sender = ping_id u, who_holds = Some Pong\<rparr>))
     (any_view m u v ms ps qs fs bs t usr)
     [set_msg (pong_id v) (t + 11000000), GameMsg \<lparr>req_id = pong_id v, req_op =
        Retain \<lparr>msg = x + 5, sender = ping_id u, who_holds = Some Pong\<rparr> (t + unat (x + 5) * 1000000)\<rparr>]
     (any_view m u v ms ps (if x = 0 then Pong_Responding else qs) fs bs t usr)"
  by (rule sendsI, rule effect_eq,
      rule pong_timed_out pong_returned pong_packet_pass pong_packet_hold;
      auto simp: any_view_def)+

section \<open>Turns\<close>

text \<open>A turn for a signal of the priority lane, and one for a signal of the other lane.\<close>

lemma turn_sends:
  assumes "duel_step s (Manager_turn t') s'"
    and "sends (dispatch game_machines sig) (any_view m u v ms ps qs fs bs t' usr) ops
      (any_view m u v ms' ps' qs' fs' bs' t' usr')"
  shows "shows_duel s (any_view m u v ms ps qs (sig # fs) bs t usr) T \<Longrightarrow>
      shows_duel s' (any_view m u v ms' ps' qs' fs' bs' t' usr') (fold msg_abs ops T)"
    and "shows_duel s (any_view m u v ms ps qs [] (sig # bs) t usr) T \<Longrightarrow> fs = [] \<Longrightarrow>
      shows_duel s' (any_view m u v ms' ps' qs' fs' bs' t' usr') (fold msg_abs ops T)"
proof -
  have eff: "effect shows_view (dispatch game_machines sig) ((any_view m u v ms ps qs fs bs t' usr)\<lparr>v_urgent := N\<rparr>) ()
      ((any_view m u v ms' ps' qs' fs' bs' t' usr')\<lparr>v_urgent := N @ ops\<rparr>)" for N
    using assms(2) by (simp add: sends_def)
  show "shows_duel s' (any_view m u v ms' ps' qs' fs' bs' t' usr') (fold msg_abs ops T)"
    if "shows_duel s (any_view m u v ms ps qs (sig # fs) bs t usr) T"
    by (rule shows_duel_turn_effect [OF assms(1) that, where sig = sig and sigs = "fs @ bs"])
      (simp_all add: popped_any_view eff)
  show "shows_duel s' (any_view m u v ms' ps' qs' fs' bs' t' usr') (fold msg_abs ops T)"
    if "shows_duel s (any_view m u v ms ps qs [] (sig # bs) t usr) T" and "fs = []"
    by (rule shows_duel_turn_effect [OF assms(1) that(1), where sig = sig and sigs = bs])
      (use eff that(2) in \<open>simp_all add: popped_any_view\<close>)
qed

lemma ping_dispatch:
  assumes "sends (ping_input_step (ping_id u) x) (any_view m u v ms ps qs fs bs t usr) ops b"
    and "u \<noteq> 0" and "ps \<noteq> Ping_Done" and "ps \<noteq> Ping_Failed"
  shows "sends (dispatch game_machines \<lparr>sig_id = ping_id u, sig_input = Input_Ping x\<rparr>)
    (any_view m u v ms ps qs fs bs t usr) ops b"
proof (rule sendsI)
  fix N
  have "effect shows_view (ping_process (ping_id u) (Input_Ping x))
      ((any_view m u v ms ps qs fs bs t usr)\<lparr>v_urgent := N\<rparr>) () (b\<lparr>v_urgent := N @ ops\<rparr>)"
    by (rule ping_process_step) (use assms in \<open>auto simp: is_nil_def sends_def\<close>)
  then show "effect shows_view (dispatch game_machines \<lparr>sig_id = ping_id u, sig_input = Input_Ping x\<rparr>)
      ((any_view m u v ms ps qs fs bs t usr)\<lparr>v_urgent := N\<rparr>) () (b\<lparr>v_urgent := N @ ops\<rparr>)"
    by (simp add: dispatch_game)
qed

lemma pong_dispatch:
  assumes "sends (pong_input_step (pong_id v) x) (any_view m u v ms ps qs fs bs t usr) ops b"
    and "v \<noteq> 0" and "qs \<noteq> Pong_Done" and "qs \<noteq> Pong_Failed"
  shows "sends (dispatch game_machines \<lparr>sig_id = pong_id v, sig_input = Input_Pong x\<rparr>)
    (any_view m u v ms ps qs fs bs t usr) ops b"
proof (rule sendsI)
  fix N
  have "effect shows_view (pong_process (pong_id v) (Input_Pong x))
      ((any_view m u v ms ps qs fs bs t usr)\<lparr>v_urgent := N\<rparr>) () (b\<lparr>v_urgent := N @ ops\<rparr>)"
    by (rule pong_process_step) (use assms in \<open>auto simp: is_nil_def sends_def\<close>)
  then show "effect shows_view (dispatch game_machines \<lparr>sig_id = pong_id v, sig_input = Input_Pong x\<rparr>)
      ((any_view m u v ms ps qs fs bs t usr)\<lparr>v_urgent := N\<rparr>) () (b\<lparr>v_urgent := N @ ops\<rparr>)"
    by (simp add: dispatch_game)
qed

lemma ignored_dispatch:
  "u \<noteq> 0 \<Longrightarrow> ps = Ping_Done \<or> ps = Ping_Failed \<Longrightarrow>
   sends (dispatch game_machines \<lparr>sig_id = ping_id u, sig_input = x\<rparr>)
     (any_view m u v ms ps qs fs bs t usr) [] (any_view m u v ms ps qs fs bs t usr)"
  "v \<noteq> 0 \<Longrightarrow> qs = Pong_Done \<or> qs = Pong_Failed \<Longrightarrow>
   sends (dispatch game_machines \<lparr>sig_id = pong_id v, sig_input = x\<rparr>)
     (any_view m u v ms ps qs fs bs t usr) [] (any_view m u v ms ps qs fs bs t usr)"
  "m \<noteq> 0 \<Longrightarrow> ms = Menu_Done \<or> ms = Menu_Failed \<Longrightarrow>
   sends (dispatch game_machines \<lparr>sig_id = menu_id m, sig_input = x\<rparr>)
     (any_view m u v ms ps qs fs bs t usr) [] (any_view m u v ms ps qs fs bs t usr)"
  by (rule sendsI, use ping_ignores [where i = "ping_id u" and st = "State_Ping ps" and p = "menu_id m"]
      pong_ignores [where i = "pong_id v" and st = "State_Pong qs"]
      menu_ignores [where i = "menu_id m" and st = "State_Menu ms"]
      in \<open>auto simp: dispatch_game is_nil_def\<close>)+

text \<open>A turn that finds nothing.\<close>

lemma turn_waits:
  assumes "duel_step s (Manager_turn t') s'"
    and "shows_duel s (any_view m u v ms ps qs [] [] t usr) T"
  shows "shows_duel s' (any_view m u v ms ps qs [] [] t' usr) T"
proof -
  have "(any_view m u v ms ps qs [] [] t usr)\<lparr>v_now := t'\<rparr> = any_view m u v ms ps qs [] [] t' usr"
    by (simp add: any_view_def)
  with shows_duel_wait [OF assms] show ?thesis by simp
qed

text \<open>The menu hears of a failure.\<close>

lemma menu_hears:
  assumes "duel_step s (Manager_turn t') s'"
    and "shows_duel s (any_view m u v Menu_Ready ps qs []
      (\<lparr>sig_id = menu_id m, sig_input = Input_Menu x\<rparr> # bs) t usr) T"
    and x: "x = FailedPing \<or> x = FailedPong"
  obtains ops where "set ops = {cancel_msg (menu_id m), cancel_msg (ping_id u), cancel_msg (pong_id v)}"
    and "shows_duel s' (any_view m u v Menu_Failed Ping_Failed Pong_Failed [] bs t'
      (usr\<lparr>failures := (failures usr)(menu_id m \<mapsto> x)\<rparr>)) (fold msg_abs ops T)"
proof -
  let ?sig = "\<lparr>sig_id = menu_id m, sig_input = Input_Menu x\<rparr>"
  let ?a = "any_view m u v Menu_Ready ps qs [] bs t' usr"
  let ?b = "any_view m u v Menu_Failed Ping_Failed Pong_Failed [] bs t'
    (usr\<lparr>failures := (failures usr)(menu_id m \<mapsto> x)\<rparr>)"
  let ?Q = "\<lambda>ops. set ops = {cancel_msg (menu_id m), cancel_msg (ping_id u), cancel_msg (pong_id v)}"
  have "\<exists>ops. ?Q ops \<and> shows_duel s' ?b (fold msg_abs ops T)"
  proof (rule shows_duel_turn [OF assms(1,2), of ?sig bs])
    fix w N
    assume "shows_view w ((popped_view t' (any_view m u v Menu_Ready ps qs [] (?sig # bs) t usr))\<lparr>v_urgent := N\<rparr>)"
    then have "shows_view w (?a\<lparr>v_urgent := N\<rparr>)" by (simp add: popped_any_view)
    from menu_failure_view [OF this x] obtain w' ops where
      "menu_process (menu_id m) (Input_Menu x) w = (Returned (), w')" "?Q ops"
      "shows_view w' (?b\<lparr>v_urgent := N @ ops\<rparr>)" by blast
    then show "\<exists>w' ops. dispatch game_machines ?sig w = (Returned (), w') \<and> ?Q ops \<and>
        shows_view w' (?b\<lparr>v_urgent := N @ ops\<rparr>)"
      by (intro exI [of _ w'] exI [of _ ops]) (simp add: dispatch_game)
  qed simp_all
  with that show thesis by blast
qed

end
