(* ===== verification/Rex_Lost.thy ===== *)
theory Rex_Lost
  imports Rex_Moves
begin

text \<open>
  A game that is lost: from the moment a player's timeout is at the head of the queue, the menu
  fails everyone and records which player it was, whatever else a tick has put into the queue
  and however the tasks take turns.
\<close>

section \<open>The timers of the two players\<close>

definition player_ids :: "uuid \<Rightarrow> uuid \<Rightarrow> game state_id set" where
  "player_ids u v = {ping_id u, pong_id v}"

definition timers_known :: "uuid \<Rightarrow> uuid \<Rightarrow> (game, packet) timer_abs \<Rightarrow> bool" where
  "timers_known u v T \<longleftrightarrow> dom (fst T) \<subseteq> player_ids u v \<and>
     (\<forall>(d, i, p) \<in> set (snd T). i \<in> player_ids u v \<and> sender p \<in> player_ids u v)"

primrec known_op :: "uuid \<Rightarrow> uuid \<Rightarrow> game state_id \<Rightarrow> packet operation \<Rightarrow> bool" where
  "known_op u v i Cancel = True"
| "known_op u v i (Set d) = (i \<in> player_ids u v)"
| "known_op u v i (Retain p d) = (i \<in> player_ids u v \<and> sender p \<in> player_ids u v)"

primrec known_msg :: "uuid \<Rightarrow> uuid \<Rightarrow> game_msg \<Rightarrow> bool" where
  "known_msg u v (GameMsg r) = known_op u v (req_id r) (req_op r)"

lemma msg_known: "timers_known u v T \<Longrightarrow> known_msg u v x \<Longrightarrow> timers_known u v (msg_abs x T)"
  by (cases x; cases T; rename_tac r D H; case_tac "req_op r") (auto simp: timers_known_def)

lemma msgs_known:
  "timers_known u v T \<Longrightarrow> \<forall>x \<in> set ops. known_msg u v x \<Longrightarrow> timers_known u v (fold msg_abs ops T)"
  by (induction ops arbitrary: T) (simp_all add: msg_known)

lemma tick_known: "timers_known u v T \<Longrightarrow> timers_known u v (timer_abs_step (Tick it t) T)"
  by (cases T) (auto simp: timers_known_def restrict_map_def dom_def)

lemma player_in [simp]: "ping_id u \<in> player_ids u v" "pong_id v \<in> player_ids u v"
  by (simp_all add: player_ids_def)

text \<open>The signals of a tick.\<close>

definition tick_signal :: "uuid \<Rightarrow> uuid \<Rightarrow> (game, game_input) signal \<Rightarrow> bool" where
  "tick_signal u v sig \<longleftrightarrow>
     (\<exists>t. sig = \<lparr>sig_id = ping_id u, sig_input = Input_Ping (Ping_RecvTimeout t)\<rparr>) \<or>
     (\<exists>t. sig = \<lparr>sig_id = pong_id v, sig_input = Input_Pong (Pong_RecvTimeout t)\<rparr>) \<or>
     (\<exists>p. sender p \<in> player_ids u v \<and>
       (sig = \<lparr>sig_id = ping_id u, sig_input = Input_Ping (Ping_Returned p)\<rparr> \<or>
        sig = \<lparr>sig_id = pong_id v, sig_input = Input_Pong (Pong_Returned p)\<rparr>))"

lemma tick_signal_id: "tick_signal u v sig \<Longrightarrow> sig_id sig \<in> insert (menu_id m) (player_ids u v)"
  by (auto simp: tick_signal_def player_ids_def)

text \<open>What a machine does on one of them while the menu is ready.\<close>

lemma tick_signal_sends:
  assumes "tick_signal u v sig" and "u \<noteq> 0" and "v \<noteq> 0" and "t + 11000000 < instant_limit"
  shows "\<exists>ps' qs' new ops. sends (dispatch game_machines sig) (any_view m u v Menu_Ready ps qs fs bs t usr) ops
      (any_view m u v Menu_Ready ps' qs' fs (bs @ new) t usr) \<and>
    (\<forall>x \<in> set ops. known_msg u v x) \<and> (\<forall>z \<in> set new. sig_id z \<in> insert (menu_id m) (player_ids u v))"
  (is "?goal sig")
proof -
  have ping: "?goal \<lparr>sig_id = ping_id u, sig_input = Input_Ping x\<rparr>"
    if "\<not> (ps = Ping_Done \<or> ps = Ping_Failed) \<Longrightarrow>
      sends (ping_input_step (ping_id u) x) (any_view m u v Menu_Ready ps qs fs bs t usr) ops
      (any_view m u v Menu_Ready ps' qs' fs (bs @ new) t usr)"
      and "\<forall>x \<in> set ops. known_msg u v x" and "\<forall>z \<in> set new. sig_id z \<in> insert (menu_id m) (player_ids u v)"
    for x ps' qs' new ops
  proof (cases "ps = Ping_Done \<or> ps = Ping_Failed")
    case True
    from ignored_dispatch(1) [OF assms(2) True] show ?thesis
      by (intro exI [of _ ps] exI [of _ qs] exI [of _ "[]"]) simp
  next
    case False
    with ping_dispatch [OF that(1) assms(2)] that(2,3) show ?thesis by blast
  qed
  have pong: "?goal \<lparr>sig_id = pong_id v, sig_input = Input_Pong x\<rparr>"
    if "\<not> (qs = Pong_Done \<or> qs = Pong_Failed) \<Longrightarrow>
      sends (pong_input_step (pong_id v) x) (any_view m u v Menu_Ready ps qs fs bs t usr) ops
      (any_view m u v Menu_Ready ps' qs' fs (bs @ new) t usr)"
      and "\<forall>x \<in> set ops. known_msg u v x" and "\<forall>z \<in> set new. sig_id z \<in> insert (menu_id m) (player_ids u v)"
    for x ps' qs' new ops
  proof (cases "qs = Pong_Done \<or> qs = Pong_Failed")
    case True
    from ignored_dispatch(2) [OF assms(3) True] show ?thesis
      by (intro exI [of _ ps] exI [of _ qs] exI [of _ "[]"]) simp
  next
    case False
    with pong_dispatch [OF that(1) assms(3)] that(2,3) show ?thesis by blast
  qed
  from assms(1) show ?thesis
    unfolding tick_signal_def
    by (elim disjE exE conjE)
      (use ping [OF ping_moves(1)] pong [OF pong_moves(1)] ping [OF ping_moves(3) [OF assms(4)]]
        pong [OF pong_moves(2) [OF assms(4)]] in simp_all)
qed

section \<open>From the timeout to the end\<close>

text \<open>
  The game is lost to \<open>x\<close>: the failing player's timeout is the next signal, or the menu is going
  to hear of it first, or it has, and everyone is failed.
\<close>

inductive lost :: "uuid \<Rightarrow> uuid \<Rightarrow> uuid \<Rightarrow> menu_input \<Rightarrow> game_view \<Rightarrow> bool" for m u v x where
  ping_due: "lost m u v x (any_view m u v Menu_Ready ps qs
      (\<lparr>sig_id = ping_id u, sig_input = Input_Ping (Ping_RecvTimeout a)\<rparr> # fs) [] t usr)"
    if "x = FailedPing" and "ps \<noteq> Ping_Done" and "ps \<noteq> Ping_Failed" and "\<forall>sig \<in> set fs. tick_signal u v sig"
| pong_due: "lost m u v x (any_view m u v Menu_Ready ps qs
      (\<lparr>sig_id = pong_id v, sig_input = Input_Pong (Pong_RecvTimeout a)\<rparr> # fs) [] t usr)"
    if "x = FailedPong" and "qs \<noteq> Pong_Done" and "qs \<noteq> Pong_Failed" and "\<forall>sig \<in> set fs. tick_signal u v sig"
| reported: "lost m u v x (any_view m u v Menu_Ready ps qs fs
      (\<lparr>sig_id = menu_id m, sig_input = Input_Menu x\<rparr> # bs) t usr)"
    if "x = FailedPing \<or> x = FailedPong" and "\<forall>sig \<in> set fs. tick_signal u v sig"
      and "\<forall>sig \<in> set bs. sig_id sig \<in> insert (menu_id m) (player_ids u v)"
| over: "lost m u v x (any_view m u v Menu_Failed Ping_Failed Pong_Failed fs bs t usr)"
    if "failures usr (menu_id m) = Some x"
      and "\<forall>sig \<in> set (fs @ bs). sig_id sig \<in> insert (menu_id m) (player_ids u v)"

lemma reported_turn:
  assumes step: "duel_step s (Manager_turn t') s'"
    and sh: "shows_duel s (any_view m u v Menu_Ready ps qs fs
      (\<lparr>sig_id = menu_id m, sig_input = Input_Menu x\<rparr> # bs) t usr) T"
    and x: "x = FailedPing \<or> x = FailedPong" and fs: "\<forall>sig \<in> set fs. tick_signal u v sig"
    and bs: "\<forall>sig \<in> set bs. sig_id sig \<in> insert (menu_id m) (player_ids u v)"
    and known: "timers_known u v T" and ids: "u \<noteq> 0" "v \<noteq> 0" and limit: "t' + 11000000 < instant_limit"
  shows "\<exists>b' T'. shows_duel s' b' T' \<and> lost m u v x b' \<and> timers_known u v T'"
proof (cases fs)
  case Nil
  from menu_hears [OF step sh [unfolded Nil] x] obtain ops where
    "set ops = {cancel_msg (menu_id m), cancel_msg (ping_id u), cancel_msg (pong_id v)}"
    "shows_duel s' (any_view m u v Menu_Failed Ping_Failed Pong_Failed [] bs t'
      (usr\<lparr>failures := (failures usr)(menu_id m \<mapsto> x)\<rparr>)) (fold msg_abs ops T)" .
  moreover from this(1) have "timers_known u v (fold msg_abs ops T)"
    by (intro msgs_known [OF known]) auto
  moreover have "lost m u v x (any_view m u v Menu_Failed Ping_Failed Pong_Failed [] bs t'
      (usr\<lparr>failures := (failures usr)(menu_id m \<mapsto> x)\<rparr>))"
    using bs by (intro lost.over) auto
  ultimately show ?thesis by blast
next
  case (Cons sig fs')
  with fs have "tick_signal u v sig" by simp
  from tick_signal_sends [OF this ids limit] obtain ps' qs' new ops where
    sends: "sends (dispatch game_machines sig)
      (any_view m u v Menu_Ready ps qs fs' (\<lparr>sig_id = menu_id m, sig_input = Input_Menu x\<rparr> # bs) t' usr) ops
      (any_view m u v Menu_Ready ps' qs' fs' ((\<lparr>sig_id = menu_id m, sig_input = Input_Menu x\<rparr> # bs) @ new) t' usr)"
    and ops: "\<forall>x \<in> set ops. known_msg u v x"
    and new: "\<forall>z \<in> set new. sig_id z \<in> insert (menu_id m) (player_ids u v)" by blast
  have "shows_duel s' (any_view m u v Menu_Ready ps' qs' fs'
      (\<lparr>sig_id = menu_id m, sig_input = Input_Menu x\<rparr> # (bs @ new)) t' usr) (fold msg_abs ops T)"
    using turn_sends(1) [OF step sends] sh Cons by simp
  moreover have "lost m u v x (any_view m u v Menu_Ready ps' qs' fs'
      (\<lparr>sig_id = menu_id m, sig_input = Input_Menu x\<rparr> # (bs @ new)) t' usr)"
    using x fs bs new Cons by (intro lost.reported) auto
  ultimately show ?thesis using msgs_known [OF known ops] by blast
qed

lemma over_turn:
  assumes step: "duel_step s (Manager_turn t') s'"
    and sh: "shows_duel s (any_view m u v Menu_Failed Ping_Failed Pong_Failed fs bs t usr) T"
    and bs: "\<forall>sig \<in> set (fs @ bs). sig_id sig \<in> insert (menu_id m) (player_ids u v)"
    and ids: "m \<noteq> 0" "u \<noteq> 0" "v \<noteq> 0"
  shows "\<exists>fs' bs'. shows_duel s' (any_view m u v Menu_Failed Ping_Failed Pong_Failed fs' bs' t' usr) T \<and>
    set (fs' @ bs') \<subseteq> set (fs @ bs)"
proof -
  have ignored: "sends (dispatch game_machines sig) (any_view m u v Menu_Failed Ping_Failed Pong_Failed fs1 bs1 t' usr) []
      (any_view m u v Menu_Failed Ping_Failed Pong_Failed fs1 bs1 t' usr)"
    if "sig_id sig \<in> insert (menu_id m) (player_ids u v)" for sig fs1 bs1
    using that ids by (cases sig) (auto simp: player_ids_def intro: ignored_dispatch)
  show ?thesis
  proof (cases fs)
    case Nil
    show ?thesis
    proof (cases bs)
      case Nil
      with turn_waits [OF step] sh \<open>fs = []\<close> show ?thesis by (intro exI [of _ "[]"]) simp
    next
      case (Cons sig bs1)
      with bs have "sig_id sig \<in> insert (menu_id m) (player_ids u v)" by simp
      from turn_sends(2) [OF step ignored [OF this] sh [unfolded Cons Nil] refl] Cons Nil
      show ?thesis by (intro exI [of _ "[]"] exI [of _ bs1]) auto
    qed
  next
    case (Cons sig fs1)
    with bs have "sig_id sig \<in> insert (menu_id m) (player_ids u v)" by simp
    from turn_sends(1) [OF step ignored [OF this] sh [unfolded Cons]] Cons
    show ?thesis by (intro exI [of _ fs1] exI [of _ bs]) auto
  qed
qed

lemma lost_turn:
  assumes step: "duel_step s (Manager_turn t') s'" and sh: "shows_duel s b T"
    and "lost m u v x b" and known: "timers_known u v T"
    and ids: "m \<noteq> 0" "u \<noteq> 0" "v \<noteq> 0" and limit: "t' + 11000000 < instant_limit"
  shows "\<exists>b' T'. shows_duel s' b' T' \<and> lost m u v x b' \<and> timers_known u v T'"
  using assms(3)
proof cases
  case (ping_due ps fs qs a t usr)
  have "shows_duel s' (any_view m u v Menu_Ready Ping_Failed qs fs
      [\<lparr>sig_id = menu_id m, sig_input = Input_Menu FailedPing\<rparr>] t' usr) T"
    using turn_sends(1) [OF step ping_dispatch [OF ping_moves(1) ids(2) ping_due(3,4)] sh [unfolded ping_due(1)]]
    by simp
  moreover have "lost m u v x (any_view m u v Menu_Ready Ping_Failed qs fs
      [\<lparr>sig_id = menu_id m, sig_input = Input_Menu FailedPing\<rparr>] t' usr)"
    unfolding ping_due(2) using ping_due(5) by (intro lost.reported) simp_all
  ultimately show ?thesis using known by blast
next
  case (pong_due qs fs ps a t usr)
  have "shows_duel s' (any_view m u v Menu_Ready ps Pong_Failed fs
      [\<lparr>sig_id = menu_id m, sig_input = Input_Menu FailedPong\<rparr>] t' usr) T"
    using turn_sends(1) [OF step pong_dispatch [OF pong_moves(1) ids(3) pong_due(3,4)] sh [unfolded pong_due(1)]]
    by simp
  moreover have "lost m u v x (any_view m u v Menu_Ready ps Pong_Failed fs
      [\<lparr>sig_id = menu_id m, sig_input = Input_Menu FailedPong\<rparr>] t' usr)"
    unfolding pong_due(2) using pong_due(5) by (intro lost.reported) simp_all
  ultimately show ?thesis using known by blast
next
  case (reported fs bs ps qs t usr)
  with reported_turn [OF step sh [unfolded reported(1)] reported(2-4) known ids(2,3) limit] show ?thesis by simp
next
  case (over usr fs bs t)
  from over_turn [OF step sh [unfolded over(1)] over(3) ids] obtain fs' bs' where
    "shows_duel s' (any_view m u v Menu_Failed Ping_Failed Pong_Failed fs' bs' t' usr) T"
    "set (fs' @ bs') \<subseteq> set (fs @ bs)" by blast
  with over known lost.over [of usr m x fs' bs' u v t'] show ?thesis by blast
qed

section \<open>Ticks\<close>

lemma shows_duel_idle:
  assumes "shows_duel s b T" and "idle s"
  shows "v_front b = []" and "v_back b = []"
  using assms by (auto elim!: shows_duelE simp: idle_def queue_values_def)

lemma lost_idle:
  assumes "lost m u v x b" and "shows_duel s b T" and "idle s"
  obtains t usr where "b = any_view m u v Menu_Failed Ping_Failed Pong_Failed [] [] t usr"
    and "failures usr (menu_id m) = Some x"
  using assms(1) shows_duel_idle [OF assms(2,3)] that by cases auto

lemma timeout_signals_known:
  "set js \<subseteq> player_ids u v \<Longrightarrow> \<forall>sig \<in> set (timeout_signals game_ingress t js). tick_signal u v sig"
  by (induction js) (auto simp: timeout_signals_def map_filter_simps player_ids_def tick_signal_def)

lemma item_signals_known:
  "\<forall>(i, p) \<in> set xs. i \<in> player_ids u v \<and> sender p \<in> player_ids u v \<Longrightarrow>
    \<forall>sig \<in> set (item_signals game_ingress xs). tick_signal u v sig"
  by (induction xs) (auto simp: item_signals_def map_filter_simps player_ids_def tick_signal_def)

text \<open>What a tick brings when the timers are those of the two players.\<close>

lemma duel_tick:
  assumes "duel_step s (Ticked c it t') s'" and "shows_duel s (any_view m u v ms ps qs fs bs t usr) (D, H)"
    and "idle s" and "timers_known u v (D, H)"
  obtains due fs' where "distinct due" and "set due = {i. \<exists>a < t'. D i = Some a}"
    and "sorted (map (\<lambda>i. the (D i)) due)"
    and "fs' = timeout_signals game_ingress t' due @
        item_signals game_ingress (map snd (sort_key fst (filter (\<lambda>h. fst h < t') H)))"
    and "shows_duel s' (any_view m u v ms ps qs fs' [] t' usr) (timer_abs_step (Tick it t') (D, H))"
    and "t \<le> t'" and "\<forall>sig \<in> set fs'. tick_signal u v sig"
proof -
  from shows_duel_tick [OF assms(1-3)] obtain due where due: "distinct due" "set due = {i. \<exists>a < t'. D i = Some a}"
    "sorted (map (\<lambda>i. the (D i)) due)"
    "shows_duel s' ((any_view m u v ms ps qs fs bs t usr)\<lparr>v_front := timeout_signals game_ingress t' due @
        item_signals game_ingress (map snd (sort_key fst (filter (\<lambda>h. fst h < t') H))), v_now := t'\<rparr>)
      (timer_abs_step (Tick it t') (D, H))" "now (sys_world s) \<le> t'" by blast
  let ?fs = "timeout_signals game_ingress t' due @
    item_signals game_ingress (map snd (sort_key fst (filter (\<lambda>h. fst h < t') H)))"
  have now: "now (sys_world s) = t" using assms(2) by (auto elim: shows_duelE)
  have "bs = []" using shows_duel_idle [OF assms(2,3)] by simp
  then have view: "(any_view m u v ms ps qs fs bs t usr)\<lparr>v_front := ?fs, v_now := t'\<rparr> =
      any_view m u v ms ps qs ?fs [] t' usr" by (simp add: any_view_def)
  have "set due \<subseteq> player_ids u v" using assms(4) due(2) by (auto simp: timers_known_def)
  moreover have "\<forall>(i, p) \<in> set (map snd (sort_key fst (filter (\<lambda>h. fst h < t') H))).
      i \<in> player_ids u v \<and> sender p \<in> player_ids u v"
    using assms(4) by (auto simp: timers_known_def)
  ultimately have "\<forall>sig \<in> set ?fs. tick_signal u v sig"
    using timeout_signals_known [of due u v] item_signals_known
    by (metis (no_types, lifting) UnE set_append)
  with that [OF due(1-3) refl] due(4,5) show thesis unfolding view now by blast
qed

lemma lost_tick:
  assumes "duel_step s (Ticked c it t') s'" and "shows_duel s b T" and "lost m u v x b" and "timers_known u v T"
    and "idle s"
  shows "\<exists>b' T'. shows_duel s' b' T' \<and> lost m u v x b' \<and> timers_known u v T'"
proof -
  obtain D H where T: "T = (D, H)" by (cases T)
  from lost_idle [OF assms(3,2,5)] obtain t usr where
    b: "b = any_view m u v Menu_Failed Ping_Failed Pong_Failed [] [] t usr" "failures usr (menu_id m) = Some x" .
  from duel_tick [OF assms(1) assms(2) [unfolded T b(1)] assms(5) assms(4) [unfolded T]] obtain due fs' where
    fs': "shows_duel s' (any_view m u v Menu_Failed Ping_Failed Pong_Failed fs' [] t' usr)
        (timer_abs_step (Tick it t') (D, H))" "\<forall>sig \<in> set fs'. tick_signal u v sig" .
  moreover have "lost m u v x (any_view m u v Menu_Failed Ping_Failed Pong_Failed fs' [] t' usr)"
    using b(2) fs'(2) tick_signal_id by (intro lost.over) auto
  ultimately show ?thesis using tick_known [OF assms(4)] unfolding T by blast
qed

end
