(* ===== verification/Rex_Race.thy ===== *)
theory Rex_Race
  imports Rex_Lost
begin

text \<open>
  The tests \<open>pong_timeout\<close> and \<open>ping_timeout\<close> of \<open>src/manager.rs\<close>: the game with a player who
  sleeps on the packet, in the system with a timeout manager. Under any order of turns in which
  the tasks catch up between ticks and the clock is read anew in each turn of the manager, the
  player who is kept waiting times out, and the menu fails everyone on its account.
\<close>

section \<open>Deadlines of two players\<close>

definition deadlines :: "uuid \<Rightarrow> uuid \<Rightarrow> instant option \<Rightarrow> instant option \<Rightarrow> game state_id \<rightharpoonup> instant" where
  "deadlines u v x y = (\<lambda>i. if i = ping_id u then x else if i = pong_id v then y else None)"

lemma deadlines_simps [simp]:
  "deadlines u v x y (ping_id u) = x" "deadlines u v x y (pong_id v) = y"
  "(deadlines u v x y)(ping_id u \<mapsto> d) = deadlines u v (Some d) y"
  "(deadlines u v x y)(pong_id v \<mapsto> d) = deadlines u v x (Some d)"
  by (auto simp: deadlines_def fun_eq_iff)

lemma deadlines_known:
  "timers_known u v (deadlines u v x y, H) \<longleftrightarrow>
    (\<forall>(d, i, p) \<in> set H. i \<in> player_ids u v \<and> sender p \<in> player_ids u v)"
  by (auto simp: timers_known_def deadlines_def player_ids_def split: if_splits)

lemma deadlines_due:
  "{i. \<exists>a < t. deadlines u v x y i = Some a} =
    {i. i = ping_id u \<and> (\<exists>a < t. x = Some a)} \<union> {i. i = pong_id v \<and> (\<exists>a < t. y = Some a)}"
  by (auto simp: deadlines_def split: if_splits)

lemma first_due:
  assumes "distinct js" and "set js = {i. \<exists>a < t. D i = Some a}" and "sorted (map (\<lambda>i. the (D i)) js)"
    and "D i = Some d" and "d < t" and "\<And>j e. j \<noteq> i \<Longrightarrow> D j = Some e \<Longrightarrow> d < e"
  obtains js' where "js = i # js'"
proof (cases js)
  case Nil
  have "i \<in> set js" using assms(2,4,5) by auto
  with Nil show thesis by simp
next
  case (Cons j js')
  have "j = i"
  proof (rule ccontr)
    assume ne: "j \<noteq> i"
    have "i \<in> set js" using assms(2,4,5) by auto
    with Cons ne have "i \<in> set js'" by simp
    with assms(3) Cons have "the (D j) \<le> the (D i)" by auto
    moreover obtain e where "D j = Some e" using assms(2) Cons by auto
    ultimately show False using assms(4) assms(6) [OF ne] by auto
  qed
  with Cons that show thesis by blast
qed

section \<open>What a tick brings\<close>

text \<open>A tick at which no deadline has passed hands back what is held for an instant before it.\<close>

lemma quiet_tick:
  assumes step: "duel_step s (Ticked c it t') s'" and idle: "idle s"
    and sh: "shows_duel s (any_view m u v ms ps qs [] [] t usr) (deadlines u v x y, H)"
    and known: "timers_known u v (deadlines u v x y, H)"
    and "\<And>d. x = Some d \<Longrightarrow> t' \<le> d" and "\<And>d. y = Some d \<Longrightarrow> t' \<le> d"
  shows "shows_duel s' (any_view m u v ms ps qs
      (item_signals game_ingress (map snd (sort_key fst (filter (\<lambda>h. fst h < t') H)))) [] t' usr)
    (deadlines u v x y, filter (\<lambda>h. \<not> fst h < t') H)"
proof -
  have none: "{i. \<exists>a < t'. deadlines u v x y i = Some a} = {}"
    using assms(5,6) by (force simp: deadlines_due)
  obtain due fs' where due: "set due = {i. \<exists>a < t'. deadlines u v x y i = Some a}"
    and fs': "fs' = timeout_signals game_ingress t' due @
        item_signals game_ingress (map snd (sort_key fst (filter (\<lambda>h. fst h < t') H)))"
    and s': "shows_duel s' (any_view m u v ms ps qs fs' [] t' usr)
        (timer_abs_step (Tick it t') (deadlines u v x y, H))"
    by (rule duel_tick [OF step sh idle known])
  have "due = []" using due none by simp
  then have "fs' = item_signals game_ingress (map snd (sort_key fst (filter (\<lambda>h. fst h < t') H)))"
    using fs' by (simp add: timeout_signals_def map_filter_simps)
  moreover have "deadlines u v x y |` {i. \<not> (\<exists>a < t'. deadlines u v x y i = Some a)} = deadlines u v x y"
    using none by (auto simp: restrict_map_def fun_eq_iff)
  ultimately show ?thesis using s' by simp
qed

lemma item_signals_simps [simp]:
  "item_signals game_ingress [] = []"
  "item_signals game_ingress [(ping_id u, p)] = [\<lparr>sig_id = ping_id u, sig_input = Input_Ping (Ping_Returned p)\<rparr>]"
  "item_signals game_ingress [(pong_id v, p)] = [\<lparr>sig_id = pong_id v, sig_input = Input_Pong (Pong_Returned p)\<rparr>]"
  by (simp_all add: item_signals_def map_filter_simps)

lemma lost_by_tick:
  assumes step: "duel_step s (Ticked c it t') s'" and idle: "idle s"
    and sh: "shows_duel s (any_view m u v Menu_Ready ps qs [] [] t usr) (deadlines u v x y, H)"
    and known: "timers_known u v (deadlines u v x y, H)"
    and players: "ps \<noteq> Ping_Done" "ps \<noteq> Ping_Failed" "qs \<noteq> Pong_Done" "qs \<noteq> Pong_Failed"
  shows "x = Some d \<Longrightarrow> d < t' \<Longrightarrow> (\<And>e. y = Some e \<Longrightarrow> d < e) \<Longrightarrow>
      \<exists>b' T'. shows_duel s' b' T' \<and> lost m u v FailedPing b' \<and> timers_known u v T'"
    and "y = Some d \<Longrightarrow> d < t' \<Longrightarrow> (\<And>e. x = Some e \<Longrightarrow> d < e) \<Longrightarrow>
      \<exists>b' T'. shows_duel s' b' T' \<and> lost m u v FailedPong b' \<and> timers_known u v T'"
proof -
  let ?D = "deadlines u v x y"
  obtain due fs' where due: "distinct due" "set due = {i. \<exists>a < t'. ?D i = Some a}"
      "sorted (map (\<lambda>i. the (?D i)) due)"
    and fs': "fs' = timeout_signals game_ingress t' due @
        item_signals game_ingress (map snd (sort_key fst (filter (\<lambda>h. fst h < t') H)))"
    and s': "shows_duel s' (any_view m u v Menu_Ready ps qs fs' [] t' usr) (timer_abs_step (Tick it t') (?D, H))"
    and sigs: "\<forall>sig \<in> set fs'. tick_signal u v sig"
    by (rule duel_tick [OF step sh idle known])
  have known': "timers_known u v (timer_abs_step (Tick it t') (?D, H))" by (rule tick_known [OF known])
  show "\<exists>b' T'. shows_duel s' b' T' \<and> lost m u v FailedPing b' \<and> timers_known u v T'"
    if "x = Some d" and "d < t'" and "\<And>e. y = Some e \<Longrightarrow> d < e"
  proof -
    have first: "?D (ping_id u) = Some d" using that(1) by simp
    have later: "d < e" if "j \<noteq> ping_id u" "?D j = Some e" for j e
      using that \<open>\<And>e. _ = Some e \<Longrightarrow> d < e\<close> by (auto simp: deadlines_def split: if_splits)
    obtain js where "due = ping_id u # js" by (rule first_due [OF due first \<open>d < t'\<close> later])
    with fs' obtain fs where fs: "fs' = \<lparr>sig_id = ping_id u, sig_input = Input_Ping (Ping_RecvTimeout t')\<rparr> # fs"
      by (simp add: timeout_signals_def map_filter_simps)
    with sigs have "lost m u v FailedPing (any_view m u v Menu_Ready ps qs fs' [] t' usr)"
      unfolding fs using players by (intro lost.ping_due) auto
    with s' known' show ?thesis by blast
  qed
  show "\<exists>b' T'. shows_duel s' b' T' \<and> lost m u v FailedPong b' \<and> timers_known u v T'"
    if "y = Some d" and "d < t'" and "\<And>e. x = Some e \<Longrightarrow> d < e"
  proof -
    have first: "?D (pong_id v) = Some d" using that(1) by simp
    have later: "d < e" if "j \<noteq> pong_id v" "?D j = Some e" for j e
      using that \<open>\<And>e. _ = Some e \<Longrightarrow> d < e\<close> by (auto simp: deadlines_def split: if_splits)
    obtain js where "due = pong_id v # js" by (rule first_due [OF due first \<open>d < t'\<close> later])
    with fs' obtain fs where fs: "fs' = \<lparr>sig_id = pong_id v, sig_input = Input_Pong (Pong_RecvTimeout t')\<rparr> # fs"
      by (simp add: timeout_signals_def map_filter_simps)
    with sigs have "lost m u v FailedPong (any_view m u v Menu_Ready ps qs fs' [] t' usr)"
      unfolding fs using players by (intro lost.pong_due) auto
    with s' known' show ?thesis by blast
  qed
qed

section \<open>The schedule\<close>

text \<open>
  A run from \<open>s0\<close> in which each turn of the manager reads a later clock, a tick comes only when
  the tasks have caught up, and at most \<open>g\<close> nanoseconds after the tick before it. The last
  argument is the instant of the last tick, or of the start.
\<close>

inductive paced ::
  "(game, game_input, game_world, unit, unit) program \<Rightarrow> nat \<Rightarrow> game_system \<Rightarrow>
   (game, game_input, game_msg, unit) sys_event list \<Rightarrow> game_system \<Rightarrow> instant \<Rightarrow> bool"
  for P g s0 where
  outset: "paced P g s0 [] s0 (now (sys_world s0))"
| turn: "paced P g s0 (es @ [Manager_turn t]) s' l"
    if "paced P g s0 es s l" and "sys_step game_ingress P s (Manager_turn t) s'" and "now (sys_world s) < t"
| route: "paced P g s0 (es @ [e]) s' l"
    if "paced P g s0 es s l" and "sys_step game_ingress P s e s'" and "routing_event e"
| tick: "paced P g s0 (es @ [Ticked 0 it t]) s' t"
    if "paced P g s0 es s l" and "sys_step game_ingress P s (Ticked 0 it t) s'" and "idle s" and "t \<le> l + g"

text \<open>
  The two tests up to their sleep: the system is built, the menu gets a random id, \<open>m\<close>, and is told
  to play with a packet that one of the players holds on to.
\<close>

definition pong_timeout_test ::
  "instant \<Rightarrow> (nat \<Rightarrow> uuid) \<Rightarrow> uuid \<Rightarrow> ((game, game_input, game_world, unit, unit) program \<times> game_system) outcome" where
  "pong_timeout_test t vs m = map_outcome_to
     (\<lambda>ctx. Returned (ctx, spawned (game_start t vs (state_id_new_rand Menu m) (Some Ping)))) (build 0 duel_builder)"

definition ping_timeout_test ::
  "instant \<Rightarrow> (nat \<Rightarrow> uuid) \<Rightarrow> uuid \<Rightarrow> ((game, game_input, game_world, unit, unit) program \<times> game_system) outcome" where
  "ping_timeout_test t vs m = map_outcome_to
     (\<lambda>ctx. Returned (ctx, spawned (game_start t vs (state_id_new_rand Menu m) (Some Pong)))) (build 0 duel_builder)"

lemma timeout_tests:
  "pong_timeout_test t vs m = Returned (duel_program, spawned (game_start t vs \<lparr>kind = Menu, uuid = m\<rparr> (Some Ping)))"
  "ping_timeout_test t vs m = Returned (duel_program, spawned (game_start t vs \<lparr>kind = Menu, uuid = m\<rparr> (Some Pong)))"
  by (simp_all add: pong_timeout_test_def ping_timeout_test_def duel_build state_id_new_rand_def state_id_new_def)

text \<open>The menu has been asked to play.\<close>

definition asked_view :: "uuid \<Rightarrow> (nat \<Rightarrow> uuid) \<Rightarrow> who_holds \<Rightarrow> instant \<Rightarrow> game_view" where
  "asked_view m vs who t = \<lparr>v_states = Map.empty, v_parents = Map.empty, v_front = [],
     v_back = [\<lparr>sig_id = menu_id m, sig_input = Input_Menu (Play who)\<rparr>], v_urgent = [], v_normal = [],
     v_now = t, v_user = \<lparr>failures = Map.empty, v4s = vs, v4_next = 0\<rparr>\<rparr>"

lemma asked_start:
  "shows_duel (spawned (game_start t vs (menu_id m) who)) (asked_view m vs who t) (deadlines u v None None, [])"
proof -
  have "shows_view (game_start t vs (menu_id m) who) ((asked_view m vs who t)\<lparr>v_urgent := []\<rparr>)"
    using game_start_view [of t vs "menu_id m" who] by (simp add: asked_view_def)
  moreover have "timer_rel ledger_new (deadlines u v None None, [])"
    by (simp add: timer_rel_def ledger_new_def held_at_def deadlines_def fun_eq_iff)
  ultimately show ?thesis
    by (auto simp: shows_duel_def spawned_def channels_new_def ledger_new_wf asked_view_def
        intro!: exI [of _ "[]"] exI [of _ "(deadlines u v None None, [])"])
qed

lemma asked_turn:
  assumes "duel_step s (Manager_turn t') s'" and "shows_duel s (asked_view m vs who t) T"
    and "m \<noteq> 0" and "vs 0 \<noteq> 0" and "vs 1 \<noteq> 0"
  shows "shows_duel s' (any_view m (vs 0) (vs 1) Menu_Ready Ping_Ready Pong_Ready []
      [\<lparr>sig_id = ping_id (vs 0), sig_input = Input_Ping (StartSending (pong_id (vs 1)) who)\<rparr>] t'
      \<lparr>failures = Map.empty, v4s = vs, v4_next = 2\<rparr>) T"
proof -
  let ?sig = "\<lparr>sig_id = menu_id m, sig_input = Input_Menu (Play who)\<rparr>"
  let ?b = "any_view m (vs 0) (vs 1) Menu_Ready Ping_Ready Pong_Ready []
      [\<lparr>sig_id = ping_id (vs 0), sig_input = Input_Ping (StartSending (pong_id (vs 1)) who)\<rparr>] t'
      \<lparr>failures = Map.empty, v4s = vs, v4_next = 2\<rparr>"
  have "effect shows_view (menu_process (menu_id m) (Input_Menu (Play who)))
      ((popped_view t' (asked_view m vs who t))\<lparr>v_urgent := N\<rparr>) () (?b\<lparr>v_urgent := N @ []\<rparr>)" for N
    by (rule effect_eq, rule menu_play)
      (use assms(3-5) in \<open>auto simp: popped_view_def asked_view_def any_view_def is_nil_def board_def parents_of_def\<close>)
  then have "effect shows_view (dispatch game_machines ?sig)
      ((popped_view t' (asked_view m vs who t))\<lparr>v_urgent := N\<rparr>) () (?b\<lparr>v_urgent := N @ []\<rparr>)" for N
    by (simp add: dispatch_game)
  from shows_duel_turn_effect [OF assms(1,2) _ this] show ?thesis by (simp add: asked_view_def)
qed

section \<open>Races\<close>

text \<open>
  What the manager's turns and the ticks of a schedule keep of the view and the timers, the whole
  run keeps; \<open>J\<close> also sees the instant of the last tick.
\<close>

lemma paced_clock: "paced duel_program g s0 es s l \<Longrightarrow> now (sys_world s0) \<le> now (sys_world s)"
proof (induction rule: paced.induct)
  case (turn es s l t s')
  with step_clock [OF turn.hyps(2)] show ?case by simp
next
  case (route es s l e s')
  with step_clock [OF route.hyps(2)] show ?case by simp
next
  case (tick es s l it t s')
  with step_clock [OF tick.hyps(2)] show ?case by simp
qed simp

locale race =
  fixes J :: "instant \<Rightarrow> game_view \<Rightarrow> (game, packet) timer_abs \<Rightarrow> bool" and g :: nat
  assumes turn_keeps: "J l b T \<Longrightarrow> shows_duel s b T \<Longrightarrow> duel_step s (Manager_turn t) s' \<Longrightarrow> v_now b < t \<Longrightarrow>
      t + 20000000 < instant_limit \<Longrightarrow> \<exists>b' T'. shows_duel s' b' T' \<and> J l b' T'"
    and tick_keeps: "J l b T \<Longrightarrow> shows_duel s b T \<Longrightarrow> duel_step s (Ticked 0 it t) s' \<Longrightarrow> idle s \<Longrightarrow>
      t \<le> l + g \<Longrightarrow> v_now b \<le> t \<Longrightarrow> \<exists>b' T'. shows_duel s' b' T' \<and> J t b' T'"
begin

lemma paced_keeps:
  assumes "paced duel_program g s0 es s l" and "now (sys_world s) + 20000000 < instant_limit"
    and "shows_duel s0 b0 T0" and "J (now (sys_world s0)) b0 T0"
  shows "\<exists>b T. shows_duel s b T \<and> J l b T"
  using assms(1,2)
proof (induction rule: paced.induct)
  case outset
  with assms(3,4) show ?case by blast
next
  case (turn es s l t s')
  note step = turn.hyps(2)
  have t: "now (sys_world s') = t"
    using step by (rule manager_turnE)
      (use manager_step_now [of "sys_machines duel_program"] game_pushes.pushing_machines_axioms in auto)
  have "now (sys_world s) \<le> now (sys_world s')" using step_clock [OF step] .
  with turn obtain b T where J: "shows_duel s b T" "J l b T" by auto
  then have "v_now b = now (sys_world s)" by (auto elim: shows_duelE)
  with turn_keeps [OF J(2,1) step] turn t show ?case by simp
next
  case (route es s l e s')
  have "now (sys_world s) \<le> now (sys_world s')" using step_clock [OF route.hyps(2)] .
  with route shows_duel_routing [OF route.hyps(2,3)] show ?case by fastforce
next
  case (tick es s l it t s')
  note step = tick.hyps(2)
  have t: "now (sys_world s') = t" "now (sys_world s) \<le> t" using step by (auto elim: tickedE)
  with tick obtain b T where J: "shows_duel s b T" "J l b T" by auto
  then have "v_now b = now (sys_world s)" by (auto elim: shows_duelE)
  with tick_keeps [OF J(2,1) step] tick t show ?case by simp
qed

end

text \<open>A machine's \<open>get_state\<close> in such a state.\<close>

lemma shows_duel_get_state:
  assumes "shows_duel s b T" and "\<not> is_nil i" and "v_states b i = Some st"
  shows "ctx_get_state i (sys_world s) = (Returned (Some st), sys_world s)"
proof -
  from assms(1) obtain N where "shows_view (sys_world s) (b\<lparr>v_urgent := N\<rparr>)" by (auto elim: shows_duelE)
  then have "world_wf (sys_world s)" "world_states (sys_world s) i = Some st"
    using assms(3) by (simp_all add: shows_view_iff)
  with assms(2) show ?thesis
    by (simp add: ctx_get_state_def on_store_def read_state_forest world_wf_def)
qed

text \<open>What a lost game leaves behind.\<close>

lemma failed_game:
  assumes "shows_duel s b T" and "lost m (vs 0) (vs 1) x b" and "idle s"
    and "m \<noteq> 0" and "vs 0 \<noteq> 0" and "vs 1 \<noteq> 0"
  shows "ctx_get_state (menu_id m) (sys_world s) = (Returned (Some (State_Menu Menu_Failed)), sys_world s) \<and>
    ctx_get_state (ping_id (vs 0)) (sys_world s) = (Returned (Some (State_Ping Ping_Failed)), sys_world s) \<and>
    ctx_get_state (pong_id (vs 1)) (sys_world s) = (Returned (Some (State_Pong Pong_Failed)), sys_world s) \<and>
    failures (user (sys_world s)) (menu_id m) = Some x"
proof -
  from lost_idle [OF assms(2,1,3)] obtain t usr where
    b: "b = any_view m (vs 0) (vs 1) Menu_Failed Ping_Failed Pong_Failed [] [] t usr"
    and f: "failures usr (menu_id m) = Some x" .
  moreover have "user (sys_world s) = usr"
    using assms(1) unfolding b by (auto elim!: shows_duelE simp: shows_view_iff)
  ultimately show ?thesis
    using shows_duel_get_state [OF assms(1)] assms(4-6) by (simp add: is_nil_def)
qed

end
