(* ===== verification/Rex_Pong_Timeout.thy ===== *)
theory Rex_Pong_Timeout
  imports Rex_Race
begin

text \<open>
  The test \<open>pong_timeout\<close> of \<open>src/manager.rs\<close>: the ping machine sleeps on the packet, first 10,
  then 20 milliseconds, and the pong machine, whose timeout is 11 milliseconds, fails.
\<close>

section \<open>Ping sleeps on the packet\<close>

inductive pong_race ::
  "uuid \<Rightarrow> (nat \<Rightarrow> uuid) \<Rightarrow> uuid \<Rightarrow> uuid \<Rightarrow> game_user \<Rightarrow> instant \<Rightarrow> nat \<Rightarrow>
   instant \<Rightarrow> game_view \<Rightarrow> (game, packet) timer_abs \<Rightarrow> bool" for m vs u v usr t0 g where
  asked: "pong_race m vs u v usr t0 g l (asked_view m vs (Some Ping) t) (deadlines u v None None, [])"
    if "l = t0" and "t0 \<le> t"
| started: "pong_race m vs u v usr t0 g l (any_view m u v Menu_Ready Ping_Ready Pong_Ready []
      [\<lparr>sig_id = ping_id u, sig_input = Input_Ping (StartSending (pong_id v) (Some Ping))\<rparr>] t usr)
      (deadlines u v None None, [])"
    if "l = t0" and "t0 \<le> t"
| served: "pong_race m vs u v usr t0 g l (any_view m u v Menu_Ready Ping_Sending Pong_Ready []
      [to_pong u v (Some Ping) 0] t usr) (deadlines u v None None, [])"
    if "l = t0" and "t0 \<le> t"
| replied: "pong_race m vs u v usr t0 g l (any_view m u v Menu_Ready Ping_Sending Pong_Responding []
      [to_ping u v (Some Ping) 5] t usr) (deadlines u v None (Some (a + 11000000)), [])"
    if "l = t0" and "t0 \<le> a" and "a \<le> t"
| held: "pong_race m vs u v usr t0 g l (any_view m u v Menu_Ready Ping_Sending Pong_Responding [] [] t usr)
      (deadlines u v (Some (b + 11000000)) (Some (a + 11000000)),
       [(b + 10000000, ping_id u, \<lparr>msg = 10, sender = pong_id v, who_holds = Some Ping\<rparr>)])"
    if "t0 \<le> a" and "a < b" and "b \<le> t" and "l \<le> b + 10000000" and "b \<le> t0 + g \<or> l = t0"
| returned: "pong_race m vs u v usr t0 g l (any_view m u v Menu_Ready Ping_Sending Pong_Responding
      [\<lparr>sig_id = ping_id u, sig_input = Input_Ping (Ping_Returned
        \<lparr>msg = 10, sender = pong_id v, who_holds = Some Ping\<rparr>)\<rparr>] [] t usr) (deadlines u v x y, [])"
    if "l \<le> t0 + 2 * g + 10000000"
| resent: "pong_race m vs u v usr t0 g l (any_view m u v Menu_Ready Ping_Sending Pong_Responding []
      [to_pong u v (Some Ping) 10] t usr) (deadlines u v x y, [])"
    if "l \<le> t0 + 2 * g + 10000000"
| answered: "pong_race m vs u v usr t0 g l (any_view m u v Menu_Ready Ping_Sending Pong_Responding []
      [to_ping u v (Some Ping) 15] t usr) (deadlines u v x (Some (d + 11000000)), [])"
    if "d \<le> t" and "l \<le> t0 + 2 * g + 10000000"
| waited: "pong_race m vs u v usr t0 g l (any_view m u v Menu_Ready Ping_Sending Pong_Responding [] [] t usr)
      (deadlines u v (Some (e + 11000000)) (Some (d + 11000000)),
       [(e + 20000000, ping_id u, \<lparr>msg = 20, sender = pong_id v, who_holds = Some Ping\<rparr>)])"
    if "d < e" and "e \<le> t" and "l \<le> t0 + 2 * g + 10000000 \<or> e \<le> t0 + 3 * g + 10000000 \<and> l \<le> d + 11000000"
| decided: "pong_race m vs u v usr t0 g l b T"
    if "lost m u v FailedPong b" and "timers_known u v T"

lemma pong_race_turn:
  assumes "pong_race m vs u v usr t0 g l b T" and sh: "shows_duel s b T"
    and step: "duel_step s (Manager_turn t') s'" and clock: "v_now b < t'" "t' + 20000000 < instant_limit"
    and ids: "m \<noteq> 0" "u \<noteq> 0" "v \<noteq> 0"
    and play: "u = vs 0" "v = vs 1" "usr = \<lparr>failures = Map.empty, v4s = vs, v4_next = 2\<rparr>"
  shows "\<exists>b' T'. shows_duel s' b' T' \<and> pong_race m vs u v usr t0 g l b' T'"
  using assms(1)
proof cases
  case (asked t)
  have "shows_duel s' (any_view m u v Menu_Ready Ping_Ready Pong_Ready []
      [\<lparr>sig_id = ping_id u, sig_input = Input_Ping (StartSending (pong_id v) (Some Ping))\<rparr>] t' usr) T"
    using asked_turn [OF step sh [unfolded asked(1)]] ids by (simp add: play)
  moreover have "pong_race m vs u v usr t0 g l (any_view m u v Menu_Ready Ping_Ready Pong_Ready []
      [\<lparr>sig_id = ping_id u, sig_input = Input_Ping (StartSending (pong_id v) (Some Ping))\<rparr>] t' usr) T"
    unfolding asked(2) using asked clock by (intro pong_race.started) (auto simp: asked_view_def)
  ultimately show ?thesis by blast
next
  case (started t)
  from turn_sends(2) [OF step ping_dispatch [OF ping_moves(2) ids(2)] sh [unfolded started(1)] refl]
    pong_race.served [of l t0 t'] started clock
  show ?thesis by fastforce
next
  case (served t)
  have "shows_duel s' (any_view m u v Menu_Ready Ping_Sending Pong_Responding []
      [to_ping u v (Some Ping) 5] t' usr) (deadlines u v None (Some (t' + 11000000)), [])"
    using turn_sends(2) [OF step pong_dispatch [OF pong_moves(3) ids(3)] sh [unfolded served(1)] refl] clock served(2)
    by simp
  then show ?thesis using pong_race.replied [of l t0 t' t'] served clock by fastforce
next
  case (replied a t)
  have "shows_duel s' (any_view m u v Menu_Ready Ping_Sending Pong_Responding [] [] t' usr)
      (deadlines u v (Some (t' + 11000000)) (Some (a + 11000000)),
       [(t' + 10000000, ping_id u, \<lparr>msg = 10, sender = pong_id v, who_holds = Some Ping\<rparr>)])"
    using turn_sends(2) [OF step ping_dispatch [OF ping_moves(5) ids(2)] sh [unfolded replied(1)] refl] clock replied(2)
    by simp
  then show ?thesis using pong_race.held [of t0 a t' t' l g] replied clock by fastforce
next
  case (held a b' t)
  from turn_waits [OF step sh [unfolded held(1)]] held(2-) clock
  show ?thesis using pong_race.held [of t0 a b' t' l g] held(1) by fastforce
next
  case (returned t x y)
  have "shows_duel s' (any_view m u v Menu_Ready Ping_Sending Pong_Responding [] [to_pong u v (Some Ping) 10] t' usr)
      (deadlines u v (Some (t' + 11000000)) y, [])"
    using turn_sends(1) [OF step ping_dispatch [OF ping_moves(3) ids(2)] sh [unfolded returned(1)]] clock returned(2)
    by simp
  then show ?thesis using pong_race.resent [of l t0 g] returned by blast
next
  case (resent t x y)
  have "shows_duel s' (any_view m u v Menu_Ready Ping_Sending Pong_Responding []
      [to_ping u v (Some Ping) 15] t' usr) (deadlines u v x (Some (t' + 11000000)), [])"
    using turn_sends(2) [OF step pong_dispatch [OF pong_moves(3) ids(3)] sh [unfolded resent(1)] refl] clock resent(2)
    by simp
  then show ?thesis using pong_race.answered [of t' t' l t0 g] resent by blast
next
  case (answered d t x)
  have "shows_duel s' (any_view m u v Menu_Ready Ping_Sending Pong_Responding [] [] t' usr)
      (deadlines u v (Some (t' + 11000000)) (Some (d + 11000000)),
       [(t' + 20000000, ping_id u, \<lparr>msg = 20, sender = pong_id v, who_holds = Some Ping\<rparr>)])"
    using turn_sends(2) [OF step ping_dispatch [OF ping_moves(5) ids(2)] sh [unfolded answered(1)] refl] clock answered(2)
    by simp
  then show ?thesis using pong_race.waited [of d t' t' l t0 g] answered clock by fastforce
next
  case (waited d e t)
  from turn_waits [OF step sh [unfolded waited(1)]] waited(2-) clock
  show ?thesis using pong_race.waited [of d e t' l t0 g] waited(1) by fastforce
next
  case decided
  with lost_turn [OF step sh _ _ ids] clock show ?thesis by (fastforce intro: pong_race.decided)
qed

lemma pong_race_tick:
  assumes "pong_race m vs u v usr t0 g l b T" and sh: "shows_duel s b T"
    and step: "duel_step s (Ticked 0 it t') s'" and idle: "idle s" and gap: "t' \<le> l + g"
    and le: "v_now b \<le> t'"
  shows "\<exists>b' T'. shows_duel s' b' T' \<and> pong_race m vs u v usr t0 g t' b' T'"
proof -
  have front: "v_front b = []" "v_back b = []" using shows_duel_idle [OF sh idle] by simp_all
  from assms(1) show ?thesis
  proof cases
    case (held a b' t)
    note tick = quiet_tick [OF step idle sh [unfolded held(1,2)]]
    note lose = lost_by_tick(2) [OF step idle sh [unfolded held(1,2)]]
    show ?thesis
    proof (cases "a + 11000000 < t'")
      case True
      with lose [of "a + 11000000"] held(4) have "\<exists>b' T'. shows_duel s' b' T' \<and> lost m u v FailedPong b' \<and> timers_known u v T'"
        by (simp add: deadlines_known)
      then show ?thesis by (blast intro: pong_race.decided)
    next
      case False
      show ?thesis
      proof (cases "t' \<le> b' + 10000000")
        case True
        with tick False held(4) have "shows_duel s' (any_view m u v Menu_Ready Ping_Sending Pong_Responding [] [] t' usr) T"
          unfolding held(2) by (simp add: deadlines_known)
        moreover have "pong_race m vs u v usr t0 g t' (any_view m u v Menu_Ready Ping_Sending Pong_Responding [] [] t' usr) T"
          unfolding held(2) using held le gap True by (intro pong_race.held) auto
        ultimately show ?thesis by blast
      next
        case late: False
        with tick False held(4) have "shows_duel s' (any_view m u v Menu_Ready Ping_Sending Pong_Responding
          [\<lparr>sig_id = ping_id u, sig_input = Input_Ping (Ping_Returned
            \<lparr>msg = 10, sender = pong_id v, who_holds = Some Ping\<rparr>)\<rparr>] [] t' usr)
          (deadlines u v (Some (b' + 11000000)) (Some (a + 11000000)), [])"
          by (simp add: deadlines_known)
        moreover have "t' \<le> t0 + 2 * g + 10000000" using held gap by auto
        ultimately show ?thesis by (blast intro: pong_race.returned)
      qed
    qed
  next
    case (waited d e t)
    note tick = quiet_tick [OF step idle sh [unfolded waited(1,2)]]
    note lose = lost_by_tick(2) [OF step idle sh [unfolded waited(1,2)]]
    show ?thesis
    proof (cases "d + 11000000 < t'")
      case True
      with lose [of "d + 11000000"] waited(3) have "\<exists>b' T'. shows_duel s' b' T' \<and> lost m u v FailedPong b' \<and> timers_known u v T'"
        by (simp add: deadlines_known)
      then show ?thesis by (blast intro: pong_race.decided)
    next
      case False
      with tick waited(3) have "shows_duel s' (any_view m u v Menu_Ready Ping_Sending Pong_Responding [] [] t' usr) T"
        unfolding waited(2) by (simp add: deadlines_known)
      moreover have "pong_race m vs u v usr t0 g t' (any_view m u v Menu_Ready Ping_Sending Pong_Responding [] [] t' usr) T"
        unfolding waited(2) using waited le gap False by (intro pong_race.waited) auto
      ultimately show ?thesis by blast
    qed
  next
    case decided
    from lost_tick [OF step sh this idle] show ?thesis by (blast intro: pong_race.decided)
  qed (use front in \<open>simp_all add: asked_view_def\<close>)
qed

interpretation pong_runs:
  race "\<lambda>l b T. m \<noteq> 0 \<and> vs 0 \<noteq> 0 \<and> vs 1 \<noteq> 0 \<and>
    pong_race m vs (vs 0) (vs 1) \<lparr>failures = Map.empty, v4s = vs, v4_next = 2\<rparr> t0 g l b T" g
  for m vs t0 g
proof
  fix l b T s t s' it
  let ?race = "pong_race m vs (vs 0) (vs 1) \<lparr>failures = Map.empty, v4s = vs, v4_next = 2\<rparr> t0 g"
  assume J: "m \<noteq> 0 \<and> vs 0 \<noteq> 0 \<and> vs 1 \<noteq> 0 \<and> ?race l b T" and sh: "shows_duel s b T"
  show "\<exists>b' T'. shows_duel s' b' T' \<and> m \<noteq> 0 \<and> vs 0 \<noteq> 0 \<and> vs 1 \<noteq> 0 \<and> ?race l b' T'"
    if "duel_step s (Manager_turn t) s'" and "v_now b < t" and "t + 20000000 < instant_limit"
    using pong_race_turn [OF _ sh that] J by blast
  show "\<exists>b' T'. shows_duel s' b' T' \<and> m \<noteq> 0 \<and> vs 0 \<noteq> 0 \<and> vs 1 \<noteq> 0 \<and> ?race t b' T'"
    if "duel_step s (Ticked 0 it t) s'" and "idle s" and "t \<le> l + g" and "v_now b \<le> t"
    using pong_race_tick [OF _ sh that] J by blast
qed

text \<open>After its time the race is decided.\<close>

lemma pong_race_decided:
  assumes "pong_race m vs u v usr t0 g l b T" and "shows_duel s b T" and "idle s"
    and "t0 + 3 * g + 21000000 < l"
  shows "lost m u v FailedPong b"
  using assms(1)
proof cases
  case (decided)
  then show ?thesis by simp
qed (use shows_duel_idle [OF assms(2,3)] assms(4) in \<open>auto simp: asked_view_def\<close>)

lemma pong_timeout_lost:
  assumes "build 0 duel_builder = Returned P"
    and "paced P g (spawned (game_start t0 vs \<lparr>kind = Menu, uuid = m\<rparr> (Some Ping))) es s l"
    and "m \<noteq> 0" and "vs 0 \<noteq> 0" and "vs 1 \<noteq> 0" and "now (sys_world s) + 20000000 < instant_limit"
    and "idle s" and "t0 + 3 * g + 21000000 < l"
  shows "\<exists>b T. shows_duel s b T \<and> lost m (vs 0) (vs 1) FailedPong b"
proof -
  let ?s0 = "spawned (game_start t0 vs (menu_id m) (Some Ping)) :: game_system"
  have "P = duel_program" using assms(1) duel_build by simp
  with assms(2) have run: "paced duel_program g ?s0 es s l" by simp
  have "now (sys_world ?s0) = t0" by (simp add: spawned_def game_start_def signal_to_def cmd_simps)
  with pong_runs.paced_keeps [OF run assms(6) asked_start] assms(3-5) obtain b T where
    sh: "shows_duel s b T"
    and race: "pong_race m vs (vs 0) (vs 1) \<lparr>failures = Map.empty, v4s = vs, v4_next = 2\<rparr> t0 g l b T"
    by (blast intro: pong_race.asked)
  from sh pong_race_decided [OF race sh assms(7,8)] show ?thesis by blast
qed

text \<open>
  C23. The test pong_timeout: in the system its builder makes, a menu is told to play with a
  packet that ping holds on to. In every schedule in which the manager's turns read increasing
  clocks and each tick finds the tasks caught up and comes at most g after the one before, once
  the last tick is more than 3 g + 21 ms after the start and the tasks have caught up again,
  menu, ping and pong are all Failed and the failure on record for the menu is that of pong.
  (The test waits 44 ms, with a tick every 1.5 ms.)
\<close>

theorem pong_timeout:
  assumes "pong_timeout_test t0 vs m = Returned (P, s0)" and "paced P g s0 es s l"
    and "m \<noteq> 0" and "vs 0 \<noteq> 0" and "vs 1 \<noteq> 0" and "now (sys_world s) + 20000000 < instant_limit"
    and "idle s" and "t0 + 3 * g + 21000000 < l"
  shows "ctx_get_state \<lparr>kind = Menu, uuid = m\<rparr> (sys_world s) = (Returned (Some (State_Menu Menu_Failed)), sys_world s) \<and>
    ctx_get_state \<lparr>kind = Ping, uuid = vs 0\<rparr> (sys_world s) = (Returned (Some (State_Ping Ping_Failed)), sys_world s) \<and>
    ctx_get_state \<lparr>kind = Pong, uuid = vs 1\<rparr> (sys_world s) = (Returned (Some (State_Pong Pong_Failed)), sys_world s) \<and>
    failures (user (sys_world s)) \<lparr>kind = Menu, uuid = m\<rparr> = Some FailedPong"
proof -
  have "build 0 duel_builder = Returned P"
    and "paced P g (spawned (game_start t0 vs \<lparr>kind = Menu, uuid = m\<rparr> (Some Ping))) es s l"
    using assms(1,2) by (simp_all add: timeout_tests duel_build)
  from pong_timeout_lost [OF this assms(3-)] obtain b T where
    "shows_duel s b T" "lost m (vs 0) (vs 1) FailedPong b" by blast
  from failed_game [OF this assms(7,3-5)] show ?thesis .
qed

end
