(* ===== verification/Rex_Ping_Timeout.thy ===== *)
theory Rex_Ping_Timeout
  imports Rex_Race
begin

text \<open>
  The test \<open>ping_timeout\<close> of \<open>src/manager.rs\<close>: the pong machine sleeps on the packet, first 5,
  then 15 milliseconds, and the ping machine, whose timeout is 11 milliseconds, fails. The first
  5 milliseconds must be noticed before pong's own timeout, so the ticks may not be further
  than 6 milliseconds apart.
\<close>

section \<open>Pong sleeps on the packet\<close>

inductive ping_race ::
  "uuid \<Rightarrow> (nat \<Rightarrow> uuid) \<Rightarrow> uuid \<Rightarrow> uuid \<Rightarrow> game_user \<Rightarrow> instant \<Rightarrow> nat \<Rightarrow>
   instant \<Rightarrow> game_view \<Rightarrow> (game, packet) timer_abs \<Rightarrow> bool" for m vs u v usr t0 g where
  asked: "ping_race m vs u v usr t0 g l (asked_view m vs (Some Pong) t) (deadlines u v None None, [])"
    if "l = t0" and "t0 \<le> t"
| started: "ping_race m vs u v usr t0 g l (any_view m u v Menu_Ready Ping_Ready Pong_Ready []
      [\<lparr>sig_id = ping_id u, sig_input = Input_Ping (StartSending (pong_id v) (Some Pong))\<rparr>] t usr)
      (deadlines u v None None, [])"
    if "l = t0" and "t0 \<le> t"
| served: "ping_race m vs u v usr t0 g l (any_view m u v Menu_Ready Ping_Sending Pong_Ready []
      [to_pong u v (Some Pong) 0] t usr) (deadlines u v None None, [])"
    if "l = t0" and "t0 \<le> t"
| held: "ping_race m vs u v usr t0 g l (any_view m u v Menu_Ready Ping_Sending Pong_Responding [] [] t usr)
      (deadlines u v None (Some (a + 11000000)),
       [(a + 5000000, pong_id v, \<lparr>msg = 5, sender = ping_id u, who_holds = Some Pong\<rparr>)])"
    if "t0 \<le> a" and "a \<le> t" and "l \<le> a + 5000000" and "a \<le> t0 + g \<or> l = t0"
| returned: "ping_race m vs u v usr t0 g l (any_view m u v Menu_Ready Ping_Sending Pong_Responding
      [\<lparr>sig_id = pong_id v, sig_input = Input_Pong (Pong_Returned
        \<lparr>msg = 5, sender = ping_id u, who_holds = Some Pong\<rparr>)\<rparr>] [] t usr) (deadlines u v x y, [])"
    if "l \<le> t0 + 2 * g + 5000000"
| resent: "ping_race m vs u v usr t0 g l (any_view m u v Menu_Ready Ping_Sending Pong_Responding []
      [to_ping u v (Some Pong) 5] t usr) (deadlines u v x y, [])"
    if "l \<le> t0 + 2 * g + 5000000"
| answered: "ping_race m vs u v usr t0 g l (any_view m u v Menu_Ready Ping_Sending Pong_Responding []
      [to_pong u v (Some Pong) 10] t usr) (deadlines u v (Some (d + 11000000)) y, [])"
    if "d \<le> t" and "l \<le> t0 + 2 * g + 5000000"
| waited: "ping_race m vs u v usr t0 g l (any_view m u v Menu_Ready Ping_Sending Pong_Responding [] [] t usr)
      (deadlines u v (Some (d + 11000000)) (Some (e + 11000000)),
       [(e + 15000000, pong_id v, \<lparr>msg = 15, sender = ping_id u, who_holds = Some Pong\<rparr>)])"
    if "d < e" and "e \<le> t" and "l \<le> t0 + 2 * g + 5000000 \<or> e \<le> t0 + 3 * g + 5000000 \<and> l \<le> d + 11000000"
| decided: "ping_race m vs u v usr t0 g l b T"
    if "lost m u v FailedPing b" and "timers_known u v T"

lemma ping_race_turn:
  assumes "ping_race m vs u v usr t0 g l b T" and sh: "shows_duel s b T"
    and step: "duel_step s (Manager_turn t') s'" and clock: "v_now b < t'" "t' + 20000000 < instant_limit"
    and ids: "m \<noteq> 0" "u \<noteq> 0" "v \<noteq> 0"
    and play: "u = vs 0" "v = vs 1" "usr = \<lparr>failures = Map.empty, v4s = vs, v4_next = 2\<rparr>"
  shows "\<exists>b' T'. shows_duel s' b' T' \<and> ping_race m vs u v usr t0 g l b' T'"
  using assms(1)
proof cases
  case (asked t)
  have "shows_duel s' (any_view m u v Menu_Ready Ping_Ready Pong_Ready []
      [\<lparr>sig_id = ping_id u, sig_input = Input_Ping (StartSending (pong_id v) (Some Pong))\<rparr>] t' usr) T"
    using asked_turn [OF step sh [unfolded asked(1)]] ids by (simp add: play)
  moreover have "ping_race m vs u v usr t0 g l (any_view m u v Menu_Ready Ping_Ready Pong_Ready []
      [\<lparr>sig_id = ping_id u, sig_input = Input_Ping (StartSending (pong_id v) (Some Pong))\<rparr>] t' usr) T"
    unfolding asked(2) using asked clock by (intro ping_race.started) (auto simp: asked_view_def)
  ultimately show ?thesis by blast
next
  case (started t)
  from turn_sends(2) [OF step ping_dispatch [OF ping_moves(2) ids(2)] sh [unfolded started(1)] refl]
    ping_race.served [of l t0 t'] started clock
  show ?thesis by fastforce
next
  case (served t)
  have "shows_duel s' (any_view m u v Menu_Ready Ping_Sending Pong_Responding [] [] t' usr)
      (deadlines u v None (Some (t' + 11000000)),
       [(t' + 5000000, pong_id v, \<lparr>msg = 5, sender = ping_id u, who_holds = Some Pong\<rparr>)])"
    using turn_sends(2) [OF step pong_dispatch [OF pong_moves(4) ids(3)] sh [unfolded served(1)] refl] clock served(2)
    by simp
  then show ?thesis using ping_race.held [of t0 t' t' l g] served clock by fastforce
next
  case (held a t)
  from turn_waits [OF step sh [unfolded held(1)]] held(2-) clock
  show ?thesis using ping_race.held [of t0 a t' l g] held(1) by fastforce
next
  case (returned t x y)
  have "shows_duel s' (any_view m u v Menu_Ready Ping_Sending Pong_Responding [] [to_ping u v (Some Pong) 5] t' usr)
      (deadlines u v x (Some (t' + 11000000)), [])"
    using turn_sends(1) [OF step pong_dispatch [OF pong_moves(2) ids(3)] sh [unfolded returned(1)]] clock returned(2)
    by simp
  then show ?thesis using ping_race.resent [of l t0 g] returned by blast
next
  case (resent t x y)
  have "shows_duel s' (any_view m u v Menu_Ready Ping_Sending Pong_Responding []
      [to_pong u v (Some Pong) 10] t' usr) (deadlines u v (Some (t' + 11000000)) y, [])"
    using turn_sends(2) [OF step ping_dispatch [OF ping_moves(4) ids(2)] sh [unfolded resent(1)] refl] clock resent(2)
    by simp
  then show ?thesis using ping_race.answered [of t' t' l t0 g] resent by blast
next
  case (answered d t y)
  have "shows_duel s' (any_view m u v Menu_Ready Ping_Sending Pong_Responding [] [] t' usr)
      (deadlines u v (Some (d + 11000000)) (Some (t' + 11000000)),
       [(t' + 15000000, pong_id v, \<lparr>msg = 15, sender = ping_id u, who_holds = Some Pong\<rparr>)])"
    using turn_sends(2) [OF step pong_dispatch [OF pong_moves(4) ids(3)] sh [unfolded answered(1)] refl] clock answered(2)
    by simp
  then show ?thesis using ping_race.waited [of d t' t' l t0 g] answered clock by fastforce
next
  case (waited d e t)
  from turn_waits [OF step sh [unfolded waited(1)]] waited(2-) clock
  show ?thesis using ping_race.waited [of d e t' l t0 g] waited(1) by fastforce
next
  case decided
  with lost_turn [OF step sh _ _ ids] clock show ?thesis by (fastforce intro: ping_race.decided)
qed

lemma ping_race_tick:
  assumes "ping_race m vs u v usr t0 g l b T" and sh: "shows_duel s b T"
    and step: "duel_step s (Ticked 0 it t') s'" and idle: "idle s" and gap: "t' \<le> l + g"
    and le: "v_now b \<le> t'" and g: "g \<le> 6000000"
  shows "\<exists>b' T'. shows_duel s' b' T' \<and> ping_race m vs u v usr t0 g t' b' T'"
proof -
  have front: "v_front b = []" "v_back b = []" using shows_duel_idle [OF sh idle] by simp_all
  from assms(1) show ?thesis
  proof cases
    case (held a t)
    have "t' \<le> a + 11000000" using held gap g by linarith
    with quiet_tick [OF step idle sh [unfolded held(1,2)]] have tick: "shows_duel s'
        (any_view m u v Menu_Ready Ping_Sending Pong_Responding (item_signals game_ingress (map snd (sort_key fst
          (filter (\<lambda>h. fst h < t') [(a + 5000000, pong_id v, \<lparr>msg = 5, sender = ping_id u, who_holds = Some Pong\<rparr>)])))) [] t' usr)
        (deadlines u v None (Some (a + 11000000)), filter (\<lambda>h. \<not> fst h < t')
          [(a + 5000000, pong_id v, \<lparr>msg = 5, sender = ping_id u, who_holds = Some Pong\<rparr>)])"
      by (simp add: deadlines_known)
    show ?thesis
    proof (cases "t' \<le> a + 5000000")
      case True
      with tick have "shows_duel s' (any_view m u v Menu_Ready Ping_Sending Pong_Responding [] [] t' usr) T"
        unfolding held(2) by simp
      moreover have "ping_race m vs u v usr t0 g t' (any_view m u v Menu_Ready Ping_Sending Pong_Responding [] [] t' usr) T"
        unfolding held(2) using held le gap True by (intro ping_race.held) auto
      ultimately show ?thesis by blast
    next
      case False
      with tick have "shows_duel s' (any_view m u v Menu_Ready Ping_Sending Pong_Responding
        [\<lparr>sig_id = pong_id v, sig_input = Input_Pong (Pong_Returned
          \<lparr>msg = 5, sender = ping_id u, who_holds = Some Pong\<rparr>)\<rparr>] [] t' usr)
        (deadlines u v None (Some (a + 11000000)), [])"
        by simp
      moreover have "t' \<le> t0 + 2 * g + 5000000" using held gap by auto
      ultimately show ?thesis by (blast intro: ping_race.returned)
    qed
  next
    case (waited d e t)
    note tick = quiet_tick [OF step idle sh [unfolded waited(1,2)]]
    note lose = lost_by_tick(1) [OF step idle sh [unfolded waited(1,2)]]
    show ?thesis
    proof (cases "d + 11000000 < t'")
      case True
      with lose [of "d + 11000000"] waited(3) have "\<exists>b' T'. shows_duel s' b' T' \<and> lost m u v FailedPing b' \<and> timers_known u v T'"
        by (simp add: deadlines_known)
      then show ?thesis by (blast intro: ping_race.decided)
    next
      case False
      with tick waited(3) have "shows_duel s' (any_view m u v Menu_Ready Ping_Sending Pong_Responding [] [] t' usr) T"
        unfolding waited(2) by (simp add: deadlines_known)
      moreover have "ping_race m vs u v usr t0 g t' (any_view m u v Menu_Ready Ping_Sending Pong_Responding [] [] t' usr) T"
        unfolding waited(2) using waited le gap False by (intro ping_race.waited) auto
      ultimately show ?thesis by blast
    qed
  next
    case decided
    from lost_tick [OF step sh this idle] show ?thesis by (blast intro: ping_race.decided)
  qed (use front in \<open>simp_all add: asked_view_def\<close>)
qed

interpretation ping_runs:
  race "\<lambda>l b T. m \<noteq> 0 \<and> vs 0 \<noteq> 0 \<and> vs 1 \<noteq> 0 \<and> g \<le> 6000000 \<and>
    ping_race m vs (vs 0) (vs 1) \<lparr>failures = Map.empty, v4s = vs, v4_next = 2\<rparr> t0 g l b T" g
  for m vs t0 g
proof
  fix l b T s t s' it
  let ?race = "ping_race m vs (vs 0) (vs 1) \<lparr>failures = Map.empty, v4s = vs, v4_next = 2\<rparr> t0 g"
  assume J: "m \<noteq> 0 \<and> vs 0 \<noteq> 0 \<and> vs 1 \<noteq> 0 \<and> g \<le> 6000000 \<and> ?race l b T" and sh: "shows_duel s b T"
  show "\<exists>b' T'. shows_duel s' b' T' \<and> m \<noteq> 0 \<and> vs 0 \<noteq> 0 \<and> vs 1 \<noteq> 0 \<and> g \<le> 6000000 \<and> ?race l b' T'"
    if "duel_step s (Manager_turn t) s'" and "v_now b < t" and "t + 20000000 < instant_limit"
    using ping_race_turn [OF _ sh that] J by blast
  show "\<exists>b' T'. shows_duel s' b' T' \<and> m \<noteq> 0 \<and> vs 0 \<noteq> 0 \<and> vs 1 \<noteq> 0 \<and> g \<le> 6000000 \<and> ?race t b' T'"
    if "duel_step s (Ticked 0 it t) s'" and "idle s" and "t \<le> l + g" and "v_now b \<le> t"
    using ping_race_tick [OF _ sh that] J by blast
qed

text \<open>After its time the race is decided.\<close>

lemma ping_race_decided:
  assumes "ping_race m vs u v usr t0 g l b T" and "shows_duel s b T" and "idle s"
    and "t0 + 3 * g + 16000000 < l"
  shows "lost m u v FailedPing b"
  using assms(1)
proof cases
  case (decided)
  then show ?thesis by simp
qed (use shows_duel_idle [OF assms(2,3)] assms(4) in \<open>auto simp: asked_view_def\<close>)

lemma ping_timeout_lost:
  assumes "build 0 duel_builder = Returned P"
    and "paced P g (spawned (game_start t0 vs \<lparr>kind = Menu, uuid = m\<rparr> (Some Pong))) es s l"
    and "m \<noteq> 0" and "vs 0 \<noteq> 0" and "vs 1 \<noteq> 0" and "now (sys_world s) + 20000000 < instant_limit"
    and "idle s" and "t0 + 3 * g + 16000000 < l" and "g \<le> 6000000"
  shows "\<exists>b T. shows_duel s b T \<and> lost m (vs 0) (vs 1) FailedPing b"
proof -
  let ?s0 = "spawned (game_start t0 vs (menu_id m) (Some Pong)) :: game_system"
  have "P = duel_program" using assms(1) duel_build by simp
  with assms(2) have run: "paced duel_program g ?s0 es s l" by simp
  have "now (sys_world ?s0) = t0" by (simp add: spawned_def game_start_def signal_to_def cmd_simps)
  with ping_runs.paced_keeps [OF run assms(6) asked_start] assms(3-5,9) obtain b T where
    sh: "shows_duel s b T"
    and race: "ping_race m vs (vs 0) (vs 1) \<lparr>failures = Map.empty, v4s = vs, v4_next = 2\<rparr> t0 g l b T"
    by (blast intro: ping_race.asked)
  from sh ping_race_decided [OF race sh assms(7,8)] show ?thesis by blast
qed

text \<open>
  C24. The test ping_timeout: as pong_timeout, with a packet that pong holds on to and ticks at
  most 6 ms apart. Once the last tick is more than 3 g + 16 ms after the start and the tasks
  have caught up, menu, ping and pong are all Failed and the failure on record for the menu is
  that of ping.
\<close>

theorem ping_timeout:
  assumes "ping_timeout_test t0 vs m = Returned (P, s0)" and "paced P g s0 es s l"
    and "m \<noteq> 0" and "vs 0 \<noteq> 0" and "vs 1 \<noteq> 0" and "now (sys_world s) + 20000000 < instant_limit"
    and "idle s" and "t0 + 3 * g + 16000000 < l" and "g \<le> 6000000"
  shows "ctx_get_state \<lparr>kind = Menu, uuid = m\<rparr> (sys_world s) = (Returned (Some (State_Menu Menu_Failed)), sys_world s) \<and>
    ctx_get_state \<lparr>kind = Ping, uuid = vs 0\<rparr> (sys_world s) = (Returned (Some (State_Ping Ping_Failed)), sys_world s) \<and>
    ctx_get_state \<lparr>kind = Pong, uuid = vs 1\<rparr> (sys_world s) = (Returned (Some (State_Pong Pong_Failed)), sys_world s) \<and>
    failures (user (sys_world s)) \<lparr>kind = Menu, uuid = m\<rparr> = Some FailedPing"
proof -
  have "build 0 duel_builder = Returned P"
    and "paced P g (spawned (game_start t0 vs \<lparr>kind = Menu, uuid = m\<rparr> (Some Pong))) es s l"
    using assms(1,2) by (simp_all add: timeout_tests duel_build)
  from ping_timeout_lost [OF this assms(3-)] obtain b T where
    "shows_duel s b T" "lost m (vs 0) (vs 1) FailedPing b" by blast
  from failed_game [OF this assms(7,3-5)] show ?thesis .
qed

end
