(* ===== verification/Rex_Schedules.thy ===== *)
theory Rex_Schedules
  imports Rex_Pong_Timeout Rex_Ping_Timeout
begin

text \<open>
  Schedules of the two tests: the tasks can always go on, so runs as the theorems ask for exist.
  One is made for each test.
\<close>

section \<open>Going on\<close>

text \<open>A schedule from \<open>s0\<close>, its last tick at \<open>l\<close>, can lead to what \<open>b\<close> and \<open>T\<close> show.\<close>

definition stands :: "nat \<Rightarrow> game_system \<Rightarrow> instant \<Rightarrow> game_view \<Rightarrow> (game, packet) timer_abs \<Rightarrow> bool" where
  "stands g s0 l b T \<longleftrightarrow> (\<exists>es s. paced duel_program g s0 es s l \<and> tasks_ok s \<and> shows_duel s b T)"

lemma duel_tasks_ok: "duel_step s e s' \<Longrightarrow> tasks_ok s \<Longrightarrow> tasks_ok s'"
  using step_tasks_ok [of duel_program game_ingress s e s'] game_pushes.pushing_machines_axioms by simp

lemma stands_start:
  "stands g (spawned (game_start t vs (menu_id m) who)) t (asked_view m vs who t) (deadlines u v None None, [])"
proof -
  let ?s = "spawned (game_start t vs (menu_id m) who) :: game_system"
  have "now (sys_world ?s) = t" and "tasks_ok ?s"
    by (simp_all add: spawned_def game_start_def signal_to_def cmd_simps tasks_ok_def parked_ok_unfold
        world_new_def deque_new_def push_back_def notify_rx_def)
  with paced.outset [of duel_program g ?s] show ?thesis
    unfolding stands_def using asked_start [of t vs m who u v] by metis
qed

lemma stands_turn:
  assumes "stands g s0 l b T" and "v_front b @ v_back b \<noteq> []" and "v_now b < t"
    and "\<And>s s'. duel_step s (Manager_turn t) s' \<Longrightarrow> shows_duel s b T \<Longrightarrow> shows_duel s' b' T'"
  shows "stands g s0 l b' T'"
proof -
  obtain es s where s: "paced duel_program g s0 es s l" "tasks_ok s" "shows_duel s b T"
    using assms(1) by (auto simp: stands_def)
  from s(3) have now: "now (sys_world s) < t" and "manager_task s \<noteq> Finished"
    and "queue_values (signal_queue (sys_world s)) \<noteq> []"
    using assms(2,3) by (auto elim!: shows_duelE simp: queue_values_def)
  with s(2) have run: "runnable manager_waker (signal_queue (sys_world s)) (manager_task s)"
    using parked_ok_quiet by (auto simp: tasks_ok_def)
  obtain st rx w where "manager_step (sys_machines duel_program) manager_waker (manager_rx s)
      ((sys_world s)\<lparr>now := t\<rparr>) = (st, rx, w)" by (metis prod_cases3)
  from sys_step.manager_turn [OF run _ this] now obtain s' where "duel_step s (Manager_turn t) s'" by fastforce
  with s now assms(4) duel_tasks_ok paced.turn show ?thesis unfolding stands_def by blast
qed

text \<open>The requests under way arrive.\<close>

lemma routing_can_finish:
  assumes "paced duel_program g s0 es s l" and "tasks_ok s" and "shows_duel s b T"
    and "v_front b = []" and "v_back b = []"
  shows "\<exists>es s'. paced duel_program g s0 es s' l \<and> tasks_ok s' \<and> shows_duel s' b T \<and> idle s'"
  using assms
proof (induction "routing_work game_ingress duel_program s" arbitrary: es s rule: less_induct)
  case less
  show ?case
  proof (cases "idle s")
    case True
    with less.prems show ?thesis by blast
  next
    case False
    have "queue_values (signal_queue (sys_world s)) = []"
      using less.prems(3-5) by (auto elim!: shows_duelE simp: queue_values_def)
    with False consider "queue_values (notification_queue (sys_world s)) \<noteq> []"
      | "chan_queue (sys_channels s) 0 \<noteq> []" by (auto simp: idle_def)
    then have "\<exists>e s'. routing_event e \<and> duel_step s e s'"
    proof cases
      case 1
      with less.prems(2) have "runnable nm_waker (notification_queue (sys_world s)) (nm_task s)"
        using parked_ok_quiet by (auto simp: tasks_ok_def)
      with nm_can_turn [of duel_program "[() \<mapsto> [0]]" s game_ingress] show ?thesis
        by (metis duel_program_sel(2) routing_event.simps(2))
    next
      case 2
      with can_receive [of duel_program 0 "Timeout_np duel_timers" s game_ingress] show ?thesis
        by (metis duel_program_sel(3) fun_upd_same routing_event.simps(3))
    qed
    then obtain e s' where e: "routing_event e" "duel_step s e s'" by blast
    from routing_step_decreases [OF e(2,1)] have "routing_work game_ingress duel_program s' < routing_work game_ingress duel_program s"
      by simp
    from less.hyps [OF this paced.route [OF less.prems(1) e(2,1)] duel_tasks_ok [OF e(2) less.prems(2)]
        shows_duel_routing [OF e(2,1) less.prems(3)] less.prems(4,5)] show ?thesis .
  qed
qed

lemma stands_idle:
  assumes "stands g s0 l b T" and "v_front b = []" and "v_back b = []"
  obtains es s where "paced duel_program g s0 es s l" and "tasks_ok s" and "shows_duel s b T" and "idle s"
    and "now (sys_world s) = v_now b"
proof -
  from assms(1) obtain es0 s1 where "paced duel_program g s0 es0 s1 l" "tasks_ok s1" "shows_duel s1 b T"
    by (auto simp: stands_def)
  from routing_can_finish [OF this assms(2,3)] obtain es s where
    "paced duel_program g s0 es s l" "tasks_ok s" "shows_duel s b T" "idle s" by blast
  moreover from this(3) have "now (sys_world s) = v_now b" by (auto elim: shows_duelE)
  ultimately show thesis using that by blast
qed

lemma stands_tick:
  assumes "stands g s0 l b T" and "v_front b = []" and "v_back b = []" and "v_now b \<le> t" and "t \<le> l + g"
    and "\<And>s s'. duel_step s (Ticked 0 sorted_list_of_set t) s' \<Longrightarrow> idle s \<Longrightarrow> shows_duel s b T \<Longrightarrow> shows_duel s' b' T'"
  shows "stands g s0 t b' T'"
proof -
  obtain es s where s: "paced duel_program g s0 es s l" "tasks_ok s" "shows_duel s b T" "idle s"
    and now: "now (sys_world s) = v_now b" using stands_idle [OF assms(1-3)] .
  obtain L q where "tick game_ingress sorted_list_of_set t (ledgers s 0, signal_queue (sys_world s)) = (L, q)"
    by fastforce
  from ticked [OF _ _ sorted_hash_order this, of duel_program duel_timers] now assms(4)
  obtain s' where "duel_step s (Ticked 0 sorted_list_of_set t) s'" by fastforce
  with s assms(5,6) duel_tasks_ok paced.tick show ?thesis unfolding stands_def by blast
qed

text \<open>The rules for the view of a game.\<close>

lemma stands_sends:
  assumes "sends (dispatch game_machines sig) (any_view m u v ms ps qs fs bs t' usr) ops
      (any_view m u v ms' ps' qs' fs' bs' t' usr')" and "t < t'"
  shows "stands g s0 l (any_view m u v ms ps qs (sig # fs) bs t usr) T \<Longrightarrow>
      stands g s0 l (any_view m u v ms' ps' qs' fs' bs' t' usr') (fold msg_abs ops T)"
    and "stands g s0 l (any_view m u v ms ps qs [] (sig # bs) t usr) T \<Longrightarrow> fs = [] \<Longrightarrow>
      stands g s0 l (any_view m u v ms' ps' qs' fs' bs' t' usr') (fold msg_abs ops T)"
proof -
  show "stands g s0 l (any_view m u v ms' ps' qs' fs' bs' t' usr') (fold msg_abs ops T)"
    if "stands g s0 l (any_view m u v ms ps qs (sig # fs) bs t usr) T"
    by (rule stands_turn [OF that, where t = t'])
      (simp, simp add: assms(2), rule turn_sends(1) [OF _ assms(1)])
  show "stands g s0 l (any_view m u v ms' ps' qs' fs' bs' t' usr') (fold msg_abs ops T)"
    if "stands g s0 l (any_view m u v ms ps qs [] (sig # bs) t usr) T" and "fs = []"
    by (rule stands_turn [OF that(1), where t = t'])
      (simp, simp add: assms(2), rule turn_sends(2) [OF _ assms(1) _ that(2)])
qed

lemma stands_quiet:
  assumes "stands g s0 l (any_view m u v ms ps qs [] [] t usr) (deadlines u v x y, H)"
    and "t \<le> t'" and "t' \<le> l + g" and "timers_known u v (deadlines u v x y, H)"
    and "\<And>d. x = Some d \<Longrightarrow> t' \<le> d" and "\<And>d. y = Some d \<Longrightarrow> t' \<le> d"
  shows "stands g s0 t' (any_view m u v ms ps qs
      (item_signals game_ingress (map snd (sort_key fst (filter (\<lambda>h. fst h < t') H)))) [] t' usr)
    (deadlines u v x y, filter (\<lambda>h. \<not> fst h < t') H)"
  by (rule stands_tick [OF assms(1)]) (use assms(2-) quiet_tick in \<open>auto\<close>)

lemma one_due_tick:
  assumes step: "duel_step s (Ticked c it t') s'" and idle: "idle s"
    and sh: "shows_duel s (any_view m u v ms ps qs [] [] t usr) (deadlines u v x y, H)"
    and known: "timers_known u v (deadlines u v x y, H)"
  shows "x = Some d \<Longrightarrow> d < t' \<Longrightarrow> (\<And>e. y = Some e \<Longrightarrow> t' \<le> e) \<Longrightarrow>
      shows_duel s' (any_view m u v ms ps qs (\<lparr>sig_id = ping_id u, sig_input = Input_Ping (Ping_RecvTimeout t')\<rparr> #
        item_signals game_ingress (map snd (sort_key fst (filter (\<lambda>h. fst h < t') H)))) [] t' usr)
      (deadlines u v None y, filter (\<lambda>h. \<not> fst h < t') H)"
    and "y = Some d \<Longrightarrow> d < t' \<Longrightarrow> (\<And>e. x = Some e \<Longrightarrow> t' \<le> e) \<Longrightarrow>
      shows_duel s' (any_view m u v ms ps qs (\<lparr>sig_id = pong_id v, sig_input = Input_Pong (Pong_RecvTimeout t')\<rparr> #
        item_signals game_ingress (map snd (sort_key fst (filter (\<lambda>h. fst h < t') H)))) [] t' usr)
      (deadlines u v x None, filter (\<lambda>h. \<not> fst h < t') H)"
proof -
  let ?D = "deadlines u v x y"
  obtain due fs' where due: "distinct due" "set due = {i. \<exists>a < t'. ?D i = Some a}"
    and fs': "fs' = timeout_signals game_ingress t' due @
        item_signals game_ingress (map snd (sort_key fst (filter (\<lambda>h. fst h < t') H)))"
    and s': "shows_duel s' (any_view m u v ms ps qs fs' [] t' usr) (timer_abs_step (Tick it t') (?D, H))"
    by (rule duel_tick [OF step sh idle known])
  show "shows_duel s' (any_view m u v ms ps qs (\<lparr>sig_id = ping_id u, sig_input = Input_Ping (Ping_RecvTimeout t')\<rparr> #
        item_signals game_ingress (map snd (sort_key fst (filter (\<lambda>h. fst h < t') H)))) [] t' usr)
      (deadlines u v None y, filter (\<lambda>h. \<not> fst h < t') H)"
    if "x = Some d" "d < t'" "\<And>e. y = Some e \<Longrightarrow> t' \<le> e"
  proof -
    have "set due = {ping_id u}" using due(2) that by (force simp: deadlines_due)
    with due(1) have "due = [ping_id u]" by (rule distinct_set_single)
    moreover have "?D |` {i. \<not> (\<exists>a < t'. ?D i = Some a)} = deadlines u v None y"
      using that by (force simp: restrict_map_def fun_eq_iff deadlines_def)
    ultimately show ?thesis using s' fs' by (simp add: timeout_signals_def map_filter_simps)
  qed
  show "shows_duel s' (any_view m u v ms ps qs (\<lparr>sig_id = pong_id v, sig_input = Input_Pong (Pong_RecvTimeout t')\<rparr> #
        item_signals game_ingress (map snd (sort_key fst (filter (\<lambda>h. fst h < t') H)))) [] t' usr)
      (deadlines u v x None, filter (\<lambda>h. \<not> fst h < t') H)"
    if "y = Some d" "d < t'" "\<And>e. x = Some e \<Longrightarrow> t' \<le> e"
  proof -
    have "set due = {pong_id v}" using due(2) that by (force simp: deadlines_due)
    with due(1) have "due = [pong_id v]" by (rule distinct_set_single)
    moreover have "?D |` {i. \<not> (\<exists>a < t'. ?D i = Some a)} = deadlines u v x None"
      using that by (force simp: restrict_map_def fun_eq_iff deadlines_def)
    ultimately show ?thesis using s' fs' by (simp add: timeout_signals_def map_filter_simps)
  qed
qed

lemma cancelled:
  assumes "set ops = {cancel_msg (menu_id m), cancel_msg (ping_id u), cancel_msg (pong_id v)}"
  shows "fold msg_abs ops (deadlines u v x y, H) = (deadlines u v None None, H)"
proof -
  have "\<exists>ops1 x1 y1. fold msg_abs ops (deadlines u v x y, H) = (deadlines u v x1 y1, H) \<and>
      (cancel_msg (ping_id u) \<in> set ops \<or> x = None \<longrightarrow> x1 = None) \<and>
      (cancel_msg (pong_id v) \<in> set ops \<or> y = None \<longrightarrow> y1 = None)"
    if "set ops \<subseteq> {cancel_msg (menu_id m), cancel_msg (ping_id u), cancel_msg (pong_id v)}" for ops
    using that
  proof (induction ops arbitrary: x y)
    case (Cons a ops)
    have "(deadlines u v x y)(menu_id m := None) = deadlines u v x y"
      "(deadlines u v x y)(ping_id u := None) = deadlines u v None y"
      "(deadlines u v x y)(pong_id v := None) = deadlines u v x None"
      by (auto simp: deadlines_def fun_eq_iff)
    note eqs = this
    from Cons.prems have ops: "set ops \<subseteq> {cancel_msg (menu_id m), cancel_msg (ping_id u), cancel_msg (pong_id v)}" by simp
    note IH = Cons.IH [OF ops]
    from Cons.prems consider "a = cancel_msg (menu_id m)" | "a = cancel_msg (ping_id u)" | "a = cancel_msg (pong_id v)"
      by auto
    then show ?case
    proof cases
      case 1
      with IH [of x y] eqs show ?thesis by simp
    next
      case 2
      with IH [of None y] eqs show ?thesis by auto
    next
      case 3
      with IH [of x None] eqs show ?thesis by auto
    qed
  qed (metis fold_simps(1) empty_iff empty_set)
  from this [of ops] assms show ?thesis by auto
qed

lemma stands_heard:
  assumes "stands g s0 l (any_view m u v Menu_Ready ps qs []
      (\<lparr>sig_id = menu_id m, sig_input = Input_Menu x\<rparr> # bs) t usr) (deadlines u v d e, H)"
    and "x = FailedPing \<or> x = FailedPong" and "t < t'"
  shows "stands g s0 l (any_view m u v Menu_Failed Ping_Failed Pong_Failed [] bs t'
      (usr\<lparr>failures := (failures usr)(menu_id m \<mapsto> x)\<rparr>)) (deadlines u v None None, H)"
proof (rule stands_turn [OF assms(1)])
  fix s s'
  assume "duel_step s (Manager_turn t') s'" and "shows_duel s (any_view m u v Menu_Ready ps qs []
      (\<lparr>sig_id = menu_id m, sig_input = Input_Menu x\<rparr> # bs) t usr) (deadlines u v d e, H)"
  from menu_hears [OF this assms(2)] obtain ops where
    "set ops = {cancel_msg (menu_id m), cancel_msg (ping_id u), cancel_msg (pong_id v)}"
    "shows_duel s' (any_view m u v Menu_Failed Ping_Failed Pong_Failed [] bs t'
      (usr\<lparr>failures := (failures usr)(menu_id m \<mapsto> x)\<rparr>)) (fold msg_abs ops (deadlines u v d e, H))" .
  then show "shows_duel s' (any_view m u v Menu_Failed Ping_Failed Pong_Failed [] bs t'
      (usr\<lparr>failures := (failures usr)(menu_id m \<mapsto> x)\<rparr>)) (deadlines u v None None, H)"
    using cancelled by simp
qed (use assms(3) in simp_all)

lemma stands_one_due:
  assumes "stands g s0 l (any_view m u v ms ps qs [] [] t usr) (deadlines u v x y, H)"
    and "t \<le> t'" and "t' \<le> l + g" and "timers_known u v (deadlines u v x y, H)"
  shows "x = Some d \<Longrightarrow> d < t' \<Longrightarrow> (\<And>e. y = Some e \<Longrightarrow> t' \<le> e) \<Longrightarrow>
      stands g s0 t' (any_view m u v ms ps qs (\<lparr>sig_id = ping_id u, sig_input = Input_Ping (Ping_RecvTimeout t')\<rparr> #
        item_signals game_ingress (map snd (sort_key fst (filter (\<lambda>h. fst h < t') H)))) [] t' usr)
      (deadlines u v None y, filter (\<lambda>h. \<not> fst h < t') H)"
    and "y = Some d \<Longrightarrow> d < t' \<Longrightarrow> (\<And>e. x = Some e \<Longrightarrow> t' \<le> e) \<Longrightarrow>
      stands g s0 t' (any_view m u v ms ps qs (\<lparr>sig_id = pong_id v, sig_input = Input_Pong (Pong_RecvTimeout t')\<rparr> #
        item_signals game_ingress (map snd (sort_key fst (filter (\<lambda>h. fst h < t') H)))) [] t' usr)
      (deadlines u v x None, filter (\<lambda>h. \<not> fst h < t') H)"
  by (rule stands_tick [OF assms(1)]; use assms(2,3) one_due_tick(1) [OF _ _ _ assms(4)] in simp)
    (rule stands_tick [OF assms(1)]; use assms(2,3) one_due_tick(2) [OF _ _ _ assms(4)] in simp)

section \<open>A run of each test\<close>

text \<open>With ids 7, 1 and 2; the clock starts at 0.\<close>

definition sample_v4s :: "nat \<Rightarrow> uuid" where
  "sample_v4s n = (if n = 0 then 1 else 2)"

definition sample_duel :: "who_holds \<Rightarrow> game_system" where
  "sample_duel who = spawned (game_start 0 sample_v4s \<lparr>kind = Menu, uuid = 7\<rparr> who)"

abbreviation sample_user :: game_user where
  "sample_user \<equiv> \<lparr>failures = Map.empty, v4s = sample_v4s, v4_next = 2\<rparr>"

text \<open>Up to ping's first packet.\<close>

lemma sample_served:
  "stands g (sample_duel who) 0 (any_view 7 1 2 Menu_Ready Ping_Sending Pong_Ready [] [to_pong 1 2 who 0] 2 sample_user)
    (deadlines 1 2 None None, [])"
proof -
  have "stands g (sample_duel who) 0 (asked_view 7 sample_v4s who 0) (deadlines 1 2 None None, [])"
    unfolding sample_duel_def by (rule stands_start)
  then have "stands g (sample_duel who) 0 (any_view 7 1 2 Menu_Ready Ping_Ready Pong_Ready []
      [\<lparr>sig_id = ping_id 1, sig_input = Input_Ping (StartSending (pong_id 2) who)\<rparr>] 1 sample_user)
      (deadlines 1 2 None None, [])"
    by (rule stands_turn [where t = 1])
      (use asked_turn [where vs = sample_v4s and m = 7] in \<open>auto simp: asked_view_def sample_v4s_def\<close>)
  from stands_sends(2) [OF ping_dispatch [OF ping_moves(2)] _ this refl, of 2] show ?thesis by simp
qed

text \<open>\<open>n\<close> quiet ticks once everything is over.\<close>

lemma stands_over:
  assumes "stands g s0 l (any_view m u v Menu_Failed Ping_Failed Pong_Failed [] [] t usr) (deadlines u v None None, [])"
    and "t \<le> l + g"
  shows "stands g s0 (l + n * g) (any_view m u v Menu_Failed Ping_Failed Pong_Failed [] []
    (if n = 0 then t else l + n * g) usr) (deadlines u v None None, [])"
proof (induction n)
  case (Suc n)
  have "stands g s0 (l + Suc n * g) (any_view m u v Menu_Failed Ping_Failed Pong_Failed
      (item_signals game_ingress (map snd (sort_key fst (filter (\<lambda>h. fst h < l + Suc n * g) [])))) []
      (l + Suc n * g) usr) (deadlines u v None None, filter (\<lambda>h. \<not> fst h < l + Suc n * g) [])"
    by (rule stands_quiet [OF Suc]) (use assms(2) in \<open>auto simp: deadlines_known\<close>)
  then show ?case by simp
qed (use assms(1) in simp)

lemma sample_pong_run:
  "stands 11000010 (sample_duel (Some Ping)) 55000044
    (any_view 7 1 2 Menu_Failed Ping_Failed Pong_Failed [] [] 55000044
      (sample_user\<lparr>failures := [menu_id 7 \<mapsto> FailedPong]\<rparr>)) (deadlines 1 2 None None, [])"
proof -
  let ?s = "stands 11000010 (sample_duel (Some Ping))"
  let ?V = "\<lambda>ps qs fs bs t. any_view 7 1 2 Menu_Ready ps qs fs bs t sample_user"
  let ?O = "\<lambda>bs t. any_view 7 1 2 Menu_Failed Ping_Failed Pong_Failed [] bs t
    (sample_user\<lparr>failures := [menu_id 7 \<mapsto> FailedPong]\<rparr>)"
  have "?s 0 (?V Ping_Sending Pong_Responding [] [to_ping 1 2 (Some Ping) 5] 3) (deadlines 1 2 None (Some 11000003), [])"
    using stands_sends(2) [OF pong_dispatch [OF pong_moves(3)] _ sample_served refl, of 3] 
    by (simp add: instant_limit_def nanos_per_sec_def)
  from stands_sends(2) [OF ping_dispatch [OF ping_moves(5)] _ this refl, of 4]
  have "?s 0 (?V Ping_Sending Pong_Responding [] [] 4) (deadlines 1 2 (Some 11000004) (Some 11000003),
      [(10000004, ping_id 1, \<lparr>msg = 10, sender = pong_id 2, who_holds = Some Ping\<rparr>)])"
    by (simp add: instant_limit_def nanos_per_sec_def)
  from stands_one_due(2) [OF this, of 11000004 11000003]
  have "?s 11000004 (?V Ping_Sending Pong_Responding
      [\<lparr>sig_id = pong_id 2, sig_input = Input_Pong (Pong_RecvTimeout 11000004)\<rparr>,
       \<lparr>sig_id = ping_id 1, sig_input = Input_Ping (Ping_Returned \<lparr>msg = 10, sender = pong_id 2, who_holds = Some Ping\<rparr>)\<rparr>]
      [] 11000004) (deadlines 1 2 (Some 11000004) None, [])"
    by (simp add: deadlines_known)
  from stands_sends(1) [OF pong_dispatch [OF pong_moves(1)] _ this, of 11000005]
  have "?s 11000004 (?V Ping_Sending Pong_Failed
      [\<lparr>sig_id = ping_id 1, sig_input = Input_Ping (Ping_Returned \<lparr>msg = 10, sender = pong_id 2, who_holds = Some Ping\<rparr>)\<rparr>]
      [\<lparr>sig_id = menu_id 7, sig_input = Input_Menu FailedPong\<rparr>] 11000005) (deadlines 1 2 (Some 11000004) None, [])"
    by simp
  from stands_sends(1) [OF ping_dispatch [OF ping_moves(3)] _ this, of 11000006]
  have "?s 11000004 (?V Ping_Sending Pong_Failed [] [\<lparr>sig_id = menu_id 7, sig_input = Input_Menu FailedPong\<rparr>,
      to_pong 1 2 (Some Ping) 10] 11000006) (deadlines 1 2 (Some 22000006) None, [])"
    by (simp add: instant_limit_def nanos_per_sec_def)
  from stands_heard [OF this, of 11000007]
  have "?s 11000004 (?O [to_pong 1 2 (Some Ping) 10] 11000007) (deadlines 1 2 None None, [])" by simp
  from stands_sends(2) [OF ignored_dispatch(2) _ this refl, of 11000008]
  have "?s 11000004 (?O [] 11000008) (deadlines 1 2 None None, [])" by simp
  from stands_over [OF this, of 4] show ?thesis by simp
qed

theorem pong_timeout_witness:
  "\<exists>es s. paced duel_program 11000010 (sample_duel (Some Ping)) es s 55000044 \<and> idle s \<and>
    ctx_get_state \<lparr>kind = Menu, uuid = 7\<rparr> (sys_world s) = (Returned (Some (State_Menu Menu_Failed)), sys_world s) \<and>
    failures (user (sys_world s)) \<lparr>kind = Menu, uuid = 7\<rparr> = Some FailedPong"
proof -
  obtain es s where s: "paced duel_program 11000010 (sample_duel (Some Ping)) es s 55000044" "idle s"
    "now (sys_world s) = 55000044"
    by (rule stands_idle [OF sample_pong_run]) auto
  from pong_timeout [OF timeout_tests(1) s(1) [unfolded sample_duel_def]] s show ?thesis
    by (auto simp: sample_v4s_def instant_limit_def nanos_per_sec_def)
qed

lemma sample_ping_run:
  "stands 6000000 (sample_duel (Some Pong)) 41000003
    (any_view 7 1 2 Menu_Failed Ping_Failed Pong_Failed [] [] 41000003
      (sample_user\<lparr>failures := [menu_id 7 \<mapsto> FailedPing]\<rparr>)) (deadlines 1 2 None None, [])"
proof -
  let ?s = "stands 6000000 (sample_duel (Some Pong))"
  let ?V = "\<lambda>ps qs fs bs t. any_view 7 1 2 Menu_Ready ps qs fs bs t sample_user"
  let ?O = "\<lambda>fs bs t. any_view 7 1 2 Menu_Failed Ping_Failed Pong_Failed fs bs t
    (sample_user\<lparr>failures := [menu_id 7 \<mapsto> FailedPing]\<rparr>)"
  let ?h = "\<lambda>t x. (t, pong_id 2, \<lparr>msg = x, sender = ping_id 1, who_holds = Some Pong\<rparr>)"
  have "?s 0 (?V Ping_Sending Pong_Responding [] [] 3) (deadlines 1 2 None (Some 11000003), [?h 5000003 5])"
    using stands_sends(2) [OF pong_dispatch [OF pong_moves(4)] _ sample_served refl, of 3]
    by (simp add: instant_limit_def nanos_per_sec_def)
  from stands_quiet [OF this, of 6000000]
  have "?s 6000000 (?V Ping_Sending Pong_Responding
      [\<lparr>sig_id = pong_id 2, sig_input = Input_Pong (Pong_Returned \<lparr>msg = 5, sender = ping_id 1, who_holds = Some Pong\<rparr>)\<rparr>]
      [] 6000000) (deadlines 1 2 None (Some 11000003), [])"
    by (simp add: deadlines_known)
  from stands_sends(1) [OF pong_dispatch [OF pong_moves(2)] _ this, of 6000001]
  have "?s 6000000 (?V Ping_Sending Pong_Responding [] [to_ping 1 2 (Some Pong) 5] 6000001)
      (deadlines 1 2 None (Some 17000001), [])"
    by (simp add: instant_limit_def nanos_per_sec_def)
  from stands_sends(2) [OF ping_dispatch [OF ping_moves(4)] _ this refl, of 6000002]
  have "?s 6000000 (?V Ping_Sending Pong_Responding [] [to_pong 1 2 (Some Pong) 10] 6000002)
      (deadlines 1 2 (Some 17000002) (Some 17000001), [])"
    by (simp add: instant_limit_def nanos_per_sec_def)
  from stands_sends(2) [OF pong_dispatch [OF pong_moves(4)] _ this refl, of 6000003]
  have "?s 6000000 (?V Ping_Sending Pong_Responding [] [] 6000003)
      (deadlines 1 2 (Some 17000002) (Some 17000003), [?h 21000003 15])"
    by (simp add: instant_limit_def nanos_per_sec_def)
  from stands_quiet [OF this, of 12000000]
  have "?s 12000000 (?V Ping_Sending Pong_Responding [] [] 12000000)
      (deadlines 1 2 (Some 17000002) (Some 17000003), [?h 21000003 15])"
    by (simp add: deadlines_known)
  from stands_one_due(1) [OF this, of 17000003 17000002]
  have "?s 17000003 (?V Ping_Sending Pong_Responding
      [\<lparr>sig_id = ping_id 1, sig_input = Input_Ping (Ping_RecvTimeout 17000003)\<rparr>] [] 17000003)
      (deadlines 1 2 None (Some 17000003), [?h 21000003 15])"
    by (simp add: deadlines_known)
  from stands_sends(1) [OF ping_dispatch [OF ping_moves(1)] _ this, of 17000004]
  have "?s 17000003 (?V Ping_Failed Pong_Responding [] [\<lparr>sig_id = menu_id 7, sig_input = Input_Menu FailedPing\<rparr>] 17000004)
      (deadlines 1 2 None (Some 17000003), [?h 21000003 15])"
    by simp
  from stands_heard [OF this, of 17000005]
  have "?s 17000003 (?O [] [] 17000005) (deadlines 1 2 None None, [?h 21000003 15])" by simp
  from stands_quiet [OF this, of 23000003]
  have "?s 23000003 (?O
      [\<lparr>sig_id = pong_id 2, sig_input = Input_Pong (Pong_Returned \<lparr>msg = 15, sender = ping_id 1, who_holds = Some Pong\<rparr>)\<rparr>]
      [] 23000003) (deadlines 1 2 None None, [])"
    by (simp add: deadlines_known)
  from stands_sends(1) [OF ignored_dispatch(2) _ this, of 23000004]
  have "?s 23000003 (?O [] [] 23000004) (deadlines 1 2 None None, [])" by simp
  from stands_over [OF this, of 3] show ?thesis by simp
qed

theorem ping_timeout_witness:
  "\<exists>es s. paced duel_program 6000000 (sample_duel (Some Pong)) es s 41000003 \<and> idle s \<and>
    ctx_get_state \<lparr>kind = Menu, uuid = 7\<rparr> (sys_world s) = (Returned (Some (State_Menu Menu_Failed)), sys_world s) \<and>
    failures (user (sys_world s)) \<lparr>kind = Menu, uuid = 7\<rparr> = Some FailedPing"
proof -
  obtain es s where s: "paced duel_program 6000000 (sample_duel (Some Pong)) es s 41000003" "idle s"
    "now (sys_world s) = 41000003"
    by (rule stands_idle [OF sample_ping_run]) auto
  from ping_timeout [OF timeout_tests(2) s(1) [unfolded sample_duel_def]] s show ?thesis
    by (auto simp: sample_v4s_def instant_limit_def nanos_per_sec_def)
qed

end
