(* ===== verification/Rex_Crowd.thy ===== *)
theory Rex_Crowd
  imports Rex_Queue
begin

text \<open>
  Several tasks that read one \<open>StreamableDeque\<close>, each through a receiver of its own: the waiting
  list and the wake-ups of \<open>src/queue.rs\<close> when tasks come, poll, and go. A task is named by its
  waker.
\<close>

section \<open>Tasks on one queue\<close>

text \<open>\<open>marks\<close>: how many wake-ups had been made when the task last polled.\<close>

record 'a crowd =
  crowd_queue :: "'a deque"
  members :: "waker \<rightharpoonup> stream_receiver"
  marks :: "waker \<Rightarrow> nat"

datatype 'a crowd_event = Crowd_push "'a push" | Joins waker | Polls waker | Leaves waker

definition crowd_new :: "'a crowd" where
  "crowd_new = \<lparr>crowd_queue = deque_new, members = Map.empty, marks = (\<lambda>_. 0)\<rparr>"

primrec crowd_step :: "'a crowd_event \<Rightarrow> 'a crowd \<Rightarrow> 'a crowd" where
  "crowd_step (Crowd_push p) s = s\<lparr>crowd_queue := run_push p (crowd_queue s)\<rparr>"
| "crowd_step (Joins w) s = (case members s w of
     None \<Rightarrow> s\<lparr>members := (members s)(w \<mapsto> stream)\<rparr>
   | Some rx \<Rightarrow> s)"
| "crowd_step (Polls w) s = (case members s w of
     None \<Rightarrow> s
   | Some rx \<Rightarrow> (case poll_next w rx (crowd_queue s) of
       (r, rx', q) \<Rightarrow> s\<lparr>crowd_queue := q, members := (members s)(w \<mapsto> rx'),
         marks := (marks s)(w := length (wakes q))\<rparr>))"
| "crowd_step (Leaves w) s = (case members s w of
     None \<Rightarrow> s
   | Some rx \<Rightarrow> s\<lparr>crowd_queue := drop_receiver rx (crowd_queue s), members := (members s)(w := None)\<rparr>)"

text \<open>
  A task waits when its last poll was pending. Then the flag of its receiver is up (the task is
  notified) or not (it still expects a notification); and its waker has been called since, or
  the task sleeps.
\<close>

definition waits_on :: "'a crowd \<Rightarrow> waker \<Rightarrow> flag_ref option" where
  "waits_on s w = Option.bind (members s w) rx_awake"

definition notified :: "'a crowd \<Rightarrow> waker \<Rightarrow> bool" where
  "notified s w \<longleftrightarrow> (case waits_on s w of None \<Rightarrow> False | Some a \<Rightarrow> flags (crowd_queue s) ! a)"

definition expecting :: "'a crowd \<Rightarrow> waker \<Rightarrow> bool" where
  "expecting s w \<longleftrightarrow> (case waits_on s w of None \<Rightarrow> False | Some a \<Rightarrow> \<not> flags (crowd_queue s) ! a)"

definition called :: "'a crowd \<Rightarrow> waker \<Rightarrow> bool" where
  "called s w \<longleftrightarrow> waits_on s w \<noteq> None \<and> w \<in> set (drop (marks s w) (wakes (crowd_queue s)))"

definition asleep :: "'a crowd \<Rightarrow> waker \<Rightarrow> bool" where
  "asleep s w \<longleftrightarrow> waits_on s w \<noteq> None \<and> \<not> called s w"

text \<open>How often a task polls, or drops its receiver, while it still expects a notification.\<close>

primrec careless :: "'a crowd_event \<Rightarrow> 'a crowd \<Rightarrow> bool" where
  "careless (Crowd_push p) s = False"
| "careless (Joins w) s = False"
| "careless (Polls w) s = expecting s w"
| "careless (Leaves w) s = expecting s w"

primrec careless_steps :: "'a crowd_event list \<Rightarrow> 'a crowd \<Rightarrow> nat" where
  "careless_steps [] s = 0"
| "careless_steps (e # es) s = (if careless e s then 1 else 0) + careless_steps es (crowd_step e s)"

section \<open>The waiting list\<close>

text \<open>A notifier is live while the receiver it was made for still waits on its flag.\<close>

definition live :: "'a crowd \<Rightarrow> receiver_notifier \<Rightarrow> bool" where
  "live s n \<longleftrightarrow> waits_on s (handle n) = Some (awake n)"

definition stale :: "'a crowd \<Rightarrow> nat" where
  "stale s = length (filter (\<lambda>n. \<not> live s n) (rx_notifiers (crowd_queue s)))"

text \<open>
  No flag belongs to two receivers or to two notifiers, a notifier's flag is down, every task
  that expects a notification has its notifier, and a notified task was called.
\<close>

definition list_ok :: "'a crowd \<Rightarrow> bool" where
  "list_ok s \<longleftrightarrow> finite (dom (members s)) \<and> (\<forall>w. marks s w \<le> length (wakes (crowd_queue s))) \<and>
     (\<forall>v w a. waits_on s w = Some a \<longrightarrow> waits_on s v = Some a \<longrightarrow> v = w) \<and>
     (\<forall>w a. waits_on s w = Some a \<longrightarrow> a < length (flags (crowd_queue s))) \<and>
     distinct (map awake (rx_notifiers (crowd_queue s))) \<and>
     (\<forall>n \<in> set (rx_notifiers (crowd_queue s)). awake n < length (flags (crowd_queue s)) \<and>
        \<not> flags (crowd_queue s) ! awake n \<and> (\<forall>v. waits_on s v = Some (awake n) \<longrightarrow> v = handle n)) \<and>
     (\<forall>w a. waits_on s w = Some a \<longrightarrow> \<not> flags (crowd_queue s) ! a \<longrightarrow> a \<in> awake ` set (rx_notifiers (crowd_queue s))) \<and>
     (\<forall>w. notified s w \<longrightarrow> called s w)"

text \<open>Each of \<open>k\<close> careless steps may have left one notifier that is not live.\<close>

definition crowd_inv :: "nat \<Rightarrow> 'a crowd \<Rightarrow> bool" where
  "crowd_inv k s \<longleftrightarrow> list_ok s \<and> stale s \<le> k \<and>
     (\<forall>w. expecting s w \<longrightarrow> length (queue_values (crowd_queue s)) + stale s \<le> card {v. notified s v} + k)"

lemma crowd_invI:
  assumes "list_ok s" and "stale s \<le> k"
    and "\<And>w. expecting s w \<Longrightarrow> length (queue_values (crowd_queue s)) + stale s \<le> card {v. notified s v} + k"
  shows "crowd_inv k s"
  unfolding crowd_inv_def using assms by blast

lemma crowd_invD:
  assumes "crowd_inv k s"
  shows "list_ok s" and "stale s \<le> k"
    and "expecting s w \<Longrightarrow> length (queue_values (crowd_queue s)) + stale s \<le> card {v. notified s v} + k"
  using assms unfolding crowd_inv_def by blast+

lemma list_okD:
  assumes "list_ok s"
  shows "finite (dom (members s))" and "marks s w \<le> length (wakes (crowd_queue s))"
    and "waits_on s w = Some a \<Longrightarrow> waits_on s v = Some a \<Longrightarrow> v = w"
    and "waits_on s w = Some a \<Longrightarrow> a < length (flags (crowd_queue s))"
    and "distinct (map awake (rx_notifiers (crowd_queue s)))"
    and "n \<in> set (rx_notifiers (crowd_queue s)) \<Longrightarrow> awake n < length (flags (crowd_queue s)) \<and> \<not> flags (crowd_queue s) ! awake n"
    and "n \<in> set (rx_notifiers (crowd_queue s)) \<Longrightarrow> waits_on s v = Some (awake n) \<Longrightarrow> v = handle n"
    and "waits_on s w = Some a \<Longrightarrow> \<not> flags (crowd_queue s) ! a \<Longrightarrow> a \<in> awake ` set (rx_notifiers (crowd_queue s))"
    and "notified s w \<Longrightarrow> called s w"
  using assms by (auto simp: list_ok_def)

lemma list_okI:
  assumes "finite (dom (members s))" and "\<And>w. marks s w \<le> length (wakes (crowd_queue s))"
    and "\<And>v w a. waits_on s w = Some a \<Longrightarrow> waits_on s v = Some a \<Longrightarrow> v = w"
    and "\<And>w a. waits_on s w = Some a \<Longrightarrow> a < length (flags (crowd_queue s))"
    and "distinct (map awake (rx_notifiers (crowd_queue s)))"
    and "\<And>n. n \<in> set (rx_notifiers (crowd_queue s)) \<Longrightarrow> awake n < length (flags (crowd_queue s)) \<and> \<not> flags (crowd_queue s) ! awake n"
    and "\<And>n v. n \<in> set (rx_notifiers (crowd_queue s)) \<Longrightarrow> waits_on s v = Some (awake n) \<Longrightarrow> v = handle n"
    and "\<And>w a. waits_on s w = Some a \<Longrightarrow> \<not> flags (crowd_queue s) ! a \<Longrightarrow> a \<in> awake ` set (rx_notifiers (crowd_queue s))"
    and "\<And>w. notified s w \<Longrightarrow> called s w"
  shows "list_ok s"
  unfolding list_ok_def using assms by blast

lemma expecting_iff: "expecting s w \<longleftrightarrow> (\<exists>a. waits_on s w = Some a \<and> \<not> flags (crowd_queue s) ! a)"
  by (simp add: expecting_def split: option.split)

lemma notified_iff: "notified s w \<longleftrightarrow> (\<exists>a. waits_on s w = Some a \<and> flags (crowd_queue s) ! a)"
  by (simp add: notified_def split: option.split)

lemma finite_notified: "list_ok s \<Longrightarrow> finite {w. notified s w}"
  by (rule finite_subset [of _ "dom (members s)"])
    (auto simp: list_okD(1) notified_iff waits_on_def bind_eq_Some_conv)

lemma waits_on_queue [simp]: "waits_on (s\<lparr>crowd_queue := q\<rparr>) = waits_on s"
  by (simp add: waits_on_def fun_eq_iff)

lemma live_queue [simp]: "live (s\<lparr>crowd_queue := q\<rparr>) = live s"
  by (simp add: live_def fun_eq_iff)

lemma notify_none: "rx_notifiers q = [] \<Longrightarrow> notify_rx q = q"
  by (simp add: notify_rx_def)

lemma nobody_expects: "list_ok s \<Longrightarrow> rx_notifiers (crowd_queue s) = [] \<Longrightarrow> \<not> expecting s w"
  using list_okD(8) [of s w] by (auto simp: expecting_iff)

text \<open>The first notifier is taken: its flag goes up and its waker is called.\<close>

lemma notify_some:
  assumes ok: "list_ok s" and N: "rx_notifiers (crowd_queue s) = n # ns"
  defines "s' \<equiv> s\<lparr>crowd_queue := notify_rx (crowd_queue s)\<rparr>"
  shows "list_ok s'" and "expecting s' v \<Longrightarrow> expecting s v"
    and "live s n \<Longrightarrow> {v. notified s' v} = insert (handle n) {v. notified s v} \<and> \<not> notified s (handle n) \<and> stale s' = stale s"
    and "\<not> live s n \<Longrightarrow> {v. notified s' v} = {v. notified s v} \<and> stale s = Suc (stale s')"
proof -
  let ?q = "crowd_queue s"
  note D = list_okD [OF ok]
  have q': "rx_notifiers (crowd_queue s') = ns" "wakes (crowd_queue s') = wakes ?q @ [handle n]"
    "flags (crowd_queue s') = (flags ?q)[awake n := True]"
    using N by (simp_all add: s'_def notify_rx_def)
  have wo: "waits_on s' = waits_on s" "marks s' = marks s" "members s' = members s" "live s' = live s"
    by (simp_all add: s'_def)
  have n: "awake n < length (flags ?q)" "\<not> flags ?q ! awake n" "awake n \<notin> awake ` set ns" "distinct (map awake ns)"
    using D(5,6) N by auto
  have up: "flags (crowd_queue s') ! a = (a = awake n \<or> flags ?q ! a)" for a
    using n(1) by (cases "a = awake n") (simp_all add: q')
  have mine: "v = handle n" if "waits_on s v = Some (awake n)" for v
    using D(7) [of n v] that N by simp
  have not: "notified s' v \<longleftrightarrow> notified s v \<or> v = handle n \<and> live s n" for v
    using mine by (auto simp: notified_iff wo up live_def)
  show "expecting s' v \<Longrightarrow> expecting s v" by (auto simp: expecting_iff wo up)
  show "list_ok s'"
  proof (rule list_okI)
    show "marks s' v \<le> length (wakes (crowd_queue s'))" for v using D(2) by (simp add: q' wo le_SucI)
    show "awake m < length (flags (crowd_queue s')) \<and> \<not> flags (crowd_queue s') ! awake m"
      if "m \<in> set (rx_notifiers (crowd_queue s'))" for m
    proof -
      have "m \<in> set ns" using that by (simp add: q')
      then have "awake m \<noteq> awake n" "m \<in> set (rx_notifiers ?q)" using n(3) N by (metis imageI, simp)
      with D(6) show ?thesis unfolding up by (simp add: q')
    qed
    show "a \<in> awake ` set (rx_notifiers (crowd_queue s'))"
      if "waits_on s' v = Some a" "\<not> flags (crowd_queue s') ! a" for v a
      using that D(8) [of v a] N unfolding up by (auto simp: wo q')
    show "called s' v" if "notified s' v" for v
    proof -
      have "waits_on s v \<noteq> None" using that by (auto simp: notified_iff wo)
      moreover have "called s v \<or> v = handle n" using that D(9) not by auto
      ultimately show ?thesis using D(2) [of v] by (auto simp: called_def wo q')
    qed
  qed (use D(1,3,4,7) N n(4) in \<open>auto simp: wo q'\<close>)
  show "{v. notified s' v} = insert (handle n) {v. notified s v} \<and> \<not> notified s (handle n) \<and> stale s' = stale s"
    if "live s n"
  proof -
    have "\<not> notified s (handle n)" using that n(2) by (auto simp: notified_iff live_def)
    with that not show ?thesis by (auto simp: stale_def wo q' N)
  qed
  show "{v. notified s' v} = {v. notified s v} \<and> stale s = Suc (stale s')" if "\<not> live s n"
    using that not by (simp add: stale_def wo q' N)
qed

lemma crowd_notify:
  assumes ok: "list_ok s" and "stale s \<le> k"
    and room: "\<And>w. expecting s w \<Longrightarrow> length (queue_values (crowd_queue s)) + stale s \<le> Suc (card {v. notified s v} + k)"
  shows "crowd_inv k (s\<lparr>crowd_queue := notify_rx (crowd_queue s)\<rparr>)"
proof (cases "rx_notifiers (crowd_queue s)")
  case Nil
  with assms show ?thesis by (simp add: crowd_inv_def notify_none nobody_expects)
next
  case (Cons n ns)
  note S = notify_some [OF ok Cons]
  let ?s = "s\<lparr>crowd_queue := notify_rx (crowd_queue s)\<rparr>"
  have vals: "queue_values (notify_rx (crowd_queue s)) = queue_values (crowd_queue s)"
    by (simp add: queue_values_def)
  have room': "length (queue_values (crowd_queue s)) + stale s \<le> Suc (card {v. notified s v} + k)"
    if "expecting ?s w" for w using room [OF S(2) [OF that]] .
  show ?thesis
  proof (cases "live s n")
    case True
    have "card {v. notified ?s v} = Suc (card {v. notified s v})" "stale ?s = stale s"
      using S(3) [OF True] finite_notified [OF ok] by simp_all
    then show ?thesis using S(1) assms(2) room' by (simp add: crowd_inv_def vals)
  next
    case False
    have "{v. notified ?s v} = {v. notified s v}" "stale s = Suc (stale ?s)"
      using S(4) [OF False] by simp_all
    then show ?thesis using S(1) assms(2) room' by (simp add: crowd_inv_def vals)
  qed
qed

text \<open>Values come and go without touching the tasks.\<close>

lemma list_ok_values:
  assumes "rx_notifiers q = rx_notifiers (crowd_queue s)" and "flags q = flags (crowd_queue s)"
    and "wakes q = wakes (crowd_queue s)"
  shows "list_ok (s\<lparr>crowd_queue := q\<rparr>) = list_ok s" and "notified (s\<lparr>crowd_queue := q\<rparr>) = notified s"
    and "expecting (s\<lparr>crowd_queue := q\<rparr>) = expecting s" and "stale (s\<lparr>crowd_queue := q\<rparr>) = stale s"
proof -
  show n: "notified (s\<lparr>crowd_queue := q\<rparr>) = notified s" and "expecting (s\<lparr>crowd_queue := q\<rparr>) = expecting s"
    by (simp_all add: notified_iff expecting_iff fun_eq_iff assms)
  show "stale (s\<lparr>crowd_queue := q\<rparr>) = stale s" by (simp add: stale_def assms)
  have "called (s\<lparr>crowd_queue := q\<rparr>) = called s" by (simp add: called_def fun_eq_iff assms)
  then show "list_ok (s\<lparr>crowd_queue := q\<rparr>) = list_ok s" by (simp add: list_ok_def n assms)
qed

lemma crowd_push_inv:
  assumes "crowd_inv k s"
  shows "crowd_inv k (crowd_step (Crowd_push p) s)"
proof -
  define q where "q = (case p of Push_front x \<Rightarrow> (crowd_queue s)\<lparr>front_values := front_values (crowd_queue s) @ [x]\<rparr>
    | Push_back x \<Rightarrow> (crowd_queue s)\<lparr>back_values := back_values (crowd_queue s) @ [x]\<rparr>)"
  have q: "rx_notifiers q = rx_notifiers (crowd_queue s)" "flags q = flags (crowd_queue s)"
    "wakes q = wakes (crowd_queue s)" "length (queue_values q) = Suc (length (queue_values (crowd_queue s)))"
    by (simp_all add: q_def queue_values_def split: push.split)
  have p: "run_push p (crowd_queue s) = notify_rx q"
    by (cases p) (simp_all add: q_def push_front_def push_back_def)
  note same = list_ok_values [OF q(1-3)]
  have "crowd_inv k ((s\<lparr>crowd_queue := q\<rparr>)\<lparr>crowd_queue := notify_rx (crowd_queue (s\<lparr>crowd_queue := q\<rparr>))\<rparr>)"
    by (rule crowd_notify) (use assms in \<open>auto simp: same q(4) crowd_inv_def\<close>)
  then show ?thesis by (simp add: p)
qed

subsection \<open>A task stops waiting\<close>

lemma waits_on_members [simp]:
  "waits_on (s\<lparr>members := (members s)(w := m)\<rparr>) = (waits_on s)(w := Option.bind m rx_awake)"
  "waits_on (s\<lparr>members := (members s)(w := m), marks := f\<rparr>) = (waits_on s)(w := Option.bind m rx_awake)"
  by (auto simp: waits_on_def fun_eq_iff)

lemma length_filter_split:
  "length (filter (\<lambda>x. \<not> (P x \<and> \<not> Q x)) xs) = length (filter (\<lambda>x. \<not> P x) xs) + length (filter (\<lambda>x. P x \<and> Q x) xs)"
  by (induction xs) auto

lemma length_filter_key:
  "distinct (map f xs) \<Longrightarrow> length (filter (\<lambda>x. f x = a) xs) = (if a \<in> f ` set xs then 1 else 0)"
  by (induction xs) (auto simp: filter_empty_conv)

text \<open>The notifier of a task that expected a notification is stale from then on.\<close>

lemma forget:
  fixes w :: waker
  assumes ok: "list_ok s" and m: "Option.bind m rx_awake = None" and k: "k \<le> length (wakes (crowd_queue s))"
  defines "s' \<equiv> s\<lparr>members := (members s)(w := m), marks := (marks s)(w := k)\<rparr>"
  shows "list_ok s'" and "{v. notified s' v} = {v. notified s v} - {w}"
    and "expecting s' v \<longleftrightarrow> v \<noteq> w \<and> expecting s v"
    and "stale s' = stale s + (if expecting s w then 1 else 0)"
proof -
  let ?ns = "rx_notifiers (crowd_queue s)"
  note D = list_okD [OF ok]
  have q: "crowd_queue s' = crowd_queue s" by (simp add: s'_def)
  have wo: "waits_on s' = (waits_on s)(w := None)" by (simp add: s'_def m)
  show n: "{v. notified s' v} = {v. notified s v} - {w}" by (auto simp: notified_iff wo q)
  show "expecting s' v \<longleftrightarrow> v \<noteq> w \<and> expecting s v" by (auto simp: expecting_iff wo q)
  have c: "called s' v \<longleftrightarrow> called s v \<and> v \<noteq> w" for v
    by (simp add: called_def wo q) (simp add: s'_def)
  show "list_ok s'"
  proof (rule list_okI)
    show "finite (dom (members s'))" using D(1) by (simp add: s'_def)
    show "marks s' v \<le> length (wakes (crowd_queue s'))" for v using D(2) k by (simp add: s'_def)
    show "called s' v" if "notified s' v" for v
    proof -
      have "v \<in> {v. notified s v} - {w}" using that n by blast
      then show ?thesis using D(9) c by simp
    qed
  qed (use D(3-8) in \<open>auto simp: q wo split: if_splits\<close>)
  have l: "live s' x \<longleftrightarrow> live s x \<and> handle x \<noteq> w" for x by (simp add: live_def wo)
  have "length (filter (\<lambda>x. live s x \<and> handle x = w) ?ns) = (if expecting s w then 1 else 0)"
  proof (cases "waits_on s w")
    case None
    then have "\<not> (live s x \<and> handle x = w)" for x by (auto simp: live_def)
    with None show ?thesis by (simp add: expecting_iff)
  next
    case (Some a)
    have "live s x \<and> handle x = w \<longleftrightarrow> awake x = a" if "x \<in> set ?ns" for x
      using Some D(7) [OF that, of w] by (auto simp: live_def)
    then have "filter (\<lambda>x. live s x \<and> handle x = w) ?ns = filter (\<lambda>x. awake x = a) ?ns"
      by (rule filter_cong [OF refl])
    moreover have "a \<in> awake ` set ?ns \<longleftrightarrow> expecting s w"
      using Some D(6) D(8) [OF Some] by (auto simp: expecting_iff)
    ultimately show ?thesis by (simp add: length_filter_key [OF D(5)])
  qed
  then show "stale s' = stale s + (if expecting s w then 1 else 0)"
    using length_filter_split [of "live s" "\<lambda>x. handle x = w" ?ns] by (simp add: stale_def q l)
qed

lemma card_forget: "list_ok s \<Longrightarrow> card {v. notified s v} = card ({v. notified s v} - {w}) + (if notified s w then 1 else 0)"
  using finite_notified [of s] card_Suc_Diff1 [of "{v. notified s v}" w] by auto

lemma not_both: "\<not> (expecting s w \<and> notified s w)"
  by (auto simp: expecting_iff notified_iff)

lemma crowd_join_inv:
  assumes "crowd_inv k s"
  shows "crowd_inv k (crowd_step (Joins w) s)"
proof (cases "members s w")
  case None
  then have w: "\<not> expecting s w" "\<not> notified s w" by (simp_all add: expecting_def notified_def waits_on_def)
  have "list_ok s" using assms by (simp add: crowd_inv_def)
  from forget [OF this, of "Some stream" "marks s w" w] w None assms list_okD(2) [OF this, of w]
  show ?thesis by (auto simp: crowd_inv_def stream_def)
next
  case (Some rx)
  with assms show ?thesis by simp
qed

lemma crowd_leave_inv:
  assumes "crowd_inv k s"
  shows "crowd_inv (if careless (Leaves w) s then Suc k else k) (crowd_step (Leaves w) s)"
proof (cases "members s w")
  case None
  then have "\<not> expecting s w" by (simp add: expecting_def waits_on_def)
  with None assms show ?thesis by simp
next
  case (Some rx)
  have ok: "list_ok s" using assms by (simp add: crowd_inv_def)
  let ?s = "s\<lparr>members := (members s)(w := None)\<rparr>"
  note F = forget [OF ok, of None "marks s w" w, simplified, OF list_okD(2) [OF ok]]
  note C = card_forget [OF ok, of w]
  show ?thesis
  proof (cases "notified s w")
    case True
    with Some have flag: "map_option (\<lambda>a. flags (crowd_queue s) ! a) (rx_awake rx) = Some True"
      by (auto simp: notified_iff waits_on_def)
    have no: "\<not> expecting s w" using True not_both by blast
    have card: "card {v. notified s v} = Suc (card {v. notified ?s v})" using C unfolding F(2) if_P [OF True] by linarith
    have "crowd_inv k (?s\<lparr>crowd_queue := notify_rx (crowd_queue ?s)\<rparr>)"
    proof (rule crowd_notify [OF F(1)])
      show "stale ?s \<le> k" using F(4) no crowd_invD(2) [OF assms] by simp
      show "length (queue_values (crowd_queue ?s)) + stale ?s \<le> Suc (card {v. notified ?s v} + k)"
        if "expecting ?s v" for v
        using crowd_invD(3) [OF assms, of v] that F(3,4) card no by simp
    qed
    moreover have "crowd_step (Leaves w) s = ?s\<lparr>crowd_queue := notify_rx (crowd_queue ?s)\<rparr>"
      using Some flag by (simp add: drop_receiver_def)
    ultimately show ?thesis using no by simp
  next
    case False
    with Some have "map_option (\<lambda>a. flags (crowd_queue s) ! a) (rx_awake rx) \<noteq> Some True"
      by (auto simp: notified_iff waits_on_def)
    then have "drop_receiver rx (crowd_queue s) = crowd_queue s" unfolding drop_receiver_def by (rule if_not_P)
    with Some have step: "crowd_step (Leaves w) s = ?s" by simp
    have card: "card {v. notified ?s v} = card {v. notified s v}" unfolding F(2) using C False by simp
    show ?thesis unfolding step careless.simps
    proof (rule crowd_invI [OF F(1)])
      show "stale ?s \<le> (if expecting s w then Suc k else k)" using F(4) crowd_invD(2) [OF assms] by simp
      show "length (queue_values (crowd_queue ?s)) + stale ?s \<le> card {v. notified ?s v} + (if expecting s w then Suc k else k)"
        if "expecting ?s v" for v
        using crowd_invD(3) [OF assms, of v] that F(3,4) card by simp
    qed
  qed
qed

subsection \<open>A task starts to wait\<close>

lemma settle:
  fixes w :: waker and rx :: stream_receiver
  assumes ok: "list_ok s" and "waits_on s w = None"
  defines "q \<equiv> crowd_queue s" and "a \<equiv> length (flags (crowd_queue s))"
  defines "s' \<equiv> s\<lparr>crowd_queue := q\<lparr>flags := flags q @ [False], rx_notifiers := rx_notifiers q @ [\<lparr>handle = w, awake = a\<rparr>]\<rparr>,
    members := (members s)(w \<mapsto> rx\<lparr>rx_awake := Some a\<rparr>), marks := (marks s)(w := length (wakes q))\<rparr>"
  shows "list_ok s'" and "notified s' v \<longleftrightarrow> notified s v" and "stale s' = stale s"
proof -
  note D = list_okD [OF ok]
  have wo: "waits_on s' v = (if v = w then Some a else waits_on s v)" for v by (simp add: s'_def waits_on_def)
  have Q: "flags (crowd_queue s') = flags q @ [False]" "wakes (crowd_queue s') = wakes q"
    "rx_notifiers (crowd_queue s') = rx_notifiers q @ [\<lparr>handle = w, awake = a\<rparr>]" by (simp_all add: s'_def)
  have old: "b < a" if "waits_on s v = Some b" for v b using D(4) [OF that] by (simp add: a_def)
  have n: "n \<in> set (rx_notifiers q) \<Longrightarrow> awake n < a" for n using D(6) [of n] by (simp add: a_def q_def)
  have up: "flags (crowd_queue s') ! b \<longleftrightarrow> b < a \<and> flags q ! b" if "b \<le> a" for b
    using that by (simp add: Q a_def q_def nth_append)
  show not: "notified s' v \<longleftrightarrow> notified s v" for v
    using old [of v] assms(2) by (auto simp: notified_iff wo up less_imp_le q_def)
  have "live s' n \<longleftrightarrow> live s n" if "n \<in> set (rx_notifiers q)" for n
    using n [OF that] assms(2) by (auto simp: live_def wo)
  then have "filter (\<lambda>n. \<not> live s' n) (rx_notifiers q) = filter (\<lambda>n. \<not> live s n) (rx_notifiers q)"
    by (intro filter_cong) simp_all
  then show "stale s' = stale s" by (simp add: stale_def Q q_def) (simp add: live_def wo)
  show "list_ok s'"
  proof (rule list_okI)
    show "finite (dom (members s'))" using D(1) by (simp add: s'_def)
    show "marks s' v \<le> length (wakes (crowd_queue s'))" for v using D(2) by (simp add: s'_def q_def)
    show "u = v" if "waits_on s' v = Some b" "waits_on s' u = Some b" for u v b
      using that D(3) [of v b u] old [of v b] old [of u b] unfolding wo by (auto split: if_splits)
    show "b < length (flags (crowd_queue s'))" if "waits_on s' v = Some b" for v b
      using that D(4) [of v b] unfolding wo by (auto simp: Q q_def a_def split: if_splits)
    show "distinct (map awake (rx_notifiers (crowd_queue s')))"
      using D(5) n by (fastforce simp: Q q_def)
    show "awake m < length (flags (crowd_queue s')) \<and> \<not> flags (crowd_queue s') ! awake m"
      if "m \<in> set (rx_notifiers (crowd_queue s'))" for m
      using that D(6) [of m] by (auto simp: Q q_def a_def nth_append)
    show "v = handle m" if "m \<in> set (rx_notifiers (crowd_queue s'))" "waits_on s' v = Some (awake m)" for m v
    proof -
      have "m \<in> set (rx_notifiers q) \<or> m = \<lparr>handle = w, awake = a\<rparr>" using that(1) unfolding Q by auto
      then show ?thesis
      proof
        assume "m \<in> set (rx_notifiers q)"
        with that(2) n show ?thesis using D(7) unfolding wo by (auto simp: q_def split: if_splits)
      next
        assume "m = \<lparr>handle = w, awake = a\<rparr>"
        then show ?thesis using that(2) old [of v a] unfolding wo by (simp split: if_splits)
      qed
    qed
    show "b \<in> awake ` set (rx_notifiers (crowd_queue s'))"
      if "waits_on s' v = Some b" "\<not> flags (crowd_queue s') ! b" for v b
      using that D(8) [of v b] old [of v b] unfolding wo
      by (auto simp: nth_append Q q_def a_def split: if_splits)
    show "called s' v" if "notified s' v" for v
    proof -
      have "notified s v" using that not by simp
      with assms(2) have "called s v" "v \<noteq> w" using D(9) by (auto simp: notified_iff)
      then show ?thesis by (simp add: called_def wo Q) (simp add: s'_def q_def)
    qed
  qed
qed

lemma crowd_poll_inv:
  assumes "crowd_inv k s"
  shows "crowd_inv (if careless (Polls w) s then Suc k else k) (crowd_step (Polls w) s)"
proof (cases "members s w")
  case None
  then have "\<not> expecting s w" by (simp add: expecting_def waits_on_def)
  with None assms show ?thesis by simp
next
  case (Some rx)
  have ok: "list_ok s" using assms by (simp add: crowd_inv_def)
  let ?q = "crowd_queue s" and ?rx = "rx\<lparr>rx_awake := None\<rparr>"
  let ?s = "s\<lparr>members := (members s)(w \<mapsto> ?rx), marks := (marks s)(w := length (wakes ?q))\<rparr>"
  note F = forget [OF ok, of "Some ?rx" "length (wakes ?q)" w, simplified]
  note C = card_forget [OF ok, of w]
  show ?thesis
  proof (cases rule: poll_next_cases [where q = ?q and w = w and rx = rx])
    case (popped v q')
    note P = poll_next_Ready [OF popped(2)]
    have step: "crowd_step (Polls w) s = ?s\<lparr>crowd_queue := q'\<rparr>" using Some popped P(5) by simp
    have same: "rx_notifiers q' = rx_notifiers (crowd_queue ?s)" "flags q' = flags (crowd_queue ?s)"
      "wakes q' = wakes (crowd_queue ?s)" using P(3-5) by simp_all
    have card: "card {v. notified s v} \<le> Suc (card {v. notified ?s v})"
      "expecting s w \<Longrightarrow> card {v. notified s v} = card {v. notified ?s v}"
      unfolding F(2) using C not_both [of s w] by simp_all
    show ?thesis unfolding step careless.simps
    proof (rule crowd_invI)
      show "list_ok (?s\<lparr>crowd_queue := q'\<rparr>)" using F(1) by (simp add: list_ok_values [OF same])
      show "stale (?s\<lparr>crowd_queue := q'\<rparr>) \<le> (if expecting s w then Suc k else k)"
        using F(4) crowd_invD(2) [OF assms] by (simp add: list_ok_values [OF same])
      show "length (queue_values (crowd_queue (?s\<lparr>crowd_queue := q'\<rparr>))) + stale (?s\<lparr>crowd_queue := q'\<rparr>) \<le>
          card {v. notified (?s\<lparr>crowd_queue := q'\<rparr>) v} + (if expecting s w then Suc k else k)"
        if "expecting (?s\<lparr>crowd_queue := q'\<rparr>) v" for v
        using crowd_invD(3) [OF assms, of v] that F(3,4) card P(1)
        unfolding list_ok_values [OF same] by (cases "expecting s w") simp_all
    qed
  next
    case empty
    let ?a = "length (flags ?q)"
    have "waits_on ?s w = None" by simp
    from settle [OF F(1) this, of rx] have S:
      "list_ok (crowd_step (Polls w) s)" "\<And>v. notified (crowd_step (Polls w) s) v \<longleftrightarrow> notified ?s v"
      "stale (crowd_step (Polls w) s) = stale ?s"
      using Some empty(2) by simp_all
    have "queue_values (crowd_queue (crowd_step (Polls w) s)) = []"
      using Some empty by (simp add: queue_values_def)
    then show ?thesis using S F(4) assms by (simp add: crowd_inv_def)
  qed
qed

text \<open>With the number of careless steps beside the crowd, the invariant is one of every step.\<close>

definition counted_step :: "'a crowd_event \<Rightarrow> nat \<times> 'a crowd \<Rightarrow> nat \<times> 'a crowd" where
  "counted_step e = (\<lambda>(k, s). (if careless e s then Suc k else k, crowd_step e s))"

interpretation crowd: invariant_ops counted_step "\<lambda>_. True" "\<lambda>(k, s). crowd_inv k s"
proof
  fix e and s :: "nat \<times> 'a crowd"
  assume ok: "case s of (k, s) \<Rightarrow> crowd_inv k s"
  obtain k c where s: "s = (k, c)" by (cases s)
  with ok have "crowd_inv (if careless e c then Suc k else k) (crowd_step e c)"
    using crowd_push_inv [of k c] crowd_join_inv [of k c] crowd_poll_inv [of k c] crowd_leave_inv [of k c]
    by (cases e) (simp_all del: crowd_step.simps)
  then show "case counted_step e s of (k, s) \<Rightarrow> crowd_inv k s" by (simp add: s counted_step_def)
qed

lemma counted_run:
  "run_ops counted_step es (k, s) = (k + careless_steps es s, run_ops crowd_step es s)"
  by (induction es arbitrary: k s) (simp_all add: counted_step_def)

lemma crowd_new_inv: "crowd_inv 0 crowd_new"
  by (simp add: crowd_inv_def list_ok_def crowd_new_def deque_new_def expecting_def notified_def waits_on_def stale_def)

lemma crowd_run: "crowd_inv (careless_steps es crowd_new) (run_ops crowd_step es crowd_new)"
  using crowd.run_inv [of "(0, crowd_new)" es] crowd_new_inv by (simp add: counted_run)

section \<open>Properties\<close>

text \<open>
  C9. Any number of tasks read one queue and come, poll and go in any way. As long as some task
  waits and the flag of its receiver is down, the values in the queue are at most as many as the
  waiting tasks whose flag is up, all of which have been called, plus one for each time that a
  task polled or dropped its receiver while it waited with the flag down. So when every task
  waits for its notification, no value waits for a task that nobody has woken, also when tasks
  that were called leave without polling; and each poll or drop in one's sleep costs at most one
  wake-up (C39 and C40 show that it can cost one).
\<close>

theorem crowd_is_served:
  assumes "s = run_ops crowd_step es crowd_new" and "expecting s w"
  shows "length (queue_values (crowd_queue s)) \<le> card {v. notified s v} + careless_steps es crowd_new \<and>
    (\<forall>v. notified s v \<longrightarrow> called s v)"
  using crowd_invD(3) [OF crowd_run, of es w] list_okD(9) [OF crowd_invD(1) [OF crowd_run, of es]] assms by auto

theorem crowd_is_served_witness:
  "\<exists>s es. es = [Joins 7, Joins 8, Joins 9, Polls 7, Polls 8, Polls 9, Leaves 7,
      Crowd_push (Push_back (3 :: nat)), Crowd_push (Push_back 4)] \<and> s = run_ops crowd_step es crowd_new \<and>
    expecting s 9 \<and> length (queue_values (crowd_queue s)) = 2 \<and> careless_steps es crowd_new = 1 \<and>
    2 \<le> card {v. notified s v} + 1"
proof -
  obtain es where es: "es = [Joins 7, Joins 8, Joins 9, Polls 7, Polls 8, Polls 9, Leaves 7,
      Crowd_push (Push_back (3 :: nat)), Crowd_push (Push_back 4)]" by simp
  obtain s where s: "s = run_ops crowd_step es crowd_new" by simp
  note defs = es crowd_new_def deque_new_def stream_def poll_next_def pop_front_def Let_def push_back_def
    notify_rx_def drop_receiver_def expecting_def waits_on_def queue_values_def
  have 9: "expecting s 9" and 2: "length (queue_values (crowd_queue s)) = 2"
    by (simp_all add: s defs)
  have 1: "careless_steps es crowd_new = 1" by (simp add: defs)
  have "2 \<le> card {v. notified s v} + 1" using crowd_is_served [OF s 9] 1 2 by simp
  then show ?thesis using s 9 2 1 es by blast
qed

subsection \<open>Polling in one's sleep\<close>

lemma sleeping_polls:
  assumes "queue_values (crowd_queue s) = []" and "members s w = Some rx"
  shows "\<exists>rx' k. run_ops crowd_step (replicate n (Polls w)) s =
    s\<lparr>crowd_queue := (crowd_queue s)\<lparr>flags := flags (crowd_queue s) @ replicate n False,
        rx_notifiers := rx_notifiers (crowd_queue s) @
          map (\<lambda>j. \<lparr>handle = w, awake = length (flags (crowd_queue s)) + j\<rparr>) [0..<n]\<rparr>,
      members := (members s)(w \<mapsto> rx'), marks := (marks s)(w := k)\<rparr> \<and>
    (n \<noteq> 0 \<longrightarrow> rx_awake rx' \<noteq> None \<and> k = length (wakes (crowd_queue s)))"
proof (induction n)
  case 0
  obtain q M K where s: "s = \<lparr>crowd_queue = q, members = M, marks = K\<rparr>" by (cases s)
  have "M(w \<mapsto> rx) = M" using assms(2) s by auto
  then show ?case by (intro exI [of _ rx] exI [of _ "K w"]) (simp add: s)
next
  case (Suc n)
  let ?q = "(crowd_queue s)\<lparr>flags := flags (crowd_queue s) @ replicate n False,
        rx_notifiers := rx_notifiers (crowd_queue s) @
          map (\<lambda>j. \<lparr>handle = w, awake = length (flags (crowd_queue s)) + j\<rparr>) [0..<n]\<rparr>"
  from Suc obtain rx' k where run: "run_ops crowd_step (replicate n (Polls w)) s =
      s\<lparr>crowd_queue := ?q, members := (members s)(w \<mapsto> rx'), marks := (marks s)(w := k)\<rparr>" by blast
  have "pop_front ?q = (None, ?q)" using assms(1) by (simp add: pop_front_None queue_values_def)
  moreover have "run_ops crowd_step (replicate (Suc n) (Polls w)) s =
      crowd_step (Polls w) (run_ops crowd_step (replicate n (Polls w)) s)"
    by (simp only: replicate_Suc replicate_append_same [symmetric] run_ops_append run_ops.simps)
  moreover obtain q M K where "s = \<lparr>crowd_queue = q, members = M, marks = K\<rparr>" by (cases s)
  ultimately show ?case using run
    by (intro exI [of _ "rx'\<lparr>rx_awake := Some (length (flags (crowd_queue s)) + n)\<rparr>"]
          exI [of _ "length (wakes (crowd_queue s))"])
      (simp add: poll_next_def Let_def replicate_append_same [symmetric] fun_eq_iff)
qed

lemma crowd_pushes:
  "run_ops crowd_step (map Crowd_push ps) s = s\<lparr>crowd_queue := run_ops run_push ps (crowd_queue s)\<rparr>"
  by (induction ps arbitrary: s) simp_all

lemma run_pushes_wake:
  "wakes (run_ops run_push ps q) = wakes q @ map handle (take (length ps) (rx_notifiers q))"
  "rx_notifiers (run_ops run_push ps q) = drop (length ps) (rx_notifiers q)"
proof (induction ps arbitrary: q)
  case (Cons p ps)
  { case 1 show ?case
      using Cons(1) [of "run_push p q"] by (cases "rx_notifiers q") (simp_all add: run_push_queue) }
  { case 2 show ?case
      using Cons(2) [of "run_push p q"] by (cases "rx_notifiers q") (simp_all add: run_push_queue) }
qed simp_all

text \<open>
  C39. Every poll of a task that waits leaves another notifier behind, and each of them takes a
  wake-up. Say one task polls an empty queue 1 + n times and then another task polls once. The
  next value wakes the first task, which takes it and waits no more; yet the wake-ups of the n
  values after that go to it as well, and the other task sleeps on in front of them.
\<close>

theorem repolled_receiver_swallows_wakeups:
  assumes "wa \<noteq> wb" and "length xs \<le> n"
    and "s = run_ops crowd_step ([Joins wa, Joins wb] @ replicate (Suc n) (Polls wa) @
      [Polls wb, Crowd_push (Push_back x), Polls wa] @ map Crowd_push (map Push_back xs)) crowd_new"
  shows "queue_values (crowd_queue s) = xs \<and> asleep s wb \<and> waits_on s wa = None \<and>
    wakes (crowd_queue s) = replicate (Suc (length xs)) wa"
proof -
  let ?s0 = "\<lparr>crowd_queue = deque_new, members = [wa \<mapsto> stream, wb \<mapsto> stream], marks = \<lambda>_. 0\<rparr> :: 'a crowd"
  let ?N = "map (\<lambda>j. \<lparr>handle = wa, awake = j\<rparr>) [0..<Suc n]"
  let ?q = "deque_new\<lparr>flags := replicate (Suc n) False, rx_notifiers := ?N\<rparr> :: 'a deque"
  have "queue_values (crowd_queue ?s0) = []" "members ?s0 wa = Some stream"
    using assms(1) by (simp_all add: queue_values_def)
  from sleeping_polls [OF this, of "Suc n"] obtain rx k where
    "run_ops crowd_step (replicate (Suc n) (Polls wa)) ?s0 = ?s0\<lparr>crowd_queue :=
        (crowd_queue ?s0)\<lparr>flags := flags (crowd_queue ?s0) @ replicate (Suc n) False,
          rx_notifiers := rx_notifiers (crowd_queue ?s0) @
            map (\<lambda>j. \<lparr>handle = wa, awake = length (flags (crowd_queue ?s0)) + j\<rparr>) [0..<Suc n]\<rparr>,
        members := (members ?s0)(wa \<mapsto> rx), marks := (marks ?s0)(wa := k)\<rparr>"
    and "k = length (wakes (crowd_queue ?s0))" by blast
  moreover have "[wa \<mapsto> stream, wb \<mapsto> stream](wa \<mapsto> rx) = [wa \<mapsto> rx, wb \<mapsto> stream]" "(\<lambda>_. 0)(wa := 0) = (\<lambda>_. 0)"
    using assms(1) by auto
  ultimately have polls: "run_ops crowd_step (replicate (Suc n) (Polls wa)) ?s0 =
      ?s0\<lparr>crowd_queue := ?q, members := [wa \<mapsto> rx, wb \<mapsto> stream]\<rparr>"
    by (simp add: deque_new_def del: upt_Suc replicate_Suc)
  obtain M where M: "?N = \<lparr>handle = wa, awake = 0\<rparr> # M" "map handle M = replicate n wa"
    by (simp add: upt_conv_Cons map_replicate_const comp_def del: upt_Suc)
  let ?b = "\<lparr>handle = wb, awake = Suc n\<rparr>"
  let ?q1 = "\<lparr>front_values = [], back_values = [], rx_notifiers = \<lparr>handle = wa, awake = 0\<rparr> # M @ [?b],
    flags = replicate (Suc n) False @ [False], wakes = []\<rparr> :: 'a deque"
  let ?q2 = "\<lparr>front_values = [], back_values = [], rx_notifiers = M @ [?b],
    flags = (flags ?q1)[0 := True], wakes = [wa]\<rparr> :: 'a deque"
  let ?m1 = "[wa \<mapsto> rx, wb \<mapsto> stream\<lparr>rx_awake := Some (Suc n)\<rparr>]"
  let ?m2 = "[wa \<mapsto> rx\<lparr>rx_awake := None\<rparr>, wb \<mapsto> stream\<lparr>rx_awake := Some (Suc n)\<rparr>]"
  have "crowd_step (Polls wb) (?s0\<lparr>crowd_queue := ?q, members := [wa \<mapsto> rx, wb \<mapsto> stream]\<rparr>) =
      \<lparr>crowd_queue = ?q1, members = ?m1, marks = (\<lambda>_. 0)\<rparr>"
    by (simp add: M poll_next_def pop_front_def deque_new_def Let_def fun_upd_idem del: upt_Suc replicate_Suc)
  moreover have "crowd_step (Polls wa) (crowd_step (Crowd_push (Push_back x))
      \<lparr>crowd_queue = ?q1, members = ?m1, marks = (\<lambda>_. 0)\<rparr>) =
      \<lparr>crowd_queue = ?q2, members = ?m2, marks = (\<lambda>_. 0)(wa := 1)\<rparr>"
    using assms(1)
    by (simp add: poll_next_def pop_front_def push_back_def notify_rx_def fun_upd_twist del: replicate_Suc)
  moreover have "run_ops crowd_step [Joins wa, Joins wb] crowd_new = ?s0"
    by (simp add: crowd_new_def)
  ultimately have s: "s = \<lparr>crowd_queue = run_ops run_push (map Push_back xs) ?q2, members = ?m2, marks = (\<lambda>_. 0)(wa := 1)\<rparr>"
    unfolding assms(3) run_ops_append crowd_pushes by (simp add: polls del: crowd_step.simps replicate_Suc)
  have "length M = n" using arg_cong [OF M(2), of length] by simp
  then have "map handle (take (length xs) (rx_notifiers ?q2)) = replicate (length xs) wa"
    using assms(2) by (simp add: take_map [symmetric] M(2))
  then have "wakes (crowd_queue s) = replicate (Suc (length xs)) wa"
    unfolding s using run_pushes_wake(1) [of "map Push_back xs" ?q2] by simp
  moreover have "queue_values (crowd_queue s) = xs"
    unfolding s by (simp add: queue_values_def run_push_lanes filter_map comp_def)
  moreover have "waits_on s wa = None" "waits_on s wb = Some (Suc n)" "marks s wb = 0"
    unfolding s using assms(1) by (simp_all add: waits_on_def)
  ultimately show ?thesis using assms(1) by (auto simp: asleep_def called_def)
qed

theorem repolled_receiver_swallows_wakeups_witness:
  "\<exists>s. s = run_ops crowd_step ([Joins 7, Joins 8] @ replicate (Suc 2) (Polls 7) @
      [Polls 8, Crowd_push (Push_back (1 :: nat)), Polls 7] @ map Crowd_push (map Push_back [2, 3])) crowd_new \<and>
    queue_values (crowd_queue s) = [2, 3] \<and> asleep s 8"
  using repolled_receiver_swallows_wakeups [of 7 8 "[2, 3 :: nat]" 2 _ 1, OF _ _ refl]
  by (simp del: run_ops.simps replicate_Suc)

subsection \<open>Leaving in one's sleep\<close>

lemma leaving_asleep:
  assumes "\<forall>w \<in> set ws. expecting s w" and "distinct ws"
  shows "run_ops crowd_step (map Leaves ws) s = s\<lparr>members := (members s) |` (- set ws)\<rparr>"
  using assms
proof (induction ws arbitrary: s)
  case (Cons w ws)
  let ?s = "s\<lparr>members := (members s)(w := None)\<rparr>"
  from Cons.prems(1) obtain rx a where rx: "members s w = Some rx" "rx_awake rx = Some a" "\<not> flags (crowd_queue s) ! a"
    by (auto simp: expecting_iff waits_on_def bind_eq_Some_conv)
  then have "crowd_step (Leaves w) s = ?s" by (simp add: drop_receiver_def)
  moreover have "\<forall>v \<in> set ws. expecting ?s v" using Cons.prems by (auto simp: expecting_iff)
  then have "run_ops crowd_step (map Leaves ws) ?s = ?s\<lparr>members := (members ?s) |` (- set ws)\<rparr>"
    using Cons.prems(2) by (intro Cons.IH) simp_all
  moreover have "((members s)(w := None)) |` (- set ws) = (members s) |` (- set (w # ws))"
    by (auto simp: restrict_map_def)
  ultimately show ?case by (simp del: crowd_step.simps)
next
  case Nil
  show ?case by (cases s) (simp add: restrict_map_def)
qed

lemma run_pushes_length: "length (queue_values (run_ops run_push ps q)) = length (queue_values q) + length ps"
  using sum_length_filter_compl [of is_front ps] by (simp add: queue_values_def run_push_lanes comp_def)

text \<open>
  C40. Say the first receivers in the waiting list belong to tasks that sleep, and that all but
  the last of them are dropped. In any state that the tasks of one queue can reach, whatever
  they did before, as many pushes as receivers were dropped then wake the dropped ones' tasks
  and nobody else: the last one sleeps on although the queue has that many more values, and it
  takes one more push to call it.
\<close>

theorem dropped_receivers_swallow_wakeups:
  assumes "s = run_ops crowd_step es crowd_new" and "rx_notifiers (crowd_queue s) = ns @ n # ms"
    and "\<forall>k \<in> set (ns @ [n]). waits_on s (handle k) = Some (awake k) \<and> asleep s (handle k)"
    and "length ps = length ns" and "s' = run_ops crowd_step (map Leaves (map handle ns) @ map Crowd_push ps) s"
  shows "(\<forall>k \<in> set ns. members s' (handle k) = None) \<and>
    wakes (crowd_queue s') = wakes (crowd_queue s) @ map handle ns \<and>
    length (queue_values (crowd_queue s')) = length (queue_values (crowd_queue s)) + length ns \<and>
    asleep s' (handle n) \<and> called (crowd_step (Crowd_push p) s') (handle n)"
proof -
  let ?q = "crowd_queue s"
  have ok: "list_ok s" using crowd_invD(1) [OF crowd_run] assms(1) by blast
  note D = list_okD [OF ok]
  have up: "\<not> flags ?q ! awake k" if "k \<in> set (ns @ [n])" for k using D(6) [of k] that assms(2) by auto
  have "distinct (map awake (ns @ [n]))" using D(5) assms(2) by simp
  moreover have "awake k = awake l" if "k \<in> set (ns @ [n])" "l \<in> set (ns @ [n])" "handle k = handle l" for k l
    using assms(3) that by (metis option.inject)
  ultimately have d: "distinct (map handle (ns @ [n]))"
    unfolding distinct_map by (meson inj_on_def)
  have "\<forall>w \<in> set (map handle ns). expecting s w"
    using assms(3) up by (auto simp: expecting_iff)
  from leaving_asleep [OF this] d have
    s': "s' = s\<lparr>members := (members s) |` (- handle ` set ns), crowd_queue := run_ops run_push ps ?q\<rparr>"
    unfolding assms(5) run_ops_append crowd_pushes by simp
  have w: "wakes (crowd_queue s') = wakes ?q @ map handle ns" "rx_notifiers (crowd_queue s') = n # ms"
    using run_pushes_wake [of ps ?q] by (simp_all add: s' assms(2,4))
  have n: "handle n \<notin> handle ` set ns" using d by auto
  then have wo: "waits_on s' (handle n) = waits_on s (handle n)" "marks s' = marks s" "waits_on s (handle n) \<noteq> None"
    using assms(3) by (simp_all add: s' waits_on_def)
  have mark: "marks s (handle n) \<le> length (wakes ?q)" by (rule D(2))
  have "asleep s' (handle n)"
    using assms(3) wo n mark by (auto simp: asleep_def called_def w)
  moreover have "called (crowd_step (Crowd_push p) s') (handle n)"
    using wo mark by (auto simp: called_def run_push_queue w)
  moreover have "length (queue_values (crowd_queue s')) = length (queue_values ?q) + length ns"
    by (simp add: s' run_pushes_length assms(4))
  ultimately show ?thesis using w(1) by (auto simp: s')
qed

theorem dropped_receivers_swallow_wakeups_witness:
  "\<exists>s s'. s = run_ops crowd_step [Joins 7, Joins 8, Joins 9, Polls 7, Polls 8, Polls 9] crowd_new \<and>
    s' = run_ops crowd_step [Leaves 7, Leaves 8, Crowd_push (Push_back (3 :: nat)), Crowd_push (Push_front 4)] s \<and>
    wakes (crowd_queue s') = [7, 8] \<and> length (queue_values (crowd_queue s')) = 2 \<and> asleep s' 9 \<and>
    called (crowd_step (Crowd_push (Push_back 5)) s') 9"
proof -
  obtain s :: "nat crowd" where s: "s = run_ops crowd_step [Joins 7, Joins 8, Joins 9, Polls 7, Polls 8, Polls 9] crowd_new" by simp
  let ?ns = "[\<lparr>handle = 7, awake = 0\<rparr>, \<lparr>handle = 8, awake = 1\<rparr>]" and ?n = "\<lparr>handle = 9, awake = 2\<rparr>"
  note defs = s crowd_new_def deque_new_def stream_def poll_next_def pop_front_def Let_def
  have q: "rx_notifiers (crowd_queue s) = ?ns @ ?n # []" "wakes (crowd_queue s) = []"
    "queue_values (crowd_queue s) = []"
    and sleep: "\<forall>k \<in> set (?ns @ [?n]). waits_on s (handle k) = Some (awake k) \<and> asleep s (handle k)"
    by (simp_all add: defs waits_on_def asleep_def called_def queue_values_def)
  obtain s' where s': "s' = run_ops crowd_step (map Leaves (map handle ?ns) @ map Crowd_push [Push_back 3, Push_front 4]) s"
    by simp
  from dropped_receivers_swallow_wakeups [OF s q(1) sleep _ this, of "Push_back 5"]
  have "wakes (crowd_queue s') = [7, 8]" "length (queue_values (crowd_queue s')) = 2" "asleep s' 9"
    "called (crowd_step (Crowd_push (Push_back 5)) s') 9" by (simp_all add: q(2,3))
  moreover have "s' = run_ops crowd_step [Leaves 7, Leaves 8, Crowd_push (Push_back 3), Crowd_push (Push_front 4)] s"
    unfolding s' by (simp del: crowd_step.simps)
  ultimately show ?thesis using s by blast
qed

end
