(* ===== verification/Rex_Plain.thy ===== *)
theory Rex_Plain
  imports Rex_Tree
begin

text \<open>
  A reference for the trees of \<open>src/node.rs\<close>: trees of states without the index
  \<open>descendant_keys\<close>, on which insertion and update are plain recursions. The code, which finds its
  way by the index and rebuilds the tree through the zipper with \<open>swap_remove\<close>, gives the same
  trees, with the children in the same order.
\<close>

section \<open>Plain trees\<close>

datatype ('id, 's) plain = Plain 'id 's "('id, 's) plain list"

fun plain_of :: "('id, 's) node \<Rightarrow> ('id, 's) plain" where
  "plain_of (Node i s d cs) = Plain i s (map plain_of cs)"

fun plain_ids :: "('id, 's) plain \<Rightarrow> 'id list" where
  "plain_ids (Plain i s cs) = i # concat (map plain_ids cs)"

text \<open>A new last child under \<open>p\<close>, and another state for \<open>i\<close>.\<close>

fun plant :: "'id \<Rightarrow> ('id, 's) plain \<Rightarrow> ('id, 's) plain \<Rightarrow> ('id, 's) plain" where
  "plant p c (Plain i s cs) = Plain i s (map (plant p c) cs @ (if i = p then [c] else []))"

fun repaint :: "'id \<Rightarrow> 's \<Rightarrow> ('id, 's) plain \<Rightarrow> ('id, 's) plain" where
  "repaint i t (Plain j s cs) = Plain j (if j = i then t else s) (map (repaint i t) cs)"

primrec plain_op :: "('k, 's, 'z) kind_ops_scheme \<Rightarrow> ('k, 's) tree_op \<Rightarrow>
    ('k state_id, 's) plain \<Rightarrow> ('k state_id, 's) plain" where
  "plain_op K (Add p c) t = plant p (Plain c (new_state K (kind c)) []) t"
| "plain_op K (Upd i s) t = repaint i s t"

primrec plain_ok :: "('k, 's) tree_op \<Rightarrow> ('k state_id, 's) plain \<Rightarrow> bool" where
  "plain_ok (Add p c) t \<longleftrightarrow> p \<in> set (plain_ids t) \<and> c \<notin> set (plain_ids t)"
| "plain_ok (Upd i s) t \<longleftrightarrow> i \<in> set (plain_ids t)"

section \<open>The code agrees\<close>

lemma plain_of_ids [simp]: "plain_ids (plain_of n) = ids n"
  by (induction n) (simp add: ids_Node comp_def cong: map_cong)

lemma plain_add_descendant [simp]: "plain_of (add_descendant x n) = plain_of n"
  by (cases n) simp

lemma plant_idle: "p \<notin> set (ids n) \<Longrightarrow> plant p c (plain_of n) = plain_of n"
  by (induction n) (auto simp: ids_Node intro: map_cong)

lemma repaint_map: "repaint i t (plain_of n) = plain_of (map_states (\<lambda>k v. if k = i then t else v) n)"
  by (induction n) simp

lemma modify_path_plant:
  assumes "tree_wf n" and "covers p n"
  shows "plain_of (modify_path p (add_descendant x) (push_child K x) n) =
    plant p (Plain x (new_state K (kind x)) []) (plain_of n)"
  using assms
proof (induction n)
  case (Node r v d cs)
  let ?n = "Node r v d cs" and ?c = "Plain x (new_state K (kind x)) []"
  have ex: "exact ?n" using Node.prems by (simp add: tree_wf_def)
  show ?case
  proof (cases "p \<in> d")
    case False
    with Node.prems have r: "r = p" by (simp add: covers_def)
    have "plant p ?c (plain_of c) = plain_of c" if "c \<in> set cs" for c
      by (rule plant_idle) (use exact_descendants [OF ex] that False in auto)
    with False r show ?thesis by (simp add: push_child_def node_new_def)
  next
    case True
    with exact_child_idx [OF ex, of p] obtain j where
      idx: "child_idx ?n p = Some j" and j: "j < length cs" and cov: "covers p (cs ! j)" and exj: "exact (cs ! j)"
      by auto
    have "r \<noteq> p" using tree_wf_root_fresh [OF Node.prems(1)] True by auto
    moreover have "map plain_of (cs[j := modify_path p (add_descendant x) (push_child K x) (cs ! j)]) =
        map (plant p ?c \<circ> plain_of) cs"
    proof -
      have wfj: "tree_wf (cs ! j)" using Node.prems(1) j by (auto intro: tree_wf_child)
      have "plant p ?c (plain_of (cs ! k)) = plain_of (cs ! k)" if k: "k < length cs" "k \<noteq> j" for k
        by (rule plant_idle)
          (use tree_wf_child_unique [OF Node.prems(1), of k j p] k j cov exj in \<open>auto simp: exact_covers\<close>)
      with Node.IH [OF nth_mem [OF j] wfj cov] j show ?thesis
        by (intro nth_equalityI) (auto simp: nth_list_update)
    qed
    ultimately show ?thesis using True idx by simp
  qed
qed

interpretation plain_refinement: cmd_refinement "node_op K" tree_wf plain_of plain_ok "plain_op K" for K
proof
  fix n :: "('a, 'b) state_node" and x
  assume wf: "tree_wf n" and ok: "plain_ok x (plain_of n)"
  show "\<exists>n'. node_op K x n = (Returned (), n') \<and> tree_wf n' \<and> plain_of n' = plain_op K x (plain_of n)"
  proof (cases x)
    case (Add p c)
    with ok wf have "covers p n" and "c \<notin> set (ids n)" and "p \<in> dom (states n)"
      by (auto simp: dom_states tree_wf_def exact_covers)
    with Add wf show ?thesis by (simp add: node_insert_wf insert_wf modify_path_plant)
  next
    case (Upd i s)
    with ok wf show ?thesis by (simp add: node_update_wf dom_states repaint_map)
  qed
qed

text \<open>
  C31. Every sequence of insertions (under a parent that is in the tree, of an id that is not)
  and updates (of an id in the tree), run through the zipper on a well-formed tree, gives the
  tree that plain recursion gives, without index and zipper: the same ids and states in the same
  places, a new child always the last of its siblings, and no sibling moved.
\<close>

theorem zipper_is_plain_recursion:
  assumes "tree_wf n" and "script_ok plain_ok (plain_op K) ops (plain_of n)"
  shows "\<exists>n'. run_cmds (node_op K) ops n = (Returned (), n') \<and> tree_wf n' \<and>
    plain_of n' = run_ops (plain_op K) ops (plain_of n)"
  using plain_refinement.run_refines [OF assms] by blast

theorem zipper_is_plain_recursion_witness:
  "\<exists>n. run_cmds (node_op node_kind_ops) [Add alice bob, Add alice \<lparr>kind = Dave, uuid = 4\<rparr>, Upd bob (Node_State Bob Awaiting)]
      (node_new node_kind_ops alice) = (Returned (), n) \<and>
    plain_of n = Plain alice (Node_State Alice New)
      [Plain bob (Node_State Bob Awaiting) [], Plain \<lparr>kind = Dave, uuid = 4\<rparr> (Node_State Dave New) []]"
  using zipper_is_plain_recursion [of "node_new node_kind_ops alice" node_kind_ops
      "[Add alice bob, Add alice \<lparr>kind = Dave, uuid = 4\<rparr>, Upd bob (Node_State Bob Awaiting)]"]
  by (auto simp: node_new_def ids_def tree_wf_def simp del: run_cmds.simps)

end
