(* ===== verification/Rex_Test_Node.thy ===== *)
theory Rex_Test_Node
  imports Rex_Tree
begin

text \<open>
  The unit test \<open>insert_child_state\<close> of \<open>src/node.rs\<close>: its calls in order, with what it reads on
  the way as the result. It is shown to read what its assertions say, whatever the random ids.
\<close>

section \<open>The calls\<close>

text \<open>\<open>tree.get_state(id).unwrap()\<close>, and a consuming method whose result takes the tree's place.\<close>

definition state_now :: "node_kind state_id \<Rightarrow> ((node_kind, node_state) state_node, node_state) cmd" where
  "state_now i = (\<lambda>n. (map_outcome_to (unwrap UnwrapNone) (get_state n i), n))"

definition becomes ::
  "((node_kind, node_state) state_node \<Rightarrow> (node_kind, node_state) state_node outcome) \<Rightarrow>
   ((node_kind, node_state) state_node, unit) cmd" where
  "becomes f = (\<lambda>n. case f n of Returned n' \<Rightarrow> (Returned (), n') | Panicked p \<Rightarrow> (Panicked p, n))"

definition insert_under ::
  "node_kind state_id \<Rightarrow> node_kind state_id \<Rightarrow> ((node_kind, node_state) state_node, unit) cmd" where
  "insert_under p i = node_insert node_kind_ops \<lparr>ins_parent_id = Some p, ins_id = i\<rparr>"

definition checked_update ::
  "node_kind state_id \<Rightarrow> node_state \<Rightarrow> ((node_kind, node_state) state_node, node_state \<times> node_state) cmd" where
  "checked_update i s =
     bindc (state_now i) (\<lambda>before.
     seqc (becomes (into_update \<lparr>upd_id = i, upd_state = s\<rparr>))
     (bindc (state_now i) (\<lambda>after. ret (before, after))))"

definition fail_unfinished ::
  "(node_kind, node_state) state_zipper \<Rightarrow> (unit, (node_kind, node_state) state_node) cmd" where
  "fail_unfinished z = (\<lambda>w.
     (let k = node_as_ref (node_state (znode z)) in
      (finish_update (if \<not> node_state (znode z) = completed_state node_kind_ops k
         then set_state (failed_state node_kind_ops k) z else z), w)))"

definition insert_child_state ::
  "node_kind state_id \<Rightarrow> node_kind state_id \<Rightarrow> node_kind state_id \<Rightarrow> node_kind state_id \<Rightarrow>
   node_kind state_id \<Rightarrow>
   ((node_kind, node_state) state_node, (node_state \<times> node_state) list \<times> node_state list) cmd" where
  "insert_child_state alice_id bob_id charlie_id dave_id eve_id =
     seqc (insert_under alice_id bob_id)
     (seqc (insert_under alice_id charlie_id)
     (seqc (insert_under charlie_id dave_id)
     (seqc (insert_under dave_id eve_id)
     (bindc (checked_update bob_id (Node_State Bob Awaiting)) (\<lambda>b.
     bindc (checked_update charlie_id (Node_State Charlie Awaiting)) (\<lambda>c.
     bindc (checked_update dave_id (Node_State Dave Completed)) (\<lambda>d.
     bindc (checked_update eve_id (Node_State Eve Failed)) (\<lambda>e.
     seqc (becomes (\<lambda>n. fst (finish_update_fn fail_unfinished n ())))
     (bindc (gets node_state) (\<lambda>s.
     bindc (state_now bob_id) (\<lambda>bs.
     bindc (state_now charlie_id) (\<lambda>cs.
     bindc (state_now dave_id) (\<lambda>ds.
     bindc (state_now eve_id) (\<lambda>es.
     ret ([b, c, d, e], [s, bs, cs, ds, es])))))))))))))))"

section \<open>What they do\<close>

definition shows_tree :: "(node_kind, node_state) state_node \<Rightarrow>
    node_kind state_id \<times> (node_kind state_id \<rightharpoonup> node_state) \<Rightarrow> bool" where
  "shows_tree n a \<longleftrightarrow> tree_wf n \<and> node_id n = fst a \<and> states n = snd a"

lemma root_state: "states n (node_id n) = Some (node_state n)"
  by (cases n) (simp add: states_def)

lemma insert_root: "node_id (modify_path p (add_descendant i) (push_child K i) n) = node_id n"
  by (subst modify_path.simps) (cases n, auto simp: push_child_def split: option.splits)

lemma tree_effects:
  "p \<in> dom D \<Longrightarrow> i \<notin> dom D \<Longrightarrow>
    effect shows_tree (insert_under p i) (r, D) () (r, D(i \<mapsto> Node_State (kind i) New))"
  "D i = Some s \<Longrightarrow> effect shows_tree (state_now i) (r, D) s (r, D)"
  "D r = Some s \<Longrightarrow> effect shows_tree (gets node_state) (r, D) s (r, D)"
  "D i = Some s0 \<Longrightarrow> effect shows_tree (checked_update i s) (r, D) (s0, s) (r, D(i \<mapsto> s))"
  "effect shows_tree (becomes (\<lambda>n. fst (finish_update_fn fail_unfinished n ()))) (r, D) ()
    (r, \<lambda>i. map_option (\<lambda>s. if s = Node_State (node_as_ref s) Completed then s
      else Node_State (node_as_ref s) Failed) (D i))"
proof -
  show "effect shows_tree (insert_under p i) (r, D) () (r, D(i \<mapsto> Node_State (kind i) New))"
    if "p \<in> dom D" "i \<notin> dom D"
  proof (rule effectI)
    fix n assume n: "shows_tree n (r, D)"
    let ?n' = "modify_path p (add_descendant i) (push_child node_kind_ops i) n"
    have "covers p n" "i \<notin> set (ids n)" "tree_wf n"
      using n that by (auto simp: shows_tree_def tree_wf_def exact_covers dom_states [symmetric])
    then have "tree_wf ?n'" "states ?n' = (states n)(i \<mapsto> Node_State (kind i) New)" "node_id ?n' = node_id n"
      by (simp_all add: insert_wf insert_states insert_root)
    moreover have "insert_under p i n = (Returned (), ?n')"
      using n that(1) by (simp add: shows_tree_def insert_under_def node_insert_wf)
    ultimately show "\<exists>n'. insert_under p i n = (Returned (), n') \<and>
        shows_tree n' (r, D(i \<mapsto> Node_State (kind i) New))"
      using n by (simp add: shows_tree_def)
  qed
  show now: "effect shows_tree (state_now i) (r, D) s (r, D)" if "D i = Some s" for D i s
    using that by (auto simp: effect_def shows_tree_def state_now_def get_state_states unwrap_def)
  show "effect shows_tree (gets node_state) (r, D) s (r, D)" if "D r = Some s"
  proof (rule effectI)
    fix n assume n: "shows_tree n (r, D)"
    then have "node_state n = s" using that root_state [of n] by (simp add: shows_tree_def)
    with n show "\<exists>n'. gets node_state n = (Returned s, n') \<and> shows_tree n' (r, D)" by (simp add: cmd_simps)
  qed
  have upd: "effect shows_tree (becomes (into_update \<lparr>upd_id = i, upd_state = s\<rparr>)) (r, D) () (r, D(i \<mapsto> s))"
    if "i \<in> dom D"
  proof (rule effectI)
    fix n assume n: "shows_tree n (r, D)"
    then have "into_update \<lparr>upd_id = i, upd_state = s\<rparr> n = Returned (map_states (\<lambda>k v. if k = i then s else v) n)"
      using that modify_path_state [of n i s]
      by (simp add: shows_tree_def into_update_modify tree_wf_def exact_covers dom_states [symmetric])
    with n that show "\<exists>n'. becomes (into_update \<lparr>upd_id = i, upd_state = s\<rparr>) n = (Returned (), n') \<and>
        shows_tree n' (r, D(i \<mapsto> s))"
      by (simp add: becomes_def shows_tree_def map_states_at)
  qed
  show "effect shows_tree (checked_update i s) (r, D) (s0, s) (r, D(i \<mapsto> s))" if "D i = Some s0"
    unfolding checked_update_def using that by - (rule effect_rules now upd domI | simp)+
  show "effect shows_tree (becomes (\<lambda>n. fst (finish_update_fn fail_unfinished n ()))) (r, D) ()
    (r, \<lambda>i. map_option (\<lambda>s. if s = Node_State (node_as_ref s) Completed then s
      else Node_State (node_as_ref s) Failed) (D i))"
  proof (rule effectI)
    fix n assume n: "shows_tree n (r, D)"
    let ?g = "\<lambda>_ s. if s = Node_State (node_as_ref s) Completed then s else Node_State (node_as_ref s) Failed"
    have "fail_unfinished (node_zipper m) w = (Returned (set_node_state (?g (node_id m) (node_state m)) m), w)" for m w
      by (cases m) (simp add: fail_unfinished_def Let_def node_zipper_def set_state_def finish_update.simps)
    then have "finish_update_fn fail_unfinished n () = (Returned (map_states ?g n), fold (\<lambda>_ w. w) (post_order n) ())"
      by (rule finish_update_fn_states)
    with n show "\<exists>n'. becomes (\<lambda>n. fst (finish_update_fn fail_unfinished n ())) n = (Returned (), n') \<and>
        shows_tree n' (r, \<lambda>i. map_option (\<lambda>s. if s = Node_State (node_as_ref s) Completed then s
          else Node_State (node_as_ref s) Failed) (D i))"
      by (auto simp: becomes_def shows_tree_def map_states_states fun_eq_iff)
  qed
qed

text \<open>
  The test insert_child_state passes for all ids: each of the four updates is seen by the
  next read and finds the new state before it, and when every node that has not completed is
  failed through the zipper, all are Failed but Dave, who stays Completed.
\<close>

theorem insert_child_state_passes:
  "\<exists>n. insert_child_state \<lparr>kind = Alice, uuid = a\<rparr> \<lparr>kind = Bob, uuid = b\<rparr> \<lparr>kind = Charlie, uuid = c\<rparr>
      \<lparr>kind = Dave, uuid = d\<rparr> \<lparr>kind = Eve, uuid = e\<rparr> (node_new node_kind_ops \<lparr>kind = Alice, uuid = a\<rparr>) =
    (Returned
      ([(Node_State Bob New, Node_State Bob Awaiting), (Node_State Charlie New, Node_State Charlie Awaiting),
        (Node_State Dave New, Node_State Dave Completed), (Node_State Eve New, Node_State Eve Failed)],
       [Node_State Alice Failed, Node_State Bob Failed, Node_State Charlie Failed,
        Node_State Dave Completed, Node_State Eve Failed]), n) \<and> tree_wf n"
proof -
  let ?alice = "\<lparr>kind = Alice, uuid = a\<rparr>"
  have "\<exists>D. effect shows_tree (insert_child_state ?alice \<lparr>kind = Bob, uuid = b\<rparr> \<lparr>kind = Charlie, uuid = c\<rparr>
      \<lparr>kind = Dave, uuid = d\<rparr> \<lparr>kind = Eve, uuid = e\<rparr>) (?alice, [?alice \<mapsto> Node_State Alice New])
      ([(Node_State Bob New, Node_State Bob Awaiting), (Node_State Charlie New, Node_State Charlie Awaiting),
        (Node_State Dave New, Node_State Dave Completed), (Node_State Eve New, Node_State Eve Failed)],
       [Node_State Alice Failed, Node_State Bob Failed, Node_State Charlie Failed,
        Node_State Dave Completed, Node_State Eve Failed]) (?alice, D)"
    unfolding insert_child_state_def
    by (rule exI, rule effect_eq, (rule effect_rules tree_effects | simp)+)
  moreover have "shows_tree (node_new node_kind_ops ?alice) (?alice, [?alice \<mapsto> Node_State Alice New])"
    by (simp add: shows_tree_def)
  ultimately show ?thesis by (auto dest!: effectD simp: shows_tree_def)
qed

end
