(* ===== verification/Rex_Test_Timeout.thy ===== *)
theory Rex_Test_Timeout
  imports Rex_System
begin

text \<open>
  The unit tests of \<open>src/timeout.rs\<close> and the one of \<open>src/notification.rs\<close>: what they send to a
  timeout manager, the ticks, and what they pop from the signal queue. The tests run on one
  thread: what is sent before a test first waits is received before the first tick. The clock
  readings, the ticks and the order in which a tick visits a set are arbitrary.
\<close>

instantiation test_kind :: linorder
begin

definition less_eq_test_kind :: "test_kind \<Rightarrow> test_kind \<Rightarrow> bool" where
  "less_eq_test_kind k l \<longleftrightarrow> True"

definition less_test_kind :: "test_kind \<Rightarrow> test_kind \<Rightarrow> bool" where
  "less_test_kind k l \<longleftrightarrow> False"

instance
proof
  fix x y :: test_kind
  show "x \<le> y \<Longrightarrow> y \<le> x \<Longrightarrow> x = y" by (cases x; cases y) simp
qed (simp_all add: less_eq_test_kind_def less_test_kind_def)

end

section \<open>The tests\<close>

type_synonym test_manager = "(test_kind, no_retain) ledger \<times> (test_kind, test_input) signal deque"

definition test_manager_new :: test_manager where
  "test_manager_new = (ledger_new, deque_new)"

text \<open>What the two tasks of the manager do with messages and with ticks, given by instants.\<close>

definition receives ::
  "(test_kind \<Rightarrow> test_state \<Rightarrow> test_input option) \<Rightarrow> test_msg list \<Rightarrow> test_manager \<Rightarrow> test_manager" where
  "receives si ms = (\<lambda>(L, q). (fold (timeout_notified (test_ingress si)) ms L, q))"

definition ticks ::
  "(test_kind \<Rightarrow> test_state \<Rightarrow> test_input option) \<Rightarrow> (test_kind state_id hash_order \<times> instant) list \<Rightarrow>
   test_manager \<Rightarrow> test_manager" where
  "ticks si = fold (\<lambda>(it, t). tick (test_ingress si) it t)"

definition timeout_to_signal ::
  "(test_kind \<Rightarrow> test_state \<Rightarrow> test_input option) \<Rightarrow> instant \<Rightarrow> test_kind state_id \<Rightarrow>
   (test_kind state_id hash_order \<times> instant) list \<Rightarrow> (test_kind, test_input) signal option outcome" where
  "timeout_to_signal si t0 test_id its =
     map_outcome_to
       (\<lambda>set_timeout. Returned (fst (pop_front (snd
          (ticks si its (receives si [Msg_TimeoutInput set_timeout] test_manager_new))))))
       (request_set_timeout t0 test_id (duration_from_millis 5))"

text \<open>\<open>its1\<close>: the ticks before the cancellation.\<close>

definition timeout_cancellation ::
  "(test_kind \<Rightarrow> test_state \<Rightarrow> test_input option) \<Rightarrow> instant \<Rightarrow> test_kind state_id \<Rightarrow>
   (test_kind state_id hash_order \<times> instant) list \<Rightarrow> (test_kind state_id hash_order \<times> instant) list \<Rightarrow>
   (test_kind, test_input) signal option outcome" where
  "timeout_cancellation si t0 test_id its1 its2 =
     map_outcome_to
       (\<lambda>set_timeout. Returned (fst (pop_front (snd (ticks si its2
          (receives si [Msg_TimeoutInput \<lparr>req_id = test_id, req_op = Cancel\<rparr>]
            (ticks si its1 (receives si [Msg_TimeoutInput set_timeout] test_manager_new))))))))
       (request_set_timeout_millis t0 test_id 10)"

definition partial_timeout_cancellation ::
  "(test_kind \<Rightarrow> test_state \<Rightarrow> test_input option) \<Rightarrow> instant \<Rightarrow>
   (test_kind state_id hash_order \<times> instant) list \<Rightarrow> (test_kind, test_input) signal option list outcome" where
  "partial_timeout_cancellation si t0 its =
     (let id1 = new_with_u128 TestKind 1; id2 = new_with_u128 TestKind 2; id3 = new_with_u128 TestKind 3;
          timeout_duration = duration_from_millis 5
      in map_outcome_to
        (\<lambda>timeout.
          (let early_timeout = timeout - duration_nanos (duration_from_millis 2);
               set_timeout = \<lparr>req_id = id1, req_op = Set timeout\<rparr>;
               (L, q) = ticks si its (receives si
                 [Msg_TimeoutInput set_timeout,
                  Msg_TimeoutInput (request_with_id set_timeout id2),
                  Msg_TimeoutInput (request_with_id set_timeout id3),
                  Msg_TimeoutInput (request_with_op (request_with_id set_timeout id2) Cancel),
                  Msg_TimeoutInput (request_with_op (request_with_id set_timeout id3) (Set early_timeout))]
                 test_manager_new);
               (first_timeout, q1) = pop_front q;
               (second_timeout, q2) = pop_front q1;
               (rest, q3) = pop_front q2
           in Returned [first_timeout, second_timeout, rest]))
        (instant_add t0 timeout_duration))"

text \<open>
  Two timeout managers behind one notification manager, each with its own signal queue. \<open>t0\<close> is
  the reading at which the request is made.
\<close>

definition route_to_timeout_manager ::
  "(test_kind \<Rightarrow> test_state \<Rightarrow> test_input option) \<Rightarrow> instant \<Rightarrow>
   (test_kind state_id hash_order \<times> instant) list \<Rightarrow> (test_kind state_id hash_order \<times> instant) list \<Rightarrow>
   ((test_kind, test_input) signal option \<times> (test_kind, test_input) signal option) outcome" where
  "route_to_timeout_manager si t0 its1 its2 =
     map_outcome_to (\<lambda>processors. map_outcome_to
       (\<lambda>set_timeout.
         (let (rx, nq, ch) = nm_poll (test_ingress si) (nm_new processors) nm_waker stream
                (nq_send (Msg_TimeoutInput set_timeout) deque_new) channels_new
          in Returned
            (fst (pop_front (snd (ticks si its1 (receives si (chan_queue ch 0) test_manager_new)))),
             fst (pop_front (snd (ticks si its2 (receives si (chan_queue ch 1) test_manager_new)))))))
       (request_set_timeout t0 (new_with_u128 TestKind 1) (duration_from_millis 1)))
     (np_init_all 0 [Timeout_np (tm_with_tick_rate (duration_from_millis 3) (timeout_manager_new Topic_Timeout)),
        Timeout_np (tm_with_tick_rate (duration_from_millis 3) (timeout_manager_new Topic_Timeout))
          :: (test_kind, in_packet, test_topic) boxed_np])"

section \<open>What ticks bring\<close>

text \<open>The manager has the deadlines \<open>D\<close>, holds nothing, and its queue holds the signals \<open>F\<close>.\<close>

definition manages :: "test_manager \<Rightarrow> (test_kind state_id \<rightharpoonup> instant) \<Rightarrow> (test_kind, test_input) signal list \<Rightarrow> bool" where
  "manages s D F \<longleftrightarrow> ledger_wf (fst s) \<and> timer_rel (fst s) (D, []) \<and>
     front_values (snd s) = F \<and> back_values (snd s) = []"

lemma manages_new: "manages test_manager_new Map.empty []"
  by (simp add: manages_def test_manager_new_def ledger_new_wf timer_rel_new deque_new_def)

lemma manages_pop: "manages s D F \<Longrightarrow> fst (pop_front (snd s)) = (case F of [] \<Rightarrow> None | x # xs \<Rightarrow> Some x)"
  by (auto simp: manages_def pop_front_def split: list.split)

lemma manages_receives:
  assumes "manages s D F"
  shows "manages (receives si [Msg_TimeoutInput \<lparr>req_id = i, req_op = Set d\<rparr>] s) (D(i \<mapsto> d)) F"
    and "manages (receives si [Msg_TimeoutInput \<lparr>req_id = i, req_op = Cancel\<rparr>] s) (D(i := None)) F"
proof -
  obtain L q where s: "s = (L, q)" by (cases s)
  with assms have L: "ledger_wf L" "timer_rel L (D, [])" by (simp_all add: manages_def)
  show "manages (receives si [Msg_TimeoutInput \<lparr>req_id = i, req_op = Set d\<rparr>] s) (D(i \<mapsto> d)) F"
    and "manages (receives si [Msg_TimeoutInput \<lparr>req_id = i, req_op = Cancel\<rparr>] s) (D(i := None)) F"
    using assms timer_rel_operate [OF L, of i "Set d"] timer_rel_operate [OF L, of i Cancel]
    by (simp_all add: s manages_def receives_def timeout_notified_def test_ingress_def set_timeout_wf cancel_timeout_wf)
qed

lemma receives_Cons: "receives si (m # m' # ms) s = receives si (m' # ms) (receives si [m] s)"
  by (cases s) (simp add: receives_def)

abbreviation due_signal :: "test_kind state_id \<Rightarrow> instant \<Rightarrow> (test_kind, test_input) signal" where
  "due_signal i t \<equiv> \<lparr>sig_id = i, sig_input = Test_Timeout t\<rparr>"

lemma manages_tick:
  assumes "manages s D F" and "hash_order_ok it"
  obtains due where "distinct due" and "set due = {i. \<exists>a < t. D i = Some a}" and "sorted (map (\<lambda>i. the (D i)) due)"
    and "manages (tick (test_ingress si) it t s) (D |` {i. \<not> (\<exists>a < t. D i = Some a)}) (F @ map (\<lambda>i. due_signal i t) due)"
proof -
  obtain L q where s: "s = (L, q)" by (cases s)
  with assms have L: "ledger_wf L" "timer_rel L (D, [])" by (simp_all add: manages_def)
  have ids: "timer_ids L = D" using L(2) by (simp add: timer_rel_def)
  have "timeout_signals (test_ingress si) t js = map (\<lambda>i. due_signal i t) js" for js
    by (induction js) (simp_all add: timeout_signals_def map_filter_simps test_ingress_def test_timeout_input_def)
  moreover have "item_signals (test_ingress si) (due_items t L) = []"
    using due_items_spec [OF L] by (simp add: item_signals_def map_filter_simps)
  ultimately have "manages (tick (test_ingress si) it t s) (D |` {i. \<not> (\<exists>a < t. D i = Some a)})
      (F @ map (\<lambda>i. due_signal i t) (due_ids it t L))"
    using timer_rel_tick [OF L(1) assms(2) L(2), of "test_ingress si" t q]
      tick_wf(1) [OF L(1) assms(2), of "test_ingress si" t q] assms(1)
    by (simp add: manages_def s tick_queue)
  with due_ids_spec [OF L(1) assms(2), of t] show thesis unfolding ids by (blast intro: that)
qed

definition hash_orders_ok :: "(test_kind state_id hash_order \<times> instant) list \<Rightarrow> bool" where
  "hash_orders_ok its \<longleftrightarrow> (\<forall>(it, t) \<in> set its. hash_order_ok it)"

lemma ticks_simps [simp]:
  "ticks si [] s = s" "ticks si ((it, t) # its) s = ticks si its (tick (test_ingress si) it t s)"
  by (simp_all add: ticks_def)

lemma hash_orders_simps [simp]:
  "hash_orders_ok []" "hash_orders_ok ((it, t) # its) \<longleftrightarrow> hash_order_ok it \<and> hash_orders_ok its"
  by (auto simp: hash_orders_ok_def)

text \<open>Nothing set, one deadline, two deadlines.\<close>

lemma manages_no_due:
  assumes "manages s D F" and "hash_order_ok it" and "\<And>i a. D i = Some a \<Longrightarrow> t \<le> a"
  shows "manages (tick (test_ingress si) it t s) D F"
proof -
  have none: "{i. \<exists>a < t. D i = Some a} = {}" using assms(3) by force
  from manages_tick [OF assms(1,2), of t si] obtain due where "set due = {i. \<exists>a < t. D i = Some a}"
    "manages (tick (test_ingress si) it t s) (D |` {i. \<not> (\<exists>a < t. D i = Some a)}) (F @ map (\<lambda>i. due_signal i t) due)" .
  moreover have "D |` {i. \<not> (\<exists>a < t. D i = Some a)} = D"
    using none by (auto simp: restrict_map_def fun_eq_iff)
  ultimately show ?thesis using none by simp
qed

lemma ticks_no_due:
  assumes "manages s D F" and "hash_orders_ok its" and "\<And>i a t. D i = Some a \<Longrightarrow> t \<in> snd ` set its \<Longrightarrow> t \<le> a"
  shows "manages (ticks si its s) D F"
  using assms
proof (induction its arbitrary: s)
  case (Cons x its)
  obtain it t where x: "x = (it, t)" by (cases x)
  have "manages (tick (test_ingress si) it t s) D F"
    by (rule manages_no_due [OF Cons.prems(1)]) (use Cons.prems(2,3) x in auto)
  from Cons.IH [OF this] Cons.prems(2,3) show ?case by (simp add: x)
qed simp

lemma ticks_one:
  assumes "manages s [i \<mapsto> a] F" and "hash_orders_ok its" and "\<exists>t \<in> snd ` set its. a < t"
  shows "\<exists>t > a. manages (ticks si its s) Map.empty (F @ [due_signal i t])"
  using assms
proof (induction its arbitrary: s)
  case (Cons x its)
  obtain it t where x: "x = (it, t)" by (cases x)
  show ?case
  proof (cases "a < t")
    case True
    have "hash_order_ok it" using Cons.prems(2) x by simp
    from manages_tick [OF Cons.prems(1) this, of t si] obtain due where
      due: "distinct due" "set due = {j. \<exists>b < t. [i \<mapsto> a] j = Some b}"
        "manages (tick (test_ingress si) it t s) ([i \<mapsto> a] |` {j. \<not> (\<exists>b < t. [i \<mapsto> a] j = Some b)})
          (F @ map (\<lambda>i. due_signal i t) due)" .
    from due(2) True have "set due = {i}" by auto
    with due(1) have "due = [i]" by (rule distinct_set_single)
    moreover have "[i \<mapsto> a] |` {j. \<not> (\<exists>b < t. [i \<mapsto> a] j = Some b)} = Map.empty"
      using True by (auto simp: restrict_map_def fun_eq_iff)
    ultimately have "manages (tick (test_ingress si) it t s) Map.empty (F @ [due_signal i t])" using due(3) by simp
    from ticks_no_due [OF this, of its si] Cons.prems(2) True show ?thesis by (auto simp: x)
  next
    case False
    have "manages (tick (test_ingress si) it t s) [i \<mapsto> a] F"
      by (rule manages_no_due [OF Cons.prems(1)]) (use Cons.prems(2) x False in \<open>auto split: if_splits\<close>)
    from Cons.IH [OF this] Cons.prems(2,3) False show ?thesis by (auto simp: x)
  qed
qed simp

lemma ticks_two:
  assumes "manages s [i \<mapsto> a, j \<mapsto> b] F" and "i \<noteq> j" and "b < a" and "hash_orders_ok its"
    and "\<exists>t \<in> snd ` set its. a < t"
  shows "\<exists>t1 t2. b < t1 \<and> a < t2 \<and> manages (ticks si its s) Map.empty (F @ [due_signal j t1, due_signal i t2])"
  using assms
proof (induction its arbitrary: s)
  case (Cons x its)
  obtain it t where x: "x = (it, t)" by (cases x)
  let ?D = "[i \<mapsto> a, j \<mapsto> b]"
  have "hash_order_ok it" using Cons.prems(4) x by simp
  from manages_tick [OF Cons.prems(1) this, of t si] obtain due where
    due: "distinct due" "set due = {k. \<exists>d < t. ?D k = Some d}" "sorted (map (\<lambda>k. the (?D k)) due)"
      "manages (tick (test_ingress si) it t s) (?D |` {k. \<not> (\<exists>d < t. ?D k = Some d)})
        (F @ map (\<lambda>i. due_signal i t) due)" .
  consider "a < t" | "b < t" "t \<le> a" | "t \<le> b" using Cons.prems(3) by linarith
  then show ?case
  proof cases
    case 1
    then have "set due = {j, i}" using due(2) Cons.prems(2,3) by auto
    then have "due = [j, i]"
      using due(1,3) Cons.prems(2,3) by (auto dest!: distinct_two)
    moreover have "?D |` {k. \<not> (\<exists>d < t. ?D k = Some d)} = Map.empty"
      using 1 Cons.prems(3) by (auto simp: restrict_map_def fun_eq_iff)
    ultimately have "manages (tick (test_ingress si) it t s) Map.empty (F @ [due_signal j t, due_signal i t])"
      using due(4) by simp
    from ticks_no_due [OF this, of its si] Cons.prems(3,4) 1 show ?thesis
      by (intro exI [of _ t]) (simp add: x)
  next
    case 2
    then have "set due = {j}" using due(2) Cons.prems(2) by (auto split: if_splits)
    with due(1) have "due = [j]" by (rule distinct_set_single)
    moreover have "?D |` {k. \<not> (\<exists>d < t. ?D k = Some d)} = [i \<mapsto> a]"
      using 2 Cons.prems(2) by (auto simp: restrict_map_def fun_eq_iff)
    ultimately have "manages (tick (test_ingress si) it t s) [i \<mapsto> a] (F @ [due_signal j t])" using due(4) by simp
    from ticks_one [OF this, of its si] Cons.prems(4,5) 2 show ?thesis by (auto simp: x)
  next
    case 3
    have "manages (tick (test_ingress si) it t s) ?D F"
      by (rule manages_no_due [OF Cons.prems(1)]) (use Cons.prems(3,4) x 3 in \<open>auto split: if_splits\<close>)
    from Cons.IH [OF this] Cons.prems 3 show ?thesis by (auto simp: x)
  qed
qed simp

section \<open>The tests pass\<close>

text \<open>
  The test timeout_to_signal passes whenever one tick comes after the five milliseconds: the id of
  the request is signalled, with an instant that is not before the timeout.
\<close>

theorem timeout_to_signal_passes:
  assumes "t0 + 5000000 < instant_limit" and "hash_orders_ok its" and "\<exists>t \<in> snd ` set its. t0 + 5000000 < t"
  shows "\<exists>t > t0 + 5000000. timeout_to_signal si t0 i its =
    Returned (Some \<lparr>sig_id = i, sig_input = Test_Timeout t\<rparr>)"
proof -
  have "request_set_timeout t0 i (duration_from_millis 5) =
      (Returned \<lparr>req_id = i, req_op = Set (t0 + 5000000)\<rparr> :: (test_kind, no_retain) timeout_input outcome)"
    using assms(1) by (simp add: request_set_timeout_def from_duration_def instant_add_def duration_nanos_from_millis)
  moreover have "manages (receives si [Msg_TimeoutInput \<lparr>req_id = i, req_op = Set (t0 + 5000000)\<rparr>] test_manager_new)
      [i \<mapsto> t0 + 5000000] []"
    by (rule manages_receives [OF manages_new])
  from ticks_one [OF this assms(2,3)] obtain t where "t > t0 + 5000000"
    "manages (ticks si its (receives si [Msg_TimeoutInput \<lparr>req_id = i, req_op = Set (t0 + 5000000)\<rparr>] test_manager_new))
      Map.empty [due_signal i t]" by auto
  ultimately show ?thesis using manages_pop by (intro exI [of _ t]) (simp add: timeout_to_signal_def)
qed

text \<open>
  The test timeout_cancellation passes whenever the ticks before the cancellation do not come
  after the ten milliseconds: nothing is ever signalled.
\<close>

theorem timeout_cancellation_passes:
  assumes "t0 + 10000000 < instant_limit" and "hash_orders_ok its1" and "hash_orders_ok its2"
    and "\<forall>t \<in> snd ` set its1. t \<le> t0 + 10000000"
  shows "timeout_cancellation si t0 i its1 its2 = Returned None"
proof -
  let ?d = "t0 + 10000000"
  have r: "request_set_timeout_millis t0 i 10 =
      (Returned \<lparr>req_id = i, req_op = Set ?d\<rparr> :: (test_kind, no_retain) timeout_input outcome)"
    using assms(1)
    by (simp add: request_set_timeout_millis_def from_millis_def instant_add_def duration_nanos_from_millis)
  have "manages (receives si [Msg_TimeoutInput \<lparr>req_id = i, req_op = Set ?d\<rparr>] test_manager_new) [i \<mapsto> ?d] []"
    by (rule manages_receives [OF manages_new])
  then have "manages (ticks si its1 (receives si [Msg_TimeoutInput \<lparr>req_id = i, req_op = Set ?d\<rparr>] test_manager_new))
      [i \<mapsto> ?d] []"
    by (rule ticks_no_due [OF _ assms(2)]) (use assms(4) in \<open>auto split: if_splits\<close>)
  from manages_receives(2) [OF this, of si i]
  have "manages (receives si [Msg_TimeoutInput \<lparr>req_id = i, req_op = Cancel\<rparr>]
      (ticks si its1 (receives si [Msg_TimeoutInput \<lparr>req_id = i, req_op = Set ?d\<rparr>] test_manager_new))) Map.empty []"
    by simp
  from manages_pop [OF ticks_no_due [OF this assms(3), of si]] r show ?thesis
    by (simp add: timeout_cancellation_def)
qed

text \<open>
  C36. The test partial_timeout_cancellation passes for every clock reading, every sequence of
  ticks that comes to an instant after the five milliseconds, and every order in which a tick
  visits the ids of one instant: exactly two timeouts are signalled, first that of the third id,
  whose timeout was moved two milliseconds ahead, then that of the first id, each after its own
  deadline; the second id, which was cancelled, is not.
\<close>

theorem partial_timeout_cancellation_passes:
  assumes "t0 + 5000000 < instant_limit" and "hash_orders_ok its" and "\<exists>t \<in> snd ` set its. t0 + 5000000 < t"
  shows "\<exists>t1 t2. t0 + 3000000 < t1 \<and> t0 + 5000000 < t2 \<and> partial_timeout_cancellation si t0 its =
    Returned [Some \<lparr>sig_id = new_with_u128 TestKind 3, sig_input = Test_Timeout t1\<rparr>,
      Some \<lparr>sig_id = new_with_u128 TestKind 1, sig_input = Test_Timeout t2\<rparr>, None]"
proof -
  let ?id = "new_with_u128 TestKind" and ?d = "t0 + 5000000" and ?e = "t0 + 3000000"
  let ?set = "\<lambda>i t. Msg_TimeoutInput \<lparr>req_id = i, req_op = Set t\<rparr>"
  let ?ms = "[?set (?id 1) ?d, ?set (?id 2) ?d, ?set (?id 3) ?d,
    Msg_TimeoutInput \<lparr>req_id = ?id 2, req_op = Cancel\<rparr>, ?set (?id 3) ?e]"
  have add: "instant_add t0 (duration_from_millis 5) = Returned ?d"
    using assms(1) by (simp add: instant_add_def duration_nanos_from_millis)
  have early: "?d - duration_nanos (duration_from_millis 2) = ?e" by (simp add: duration_nanos_from_millis)
  have ne: "?id 1 \<noteq> ?id 2" "?id 1 \<noteq> ?id 3" "?id 2 \<noteq> ?id 3" by (simp_all add: new_with_u128_def)
  have "manages (receives si ?ms test_manager_new)
      (([?id 1 \<mapsto> ?d, ?id 2 \<mapsto> ?d, ?id 3 \<mapsto> ?d](?id 2 := None))(?id 3 \<mapsto> ?e)) []"
    unfolding receives_Cons by (intro manages_receives manages_new)
  moreover have "([?id 1 \<mapsto> ?d, ?id 2 \<mapsto> ?d, ?id 3 \<mapsto> ?d](?id 2 := None))(?id 3 \<mapsto> ?e) = [?id 1 \<mapsto> ?d, ?id 3 \<mapsto> ?e]"
    using ne by (auto simp: fun_eq_iff)
  ultimately have "manages (receives si ?ms test_manager_new) [?id 1 \<mapsto> ?d, ?id 3 \<mapsto> ?e] []" by simp
  from ticks_two [OF this ne(2) _ assms(2,3), of si] obtain t1 t2 where t: "?e < t1" "?d < t2"
    and s: "manages (ticks si its (receives si ?ms test_manager_new)) Map.empty
      [due_signal (?id 3) t1, due_signal (?id 1) t2]" by auto
  obtain L q where q: "ticks si its (receives si ?ms test_manager_new) = (L, q)" by fastforce
  with s have "front_values q = [due_signal (?id 3) t1, due_signal (?id 1) t2]" "back_values q = []"
    by (simp_all add: manages_def)
  with q have "partial_timeout_cancellation si t0 its =
      Returned [Some (due_signal (?id 3) t1), Some (due_signal (?id 1) t2), None]"
    by (simp add: partial_timeout_cancellation_def request_with_id_def request_with_op_def Let_def add early pop_front_def)
  with t show ?thesis by blast
qed

theorem partial_timeout_cancellation_passes_witness:
  "\<exists>t1 t2. partial_timeout_cancellation (\<lambda>_ _. None) 7 [(sorted_list_of_set, 4000007), (sorted_list_of_set, 6000007)] =
    Returned [Some \<lparr>sig_id = new_with_u128 TestKind 3, sig_input = Test_Timeout t1\<rparr>,
      Some \<lparr>sig_id = new_with_u128 TestKind 1, sig_input = Test_Timeout t2\<rparr>, None]"
  using partial_timeout_cancellation_passes [of 7 "[(sorted_list_of_set, 4000007), (sorted_list_of_set, 6000007)]"
      "\<lambda>_ _. None"]
  by (auto simp: hash_order_ok_def instant_limit_def nanos_per_sec_def)

text \<open>
  The test route_to_timeout_manager passes whenever each of the two timeout managers has a tick
  after the millisecond: both have a timeout to signal, for the id of the request.
\<close>

theorem route_to_timeout_manager_passes:
  assumes "t0 + 1000000 < instant_limit" and "hash_orders_ok its1" and "hash_orders_ok its2"
    and "\<exists>t \<in> snd ` set its1. t0 + 1000000 < t" and "\<exists>t \<in> snd ` set its2. t0 + 1000000 < t"
  shows "\<exists>x y. route_to_timeout_manager si t0 its1 its2 = Returned (Some x, Some y) \<and>
    sig_id x = sig_id y \<and> sig_id x = new_with_u128 TestKind 1"
proof -
  let ?r = "\<lparr>req_id = new_with_u128 TestKind 1, req_op = Set (t0 + 1000000)\<rparr> :: (test_kind, no_retain) timeout_input"
  have r: "request_set_timeout t0 (new_with_u128 TestKind 1) (duration_from_millis 1) = Returned ?r"
    using assms(1) by (simp add: request_set_timeout_def from_duration_def instant_add_def duration_nanos_from_millis)
  have nps: "np_init_all 0 [Timeout_np (tm_with_tick_rate (duration_from_millis 3) (timeout_manager_new Topic_Timeout)),
      Timeout_np (tm_with_tick_rate (duration_from_millis 3) (timeout_manager_new Topic_Timeout))
        :: (test_kind, in_packet, test_topic) boxed_np] =
      Returned [\<lparr>np_channel = 0, np_topics = [Topic_Timeout]\<rparr>, \<lparr>np_channel = 1, np_topics = [Topic_Timeout]\<rparr>]"
    by (simp add: np_init_def tm_with_tick_rate_def timeout_manager_new_def duration_nanos_from_millis)
  let ?ps = "[\<lparr>np_channel = 0, np_topics = [Topic_Timeout]\<rparr>, \<lparr>np_channel = 1, np_topics = [Topic_Timeout]\<rparr>]"
  obtain rx nq ch where p: "nm_poll (test_ingress si) (nm_new ?ps) nm_waker stream
      (nq_send (Msg_TimeoutInput ?r) deque_new) channels_new = (rx, nq, ch)" by (metis prod_cases3)
  have ch: "chan_queue ch c = [Msg_TimeoutInput ?r]" if "c = 0 \<or> c = 1" for c
    using nm_poll_drains [OF p] fold_route_queue [of channels_new c "test_ingress si" ?ps "[Msg_TimeoutInput ?r]"] that
    by (auto simp: nq_send_def queue_values_def deque_new_def channels_new_def channels_of_def test_ingress_def)
  have m: "manages (receives si [Msg_TimeoutInput ?r] test_manager_new) [new_with_u128 TestKind 1 \<mapsto> t0 + 1000000] []"
    by (rule manages_receives [OF manages_new])
  from ticks_one [OF m assms(2,4), of si] ticks_one [OF m assms(3,5), of si] obtain t1 t2 where
    "manages (ticks si its1 (receives si [Msg_TimeoutInput ?r] test_manager_new)) Map.empty
      [due_signal (new_with_u128 TestKind 1) t1]"
    "manages (ticks si its2 (receives si [Msg_TimeoutInput ?r] test_manager_new)) Map.empty
      [due_signal (new_with_u128 TestKind 1) t2]" by auto
  from this [THEN manages_pop] show ?thesis
    unfolding route_to_timeout_manager_def nps r by (simp add: p [simplified] ch [simplified])
qed

end
