(* ===== verification/Rex_Test_Flow.thy ===== *)
theory Rex_Test_Flow
  imports Rex_System
begin

text \<open>
  The unit tests of \<open>src/queue.rs\<close> and \<open>src/ingress.rs\<close>: their calls in order, with what they
  observe as the result. They run on one thread, so a spawned task runs when the test first
  waits. The argument \<open>si\<close> stands for \<open>state_input\<close> of \<open>TestKind\<close>, which nothing here calls.
\<close>

section \<open>The queue\<close>

text \<open>At most \<open>n\<close> values from a stream; the task would wait where the queue is empty.\<close>

primrec take_stream :: "waker \<Rightarrow> nat \<Rightarrow> stream_receiver \<Rightarrow> 'a deque \<Rightarrow> 'a list" where
  "take_stream w 0 rx q = []"
| "take_stream w (Suc n) rx q = (case poll_next w rx q of
     (Ready (Some v), rx', q') \<Rightarrow> v # take_stream w n rx' q'
   | _ \<Rightarrow> [])"

text \<open>The test polls first and waits; then the two tasks run, in one order or the other.\<close>

definition streamable_deque :: "bool \<Rightarrow> waker \<Rightarrow> int list" where
  "streamable_deque pos_first w =
     (let (r, rx, queue) = poll_next w stream deque_new;
          pos_queue = fold push_back [0..10];
          neg_queue = fold push_front [-10..-1]
      in take_stream w 21 rx (if pos_first then neg_queue (pos_queue queue) else pos_queue (neg_queue queue)))"

lemma take_stream_values: "take_stream w n rx q = take n (queue_values q)"
proof (induction n arbitrary: rx q)
  case (Suc n)
  show ?case
  proof (cases rule: poll_next_cases [where q = q and w = w and rx = rx])
    case (popped v q')
    with poll_next_Ready(1) [OF popped(2)] Suc show ?thesis by simp
  qed simp
qed simp

text \<open>
  The test streamable_deque passes in both orders of its tasks: the stream gives the numbers from
  -10 to 10 in ascending order.
\<close>

theorem streamable_deque_passes: "streamable_deque pos_first w = [-10..10]"
proof -
  obtain rx q where q: "poll_next w stream (deque_new :: int deque) = (Pending, rx, q)"
    "front_values q = []" "back_values q = []"
    by (simp add: poll_next_def pop_front_def deque_new_def Let_def)
  have "queue_values (if b then fold push_front [-10..-1] (fold push_back [0..10] q)
      else fold push_back [0..10] (fold push_front [-10..-1] q)) = [-10..-1] @ [0..10]" for b
    using q(2,3) by (simp add: queue_values_def deque_fifo.fold_push_lo deque_fifo.fold_push_hi)
  then have "streamable_deque pos_first w = take 21 ([-10..-1] @ [0..10])"
    by (simp add: streamable_deque_def q(1) take_stream_values)
  also have "\<dots> = [-10..10]" by (simp add: upto.simps)
  finally show ?thesis .
qed

section \<open>To the network\<close>

text \<open>\<open>test_default\<close>: \<open>c\<close> is the channel \<open>new\<close> makes, \<open>net\<close> the outbound channel.\<close>

definition test_adapter :: "channel \<Rightarrow> channel \<Rightarrow> (test_kind, in_packet, test_topic) ingress_adapter outcome" where
  "test_adapter c net = adapter_new c net [test_router] Topic_Ingress"

text \<open>
  One send and the wait after it: the notification manager routes what is queued, the task of
  the adapter converts what it receives on its channel \<open>n\<close>, the test reads the channel \<open>net\<close>.
\<close>

definition through_network ::
  "(test_kind \<Rightarrow> test_state \<Rightarrow> test_input option) \<Rightarrow> test_topic subscriptions \<Rightarrow> channel \<Rightarrow> channel \<Rightarrow> out_packet \<Rightarrow>
   (stream_receiver \<times> test_msg deque \<times> test_msg channels \<times> out_packet channels, out_packet option) cmd" where
  "through_network si subs n net p = (\<lambda>(rx, nq, ch, out).
     (let (rx', nq', ch') = nm_poll (test_ingress si) subs nm_waker rx (nq_send (Msg_Ingress p) nq) ch;
          out' = process_outbound (test_ingress si) net (chan_queue ch' n) out;
          (got, out'') = chan_recv net out'
      in (Returned got, rx', nq', ch'\<lparr>chan_queue := (chan_queue ch')(n := [])\<rparr>, out'')))"

definition route_to_network ::
  "(test_kind \<Rightarrow> test_state \<Rightarrow> test_input option) \<Rightarrow> channel \<Rightarrow> channel \<Rightarrow>
   (out_packet option \<times> out_packet option) outcome" where
  "route_to_network si c net =
     map_outcome_to (\<lambda>adapter. map_outcome_to (\<lambda>processors. fst
       (bindc (through_network si (nm_new processors) 0 net ''unknown_packet'') (\<lambda>unknown_packet.
          bindc (through_network si (nm_new processors) 0 net ''unsupported_packet'') (\<lambda>unsupported_packet.
            ret (unknown_packet, unsupported_packet)))
        (stream, deque_new, channels_new, channels_new)))
      (np_init_all 0 [Ingress_np adapter]))
     (test_adapter c net)"

section \<open>From the network\<close>

text \<open>
  \<open>signal_rx.next()\<close> on a stream with a timeout: a value, or \<open>None\<close> for the timeout. The tasks
  run while the test waits; it polls again when it is woken or when the time is over.
\<close>

definition next_within ::
  "waker \<Rightarrow> ('a deque \<Rightarrow> 'a deque) \<Rightarrow> stream_receiver \<times> 'a deque \<Rightarrow> 'a option \<times> stream_receiver \<times> 'a deque" where
  "next_within w tasks = (\<lambda>(rx, q). case poll_next w rx q of
     (Ready v, rx', q') \<Rightarrow> (v, rx', q')
   | (Pending, rx', q') \<Rightarrow> (case poll_next w rx' (tasks q') of
       (Ready v, rx'', q'') \<Rightarrow> (v, rx'', q'')
     | (Pending, rx'', q'') \<Rightarrow> (None, rx'', q'')))"

text \<open>
  The two sends and waits of both tests; \<open>first\<close> is what the other tasks do at their first
  turn. Also: the wakers called.
\<close>

definition from_network ::
  "(test_kind \<Rightarrow> test_state \<Rightarrow> test_input option) \<Rightarrow> (test_kind, in_packet) packet_router \<Rightarrow> waker \<Rightarrow>
   ((test_kind, test_input) signal deque \<Rightarrow> (test_kind, test_input) signal deque) \<Rightarrow>
   (test_kind, test_input) signal option list \<times> waker list" where
  "from_network si pr w first =
     (let send = (\<lambda>p q. snd (process_inbound (test_ingress si) pr [p] q));
          (unknown, s) = next_within w (\<lambda>q. send ''unknown_packet'' (first q)) (stream, deque_new);
          (supported, s') = next_within w (send ''new_state'') s
      in ([unknown, supported], wakes (snd s')))"

definition route_from_network ::
  "(test_kind \<Rightarrow> test_state \<Rightarrow> test_input option) \<Rightarrow> waker \<Rightarrow> channel \<Rightarrow> channel \<Rightarrow>
   ((test_kind, test_input) signal option list \<times> waker list) outcome" where
  "route_from_network si w c net =
     map_outcome_to (\<lambda>adapter. map_outcome_to (\<lambda>processors.
       Returned (from_network si (router adapter) w id))
      (np_init_all 0 [Ingress_np adapter]))
     (test_adapter c net)"

text \<open>Here \<open>build\<close> has spawned the manager, which waits for signals on the same queue.\<close>

fun ingress_router :: "('k, 'p, 't) boxed_np list \<Rightarrow> ('k, 'p) packet_router" where
  "ingress_router (Ingress_np adapter # nps) = router adapter"
| "ingress_router (np # nps) = ingress_router nps"
| "ingress_router [] = Map.empty"

definition rex_builder_test ::
  "(test_kind \<Rightarrow> test_state \<Rightarrow> test_input option) \<Rightarrow> waker \<Rightarrow> channel \<Rightarrow> channel \<Rightarrow>
   ((test_kind, test_input) signal option list \<times> waker list) outcome" where
  "rex_builder_test si w c out_tx =
     (let (tx, builder) = new_connected c out_tx ::
            channel \<times> (test_kind, test_input, (test_kind, test_state, test_input, test_msg, unit) world,
              in_packet, test_topic) rex_builder
      in map_outcome_to (\<lambda>b. map_outcome_to (\<lambda>sys.
          (let manager = (\<lambda>q. case manager_step (sys_machines sys) manager_waker stream
                 ((world_new 0 ())\<lparr>signal_queue := q\<rparr>) of (st, rx, wd) \<Rightarrow> signal_queue wd)
           in Returned (from_network si (ingress_router (notification_processors b)) w manager)))
         (build_inner 0 b))
        (with_ingress_adapter [test_router] Topic_Ingress builder))"

section \<open>The tests pass\<close>

lemma test_adapter_new:
  "test_adapter c net = Returned \<lparr>outbound_tx = net,
     router = [TestKind \<mapsto> test_router], inbound_tx = c, inbound_rx = Some c, ingress_topic = Topic_Ingress\<rparr>"
  by (simp add: test_adapter_def adapter_new_def packet_router_new_def test_router_def)

lemma through_network_packet:
  assumes "queue_values nq = []" and "chan_queue ch 0 = []" and "chan_queue out net = []"
    and "\<not> chan_closed ch 0" and "\<not> chan_closed out net"
  obtains rx' nq' ch' out' where
    "through_network si (nm_new [\<lparr>np_channel = 0, np_topics = [Topic_Ingress]\<rparr>]) 0 net p (rx, nq, ch, out) =
       (Returned (Some p), rx', nq', ch', out')"
    and "queue_values nq' = []" and "chan_queue ch' 0 = []" and "chan_queue out' net = []"
    and "\<not> chan_closed ch' 0" and "\<not> chan_closed out' net"
proof -
  let ?ps = "[\<lparr>np_channel = 0, np_topics = [Topic_Ingress]\<rparr>]"
  obtain rx' nq' ch' where p: "nm_poll (test_ingress si) (nm_new ?ps) nm_waker rx (nq_send (Msg_Ingress p) nq) ch =
      (rx', nq', ch')" by (metis prod_cases3)
  have nq: "queue_values (nq_send (Msg_Ingress p) nq) = [Msg_Ingress p]"
    using assms(1) by (simp add: nq_send_def queue_values_def)
  from nm_poll_drains [OF p] have q: "queue_values nq' = []"
    and ch': "ch' = fold (nm_route (test_ingress si) (nm_new ?ps)) [Msg_Ingress p] ch" unfolding nq by simp_all
  have c: "chan_queue ch' 0 = [Msg_Ingress p]" "\<not> chan_closed ch' 0"
    using assms(2,4) route_queue(2) [of "test_ingress si" "nm_new ?ps" "Msg_Ingress p" ch]
    unfolding ch' by (simp_all add: route_queue(1) channels_of_def test_ingress_def)
  let ?out = "process_outbound (test_ingress si) net [Msg_Ingress p] out"
  have "chan_queue ?out net = [p]" "\<not> chan_closed ?out net"
    using process_outbound_queue [OF assms(5), of "test_ingress si" "[Msg_Ingress p]"] assms(3,5)
    by (simp_all add: map_filter_simps test_ingress_def)
  with p c q show thesis
    by (intro that [of rx' nq' "ch'\<lparr>chan_queue := (chan_queue ch')(0 := [])\<rparr>"
          "?out\<lparr>chan_queue := (chan_queue ?out)(net := [])\<rparr>"])
      (simp_all add: through_network_def chan_recv_def Let_def)
qed

text \<open>
  The test route_to_network passes: both packets come out, in the order they were sent.
\<close>

theorem route_to_network_passes:
  "route_to_network si c net = Returned (Some ''unknown_packet'', Some ''unsupported_packet'')"
proof -
  let ?ps = "[\<lparr>np_channel = 0, np_topics = [Topic_Ingress]\<rparr>]"
  let ?t = "through_network si (nm_new ?ps) 0 net"
  obtain rx nq ch out where 1: "?t ''unknown_packet'' (stream, deque_new, channels_new, channels_new) =
      (Returned (Some ''unknown_packet''), rx, nq, ch, out)"
    and s: "queue_values nq = []" "chan_queue ch 0 = []" "chan_queue out net = []"
      "\<not> chan_closed ch 0" "\<not> chan_closed out net"
    by (rule through_network_packet [of deque_new channels_new channels_new net si "''unknown_packet''" stream])
      (simp_all add: queue_values_def channels_new_def)
  obtain s' where "?t ''unsupported_packet'' (rx, nq, ch, out) = (Returned (Some ''unsupported_packet''), s')"
    by (rule through_network_packet [OF s]) blast
  with 1 have "fst (bindc (?t ''unknown_packet'') (\<lambda>x. bindc (?t ''unsupported_packet'') (\<lambda>y. ret (x, y)))
      (stream, deque_new, channels_new, channels_new)) =
      Returned (Some ''unknown_packet'', Some ''unsupported_packet'')"
    by (simp add: cmd_simps)
  then show ?thesis
    by (simp add: route_to_network_def test_adapter_new np_init_def adapter_init_def spawn_inbound_def cmd_simps)
qed

lemma inbound_packets:
  "snd (process_inbound (test_ingress si) [TestKind \<mapsto> test_router] [''unknown_packet''] q) = q"
  "snd (process_inbound (test_ingress si) [TestKind \<mapsto> test_router] [''new_state''] q) =
     push_back \<lparr>sig_id = new_with_u128 TestKind 1, sig_input = Test_Packet ''new_state''\<rparr> q"
  by (simp_all add: process_inbound_def cmd_simps inbound_step_apply packet_get_id_def packet_signal_def
      test_ingress_def test_router_def starts_with_def)

text \<open>\<open>first\<close> at most leaves notifiers behind that of the test.\<close>

lemma from_network_result:
  assumes "first \<lparr>front_values = [], back_values = [], rx_notifiers = [\<lparr>handle = w, awake = 0\<rparr>],
      flags = [False], wakes = []\<rparr> = \<lparr>front_values = [], back_values = [],
      rx_notifiers = \<lparr>handle = w, awake = 0\<rparr> # ns, flags = False # fs, wakes = []\<rparr>"
  shows "from_network si [TestKind \<mapsto> test_router] w first =
    ([None, Some \<lparr>sig_id = new_with_u128 TestKind 1, sig_input = Test_Packet ''new_state''\<rparr>], [w])"
  using assms
  by (simp add: from_network_def next_within_def poll_next_def pop_front_def deque_new_def stream_def
      inbound_packets push_back_def notify_rx_def Let_def)

text \<open>
  The test route_from_network passes: the unknown packet gives no signal, the other gives its
  signal, and the wake-up of that signal goes to the test.
\<close>

theorem route_from_network_passes:
  "route_from_network si w c net = Returned
    ([None, Some \<lparr>sig_id = new_with_u128 TestKind 1, sig_input = Test_Packet ''new_state''\<rparr>], [w])"
  using from_network_result [of id w "[]" "[]" si]
  by (simp add: route_from_network_def test_adapter_new np_init_def adapter_init_def spawn_inbound_def cmd_simps)

text \<open>
  The test rex_builder passes although the manager that build spawns waits on the same queue:
  the unknown packet gives no signal before the timeout, the other packet gives the test its
  signal, and only the test is woken, since it was the first to wait.
\<close>

theorem rex_builder_passes:
  "rex_builder_test si w c out_tx = Returned
    ([None, Some \<lparr>sig_id = new_with_u128 TestKind 1, sig_input = Test_Packet ''new_state''\<rparr>], [w])"
proof -
  have router: "packet_router_new [test_router] = Returned [TestKind \<mapsto> test_router]"
    by (simp add: packet_router_new_def test_router_def)
  show ?thesis
    apply (simp add: rex_builder_test_def new_connected_def with_ingress_adapter_def builder_default_def
      router with_np_def build_inner_def build_timeout_manager_def np_init_def adapter_init_def
      spawn_inbound_def cmd_simps manager_new_eq Let_def)
    apply (rule from_network_result)
    apply (simp add: manager_step_def poll_next_def pop_front_def)
    done
qed

end
