(* ===== verification/Rex_Siblings.thy ===== *)
theory Rex_Siblings
  imports Rex_Moves
begin

text \<open>
  The order of siblings in the game: a menu creates its ping before its pong, no operation moves
  a node, so whoever looks at the children of a menu finds the ping first. The tests of
  \<open>src/manager.rs\<close> read \<open>children[0]\<close> and \<open>children[1]\<close>.
\<close>

section \<open>Trees whose first children are pings\<close>

fun ping_first :: "(game, 's) state_node \<Rightarrow> bool" where
  "ping_first (Node i s d cs) \<longleftrightarrow>
     (cs \<noteq> [] \<longrightarrow> kind (node_id (hd cs)) = Ping) \<and> (\<forall>c \<in> set cs. ping_first c)"

lemma ping_first_iff:
  "ping_first n \<longleftrightarrow> (children n \<noteq> [] \<longrightarrow> kind (node_id (hd (children n))) = Ping) \<and>
     (\<forall>c \<in> set (children n). ping_first c)"
  by (cases n) simp

lemma ping_first_new [simp]: "ping_first (node_new K i)"
  by (simp add: node_new_def)

lemma ping_first_replace:
  assumes "ping_first (Node r v d cs)" and "j < length cs" and "ping_first c" and "node_id c = node_id (cs ! j)"
  shows "ping_first (Node r w e (cs[j := c]))"
proof -
  have "map node_id (cs[j := c]) = map node_id cs" using assms(2,4) by (intro map_list_update_eq) auto
  then have "node_id (hd (cs[j := c])) = node_id (hd cs)" if "cs \<noteq> []"
    using that by (metis hd_map list.map_disc_iff)
  with assms show ?thesis by (auto dest: set_update_subset_insert [THEN subsetD])
qed

lemma ping_first_update:
  assumes "exact n" and "covers i n" and "ping_first n"
  shows "ping_first (modify_path i (\<lambda>n. n) (set_node_state s) n) \<and>
    node_id (modify_path i (\<lambda>n. n) (set_node_state s) n) = node_id n"
  using assms
proof (induction n)
  case (Node r v d cs)
  let ?n = "Node r v d cs"
  show ?case
  proof (cases "i \<in> d")
    case False
    with Node.prems show ?thesis by simp
  next
    case True
    with exact_child_idx [OF Node.prems(1), of i] obtain j where
      idx: "child_idx ?n i = Some j" and j: "j < length cs" and cov: "covers i (cs ! j)" and exj: "exact (cs ! j)"
      by auto
    have "ping_first (cs ! j)" using Node.prems(3) j by simp
    with Node.IH [OF nth_mem [OF j] exj cov] True idx j ping_first_replace [OF Node.prems(3) j]
    show ?thesis by (simp del: ping_first.simps)
  qed
qed

text \<open>A ping and then another child, both under the same id.\<close>

lemma ping_first_insert:
  fixes K :: "(game, 's, 'z) kind_ops_scheme" and x y :: "game state_id"
  assumes "exact n" and "covers p n" and "ping_first n" and "kind x = Ping" and "p \<noteq> x"
  defines "n1 \<equiv> modify_path p (add_descendant x) (push_child K x) n"
  defines "n2 \<equiv> modify_path p (add_descendant y) (push_child K y) n1"
  shows "ping_first n1 \<and> node_id n1 = node_id n \<and> ping_first n2 \<and> node_id n2 = node_id n"
  using assms(1-3) unfolding n2_def n1_def
proof (induction n)
  case (Node r v d cs)
  let ?n = "Node r v d cs" and ?f = "\<lambda>x. modify_path p (add_descendant x) (push_child K x)"
  show ?case
  proof (cases "p \<in> d")
    case False
    with Node.prems(3) assms(4,5) show ?thesis
      by (cases cs) (auto simp: push_child_def node_new_def)
  next
    case True
    with exact_child_idx [OF Node.prems(1), of p] obtain j where
      idx: "child_idx ?n p = Some j" and j: "j < length cs" and cov: "covers p (cs ! j)" and exj: "exact (cs ! j)"
      by auto
    let ?m = "?f x (cs ! j)"
    let ?n1 = "Node r v (insert x d) (cs[j := ?m])"
    have "ping_first (cs ! j)" using Node.prems(3) j by simp
    note IH = Node.IH [OF nth_mem [OF j] exj cov this]
    have n1: "?f x ?n = ?n1" using True idx by simp
    have "covers p ?m" using modify_path_insert [OF exj cov, of x K] cov by (auto simp: covers_def)
    then have "child_idx ?n1 p = Some j" using idx j by (auto simp: child_idx_Some nth_list_update)
    with True have n2: "?f y ?n1 = Node r v (insert y (insert x d)) (cs[j := ?f y ?m])"
      using j by simp
    show ?thesis unfolding n1 n2
      using IH ping_first_replace [OF Node.prems(3) j] by (simp del: ping_first.simps)
  qed
qed

lemma ping_first_map_states: "ping_first (map_states g n) \<longleftrightarrow> ping_first n"
proof (induction n)
  case (Node i s d cs)
  then show ?case by (cases cs) auto
qed

section \<open>Stores\<close>

definition first_store :: "(game, game_state) store \<Rightarrow> bool" where
  "first_store st \<longleftrightarrow> store_sound game_rex st \<and> (\<forall>n \<in> set (heap st). ping_first n)"

lemma first_storeI:
  assumes "keeps (store_sound game_rex) P m"
    and "\<And>st x st'. first_store st \<Longrightarrow> m st = (x, st') \<Longrightarrow> \<forall>n \<in> set (heap st'). ping_first n"
  shows "keeps first_store P m"
proof (rule keepsI)
  fix st x st'
  assume "first_store st" and run: "m st = (x, st')"
  with keepsD [OF assms(1) _ run] assms(2) [OF _ run]
  show "first_store st' \<and> (\<forall>p. x = Panicked p \<longrightarrow> p \<in> P)" by (auto simp: first_store_def)
qed

lemma ping_first_heap:
  "\<forall>n \<in> set h. ping_first n \<Longrightarrow> (r < length h \<Longrightarrow> ping_first n) \<Longrightarrow> \<forall>m \<in> set (h[r := n]). ping_first m"
  by (cases "r < length h") (auto simp: list_update_beyond dest: set_update_subset_insert [THEN subsetD])

lemma first_get_tree [keeps_rules]: "NilId \<in> P \<Longrightarrow> keeps first_store P (get_tree i)"
  unfolding get_tree_def by (intro keeps_rules)

lemma first_reads [keeps_rules]:
  assumes "NilId \<in> P"
  shows "keeps first_store P (read_state i)" and "keeps first_store P (has_tree i)"
    and "keeps first_store P (read_parent_id i)"
proof -
  have "(read_state i st = (x, st') \<longrightarrow> st' = st) \<and> (read_parent_id i st = (y, st'') \<longrightarrow> st'' = st)"
    if st: "first_store st" for st x st' y st''
  proof (cases "trees st i")
    case None
    then show ?thesis by (auto simp: read_state_def read_parent_id_def get_tree_def cmd_simps split: if_splits)
  next
    case (Some r)
    with st have "r < length (heap st)" by (auto simp: first_store_def store_sound_def)
    with Some show ?thesis
      by (auto simp: read_state_def read_parent_id_def get_tree_def cmd_simps locked_read split: if_splits)
  qed
  note same = this
  show "keeps first_store P (read_state i)"
  proof (rule first_storeI [OF read_keeps(1) [OF assms]])
    fix st x st' assume "first_store st" and "read_state i st = (x, st')"
    moreover from this same have "st' = st" by blast
    ultimately show "\<forall>n \<in> set (heap st'). ping_first n" by (simp add: first_store_def)
  qed
  show "keeps first_store P (read_parent_id i)"
  proof (rule first_storeI [OF read_keeps(3) [OF assms]])
    fix st x st' assume "first_store st" and "read_parent_id i st = (x, st')"
    moreover from this same have "st' = st" by blast
    ultimately show "\<forall>n \<in> set (heap st'). ping_first n" by (simp add: first_store_def)
  qed
  show "keeps first_store P (has_tree i)"
    unfolding has_tree_def by (intro keeps_rules assms)
qed

lemma first_create_tree [keeps_rules]: "NilId \<in> P \<Longrightarrow> keeps first_store P (create_tree game_rex i)"
  by (intro first_storeI keeps_rules game_kind.lawful_kind_axioms)
    (auto simp: create_tree_def arc_new_def insert_ref_def cmd_simps first_store_def split: if_splits)

lemma first_update:
  assumes "kind_of game_rex s = kind i"
  shows "{NilId, MissingIdForUpdate} \<subseteq> P \<Longrightarrow> keeps first_store P (sm_update game_rex i s)"
    and "{NilId, MissingSmTree} \<subseteq> P \<Longrightarrow> keeps first_store P (update_in_tree game_rex i s)"
proof -
  have node: "ping_first (snd (node_update game_rex \<lparr>upd_id = i, upd_state = s\<rparr> (heap st ! r))) \<and>
      ping_first (snd (update_and_get_parent_id game_rex \<lparr>upd_id = i, upd_state = s\<rparr> (heap st ! r)))"
    if "first_store st" "trees st i = Some r" for st r
  proof -
    note ref = store_sound_ref [of game_rex st i r]
    have n: "exact (heap st ! r)" "covers i (heap st ! r)" "ping_first (heap st ! r)"
      using that ref by (auto simp: first_store_def tree_sound_def)
    from by_id_modify [OF n(1,2)] n ping_first_update [OF n, of s] show ?thesis
      by (auto simp: node_update_def into_update_def update_and_get_parent_id_def swapped_def
          finish_update_parent_id_def set_state_def)
  qed
  have "(\<forall>n \<in> set (heap st'). ping_first n) \<and> (\<forall>n \<in> set (heap st''). ping_first n)"
    if st: "first_store st" and run: "sm_update game_rex i s st = (x, st')" "update_in_tree game_rex i s st = (y, st'')"
    for st x st' y st''
  proof (cases "trees st i")
    case None
    with st run show ?thesis
      by (auto simp: first_store_def sm_update_def update_in_tree_def get_tree_def cmd_simps split: if_splits)
  next
    case (Some r)
    note N = node [OF st Some]
    have H: "\<forall>n \<in> set (heap st). ping_first n" using st by (simp add: first_store_def)
    have "heap st' = heap st \<or>
        heap st' = (heap st)[r := snd (node_update game_rex \<lparr>upd_id = i, upd_state = s\<rparr> (heap st ! r))]"
      using Some run(1) by (auto simp: sm_update_def get_tree_def locked_def cmd_simps split: if_splits prod.splits)
    moreover have "heap st'' = heap st \<or>
        heap st'' = (heap st)[r := snd (update_and_get_parent_id game_rex \<lparr>upd_id = i, upd_state = s\<rparr> (heap st ! r))]"
      using Some run(2) by (auto simp: update_in_tree_def get_tree_def locked_def cmd_simps split: if_splits prod.splits)
    ultimately show ?thesis
      using H ping_first_heap [OF H, of r] N by metis
  qed
  note * = this
  show "keeps first_store P (sm_update game_rex i s)" if "{NilId, MissingIdForUpdate} \<subseteq> P"
  proof (rule first_storeI [OF update_keeps(1) [OF assms that]])
    fix st x st' assume "first_store st" and "sm_update game_rex i s st = (x, st')"
    moreover obtain y st'' where "update_in_tree game_rex i s st = (y, st'')" by fastforce
    ultimately show "\<forall>n \<in> set (heap st'). ping_first n" using * by blast
  qed
  show "keeps first_store P (update_in_tree game_rex i s)" if "{NilId, MissingSmTree} \<subseteq> P"
  proof (rule first_storeI [OF update_keeps(2) [OF assms that]])
    fix st y st'' assume "first_store st" and "update_in_tree game_rex i s st = (y, st'')"
    moreover obtain x st' where "sm_update game_rex i s st = (x, st')" by fastforce
    ultimately show "\<forall>n \<in> set (heap st''). ping_first n" using * by blast
  qed
qed

text \<open>The two children of a menu.\<close>

lemma first_two_children:
  assumes "kind c = Ping" and "kind i \<noteq> Ping" and "{NilId, UnwrapNone} \<subseteq> P"
  shows "keeps first_store P (seqc (new_child game_rex i c) (new_child game_rex i c'))"
proof (rule first_storeI)
  show "keeps (store_sound game_rex) P (seqc (new_child game_rex i c) (new_child game_rex i c'))"
    by (intro keeps_rules game_kind.lawful_kind_axioms assms)
  fix st x st'
  assume st: "first_store st" and run: "seqc (new_child game_rex i c) (new_child game_rex i c') st = (x, st')"
  have H: "\<forall>n \<in> set (heap st). ping_first n" using st by (simp add: first_store_def)
  show "\<forall>n \<in> set (heap st'). ping_first n"
  proof (cases "trees st i = None \<or> is_nil i \<or> is_nil c")
    case True
    with run H show ?thesis
      by (cases "trees st i") (auto simp: new_child_def get_tree_def insert_ref_def cmd_simps split: if_splits)
  next
    case False
    then obtain r where r: "trees st i = Some r" by auto
    from st have ss: "store_sound game_rex st" by (simp add: first_store_def)
    note ref = store_sound_ref [OF ss r]
    let ?f = "\<lambda>x. modify_path i (add_descendant x) (push_child game_rex x)"
    have ex: "exact (heap st ! r)" using ref(4) by (simp add: tree_sound_def)
    have "i \<noteq> c" using assms(1,2) by auto
    have first: "ping_first (?f c (heap st ! r))" "ping_first (?f c' (?f c (heap st ! r)))"
      using ping_first_insert [OF ex ref(2) _ assms(1) \<open>i \<noteq> c\<close>] H ref(1) by auto
    have ins1: "node_insert game_rex \<lparr>ins_parent_id = Some i, ins_id = c\<rparr> (heap st ! r) = (Returned (), ?f c (heap st ! r))"
      using into_insert_modify [OF ex ref(2), of game_rex c] by (simp add: node_insert_def swapped_def)
    have n1: "exact (?f c (heap st ! r))" "covers i (?f c (heap st ! r))"
      using modify_path_insert [OF ex ref(2), of c game_rex] ref(2) by (auto simp: covers_def)
    have ins2: "node_insert game_rex \<lparr>ins_parent_id = Some i, ins_id = c'\<rparr> (?f c (heap st ! r)) =
        (Returned (), ?f c' (?f c (heap st ! r)))"
      using into_insert_modify [OF n1, of game_rex c'] by (simp add: node_insert_def swapped_def)
    have "heap st' = (heap st)[r := ?f c (heap st ! r)] \<or> heap st' = (heap st)[r := ?f c' (?f c (heap st ! r))]"
      using run r False ref(1) ins1 ins2 \<open>i \<noteq> c\<close>
      by (auto simp: new_child_def get_tree_def insert_ref_def locked_def cmd_simps split: if_splits)
    with first ping_first_heap [OF H, of r] show ?thesis by metis
  qed
qed

section \<open>The machines\<close>

definition first_world :: "game_world \<Rightarrow> bool" where
  "first_world w \<longleftrightarrow> first_store (state_store w)"

lemma first_world_frame [simp]:
  "first_world (w\<lparr>signal_queue := q\<rparr>) = first_world w"
  "first_world (w\<lparr>notification_queue := nq\<rparr>) = first_world w"
  "first_world (w\<lparr>user := u\<rparr>) = first_world w"
  "first_world (w\<lparr>now := t\<rparr>) = first_world w"
  by (simp_all add: first_world_def)

lemma first_world_new [simp]: "first_world (world_new t u)"
  using store_new_sound [of game_rex] by (simp add: first_world_def first_store_def store_new_def)

lemma first_on_store [keeps_rules]:
  assumes "keeps first_store P m"
  shows "keeps first_world P (on_store m)"
proof (rule keepsI)
  fix w x w'
  assume "first_world w" and run: "on_store m w = (x, w')"
  moreover obtain y st where "m (state_store w) = (y, st)" by fastforce
  ultimately show "first_world w' \<and> (\<forall>p. x = Panicked p \<longrightarrow> p \<in> P)"
    using keepsD [OF assms] by (fastforce simp: cmd_simps first_world_def)
qed

lemma first_ctx [keeps_rules]:
  "keeps first_world P (signal_to i x)"
  "keeps first_world P (signal_state_change game_rex i s)"
  "keeps first_world P (cancel_timeout game_rex i)"
  by (auto simp: keeps_def ctx_defs cmd_simps split: option.splits)

lemma first_requests [keeps_rules]:
  assumes "InstantOverflow \<in> P"
  shows "keeps first_world P (set_timeout game_rex i d)" and "keeps first_world P (return_in game_rex i v d)"
  using assms
  by (auto simp: keeps_def set_timeout_def return_in_def priority_notify_def cmd_simps
      request_set_timeout_def request_retain_def from_duration_def instant_add_def split: if_splits)

lemma first_ctx_reads [keeps_rules]:
  assumes "NilId \<in> P"
  shows "keeps first_world P (ctx_get_state i)" and "keeps first_world P (ctx_get_parent_id i)"
  unfolding ctx_get_state_def ctx_get_parent_id_def by (intro keeps_rules assms)+

lemma first_fail_complete [keeps_rules]:
  assumes "{NilId, MissingSmTree} \<subseteq> P"
  shows "keeps first_world P (sm_fail game_rex i)" and "keeps first_world P (sm_complete game_rex i)"
proof -
  have "keeps first_world P (update_state_and_signal game_rex i s)" if "kind_of game_rex s = kind i" for s
  proof -
    have "keeps first_world P (case p of Some p \<Rightarrow> seqc (signal_state_change game_rex p s) (ret (Some p))
        | None \<Rightarrow> ret None)" for p
      by (cases p) (auto intro: keeps_rules)
    with first_update(2) [OF that assms] show ?thesis
      unfolding update_state_and_signal_def by (intro keeps_rules)
  qed
  then show "keeps first_world P (sm_fail game_rex i)" and "keeps first_world P (sm_complete game_rex i)"
    unfolding sm_fail_def sm_complete_def
    by (simp_all add: lawful_kind.kind_of_failed [OF game_kind.lawful_kind_axioms, simplified]
        lawful_kind.kind_of_completed [OF game_kind.lawful_kind_axioms, simplified])
qed

lemma first_fail_tree [keeps_rules]: "keeps first_world P (fail_tree r)"
proof (rule keepsI)
  fix w x w'
  assume w: "first_world w" and run: "fail_tree r w = (x, w')"
  have "store_sound game_rex (state_store w)" and H: "\<forall>n \<in> set (heap (state_store w)). ping_first n"
    using w by (simp_all add: first_world_def first_store_def)
  then have "game_sound w" by (simp add: world_sound_def)
  from keepsD [OF fail_tree_keeps this run] have "game_sound w'" "\<And>p. x = Panicked p \<Longrightarrow> p \<in> P" by blast+
  moreover have "\<forall>n \<in> set (heap (state_store w')). ping_first n"
    using run H ping_first_heap [OF H, of r "map_states fail_state (heap (state_store w) ! r)"]
    by (auto simp: fail_tree_apply ping_first_map_states)
  ultimately show "first_world w' \<and> (\<forall>p. x = Panicked p \<longrightarrow> p \<in> P)"
    by (auto simp: first_world_def first_store_def world_sound_def)
qed

lemma first_menu:
  assumes "kind i = Menu"
  shows "keeps first_world game_panics (menu_process i x)"
proof -
  have two: "keeps first_world P (seqc (on_store (new_child game_rex i c)) (seqc (on_store (new_child game_rex i c')) m))"
    if "kind c = Ping" "keeps first_world P m" "{NilId, UnwrapNone} \<subseteq> P" for c c' m P
  proof -
    have "seqc (on_store (new_child game_rex i c)) (seqc (on_store (new_child game_rex i c')) m) =
        seqc (on_store (seqc (new_child game_rex i c) (new_child game_rex i c'))) m"
      by (rule ext) (auto simp: cmd_simps split: prod.splits outcome.splits)
    with first_two_children [of c i P c'] that assms show ?thesis by (auto intro!: keeps_rules)
  qed
  have rand: "keeps first_world P (bindc (game_new_rand k) f)"
    if "\<And>j. kind j = k \<Longrightarrow> keeps first_world P (f j)" for k P f
  proof (rule keepsI)
    fix w y w'
    assume w: "first_world w" and run: "bindc (game_new_rand k) f w = (y, w')"
    let ?j = "state_id_new_rand k (v4s (user w) (v4_next (user w)))"
    let ?w = "w\<lparr>user := (user w)\<lparr>v4_next := Suc (v4_next (user w))\<rparr>\<rparr>"
    have "f ?j ?w = (y, w')" using run by (simp add: game_new_rand_def cmd_simps)
    moreover have "kind ?j = k" by (simp add: state_id_new_rand_def state_id_new_def)
    ultimately show "first_world w' \<and> (\<forall>p. y = Panicked p \<longrightarrow> p \<in> P)"
      using keepsD [OF that, of ?j ?w y w'] w by auto
  qed
  have play: "keeps first_world game_panics (bindc (game_new_rand Ping) (\<lambda>ping_id.
      bindc (game_new_rand Pong) (\<lambda>pong_id.
      seqc (on_store (create_tree game_rex i))
      (seqc (on_store (new_child game_rex i ping_id))
      (seqc (on_store (new_child game_rex i pong_id))
        (signal_to ping_id (Input_Ping (StartSending pong_id who))))))))" for who
    by (rule rand, rule rand, rule keeps_seqc)
      (auto intro!: two first_ctx first_on_store first_create_tree simp: game_panics_def)
  show ?thesis
  proof (cases x)
    case (Input_Menu inp)
    show ?thesis
      unfolding menu_process_def Input_Menu game_input.case
    proof (intro keeps_bindc keeps_if keeps_ret first_ctx_reads)
      show "NilId \<in> game_panics" by (simp add: game_panics_def)
    next
      show "keeps first_world game_panics (case inp of
          Play who \<Rightarrow> bindc (game_new_rand Ping) (\<lambda>ping_id.
            bindc (game_new_rand Pong) (\<lambda>pong_id.
            seqc (on_store (create_tree game_rex i))
            (seqc (on_store (new_child game_rex i ping_id))
            (seqc (on_store (new_child game_rex i pong_id))
              (signal_to ping_id (Input_Ping (StartSending pong_id who)))))))
        | PingPongComplete \<Rightarrow> seqc (sm_complete game_rex i) (ret ())
        | failure \<Rightarrow>
            bindc (on_store (get_tree i)) (\<lambda>t.
            bindc (lift_outcome (unwrap UnwrapNone t)) (\<lambda>r.
            seqc (fail_tree r)
              (modifies (\<lambda>w. w\<lparr>user := (user w)\<lparr>failures := (failures (user w))(i \<mapsto> failure)\<rparr>\<rparr>)))))"
        by (cases inp) (simp_all only: menu_input.case play,
          auto intro!: keeps_rules simp: game_panics_def)
    qed
  qed (auto simp: menu_process_def intro: keeps_rules)
qed

lemma first_return_packet [keeps_rules]:
  "kind i \<noteq> Menu \<Longrightarrow> keeps first_world P (return_packet i p)"
  unfolding return_packet_def by (cases "kind i") (simp_all add: Let_def keeps_rules)

lemma first_ping:
  assumes "kind i = Ping"
  shows "keeps first_world game_panics (ping_process i x)"
proof -
  have "keeps first_world game_panics (ping_input_step i y)" for y
    unfolding ping_input_step_def Let_def using assms
    by (cases y) (auto intro!: keeps_rules simp: game_panics_def first_update(1))
  then show ?thesis
    unfolding ping_process_def by (cases x) (auto intro!: keeps_rules simp: game_panics_def)
qed

lemma first_pong:
  assumes "kind i = Pong"
  shows "keeps first_world game_panics (pong_process i x)"
proof -
  have "keeps first_world game_panics (pong_input_step i y)" for y
    unfolding pong_input_step_def Let_def using assms
    by (cases y) (auto intro!: keeps_rules simp: game_panics_def first_update(1))
  then show ?thesis
    unfolding pong_process_def by (cases x) (auto intro!: keeps_rules simp: game_panics_def)
qed

interpretation first_run: keeping_machines game_machines first_world game_panics
proof
  fix i :: "game state_id" and sm :: "(game, game_input, game_world) machine" and x
  assume "game_machines (kind i) = Some sm"
  then show "keeps first_world game_panics (sm_process sm i x)"
    by (cases "kind i") (auto simp: first_menu first_ping first_pong)
qed simp_all

lemma step_first:
  assumes "sys_machines P = game_machines" and "sys_step I P s e s'" and "first_world (sys_world s)"
  shows "first_world (sys_world s')"
proof (cases "\<exists>t. e = Manager_turn t")
  case True
  then obtain t where "sys_step I P s (Manager_turn t) s'" using assms(2) by blast
  then show ?thesis
  proof (rule manager_turnE)
    fix st rx w
    assume "s' = s\<lparr>sys_world := w, manager_rx := rx, manager_task := task_after st (signal_queue w)\<rparr>"
      and step: "manager_step (sys_machines P) manager_waker (manager_rx s) ((sys_world s)\<lparr>now := t\<rparr>) = (st, rx, w)"
    with first_run.step_keeps [OF _ step [unfolded assms(1)]] assms(3) show ?thesis by simp
  qed
next
  case False
  with step_store [OF assms(2)] assms(3) show ?thesis by (simp add: first_world_def)
qed

interpretation first_kept:
  kept_by_steps I P "\<lambda>s. sys_machines P = game_machines \<longrightarrow> first_world (sys_world s)" for I P
  by unfold_locales (auto intro: step_first)

section \<open>What is found under a menu\<close>

text \<open>
  A store that holds a menu with one ping and one pong, and their tree: the root, its ping, its
  pong.
\<close>

lemma children_of_menu:
  fixes n :: "(game, 's) state_node"
  assumes "tree_wf n" and "ping_first n"
    and "states n = [menu \<mapsto> a, ping \<mapsto> b, pong \<mapsto> c]" and "parents n = [ping \<mapsto> menu, pong \<mapsto> menu]"
    and "kind menu = Menu" and "kind ping = Ping" and "kind pong = Pong"
  shows "node_id n = menu \<and> map node_id (children n) = [ping, pong] \<and>
    node_state n = a \<and> map node_state (children n) = [b, c]"
proof -
  obtain r s d cs where n: "n = Node r s d cs" by (cases n)
  have ids: "set (ids n) = {menu, ping, pong}" using assms(3) dom_states [of n] by auto
  have ne: "menu \<noteq> ping" "menu \<noteq> pong" "ping \<noteq> pong" using assms(5-7) by auto
  have d: "distinct (ids n)" using assms(1) by (simp add: tree_wf_def)
  have keys: "fst ` set (parent_pairs n) = {ping, pong}"
    using arg_cong [OF assms(4), of dom] by (auto simp: parents_def dom_map_of_conv_image_fst)
  have "set (map fst (parent_pairs n)) = set (concat (map ids cs))"
    using arg_cong [OF parent_keys [of n], of set_mset] n by simp
  then have below: "set (concat (map ids cs)) = {ping, pong}" using keys by simp
  then have r: "r = menu" using ids d n by (auto simp: ids_Node)
  have pair: "(x, menu) \<in> set (parent_pairs n)" if "x \<in> {ping, pong}" for x
    using that assms(4) by (auto simp: parents_def intro!: map_of_SomeD)
  have "x \<in> node_id ` set cs" if x: "x \<in> {ping, pong}" for x
  proof (rule ccontr)
    assume "x \<notin> node_id ` set cs"
    then obtain c where c: "c \<in> set cs" "(x, menu) \<in> set (parent_pairs c)"
      using pair [OF x] n r by auto
    then have "menu \<in> set (ids c)" using parent_in_tree by fast
    then show False using c(1) below ne by auto
  qed
  moreover have "node_id ` set cs \<subseteq> {ping, pong}" using below node_id_in_ids by fastforce
  ultimately have set: "set (map node_id cs) = {ping, pong}" by auto
  have "distinct (concat (map ids ds)) \<Longrightarrow> distinct (map node_id ds)" for ds :: "(game, 's) state_node list"
  proof (induction ds)
    case (Cons m ds)
    have "node_id m \<noteq> node_id k" if "k \<in> set ds" for k
    proof
      assume "node_id m = node_id k"
      then have "node_id m \<in> set (ids m) \<inter> (\<Union>k \<in> set ds. set (ids k))"
        using node_id_in_ids [of m] node_id_in_ids [of k] that by auto
      with Cons.prems show False by simp
    qed
    with Cons show ?case by auto
  qed simp
  then have "distinct (map node_id cs)" using d n by (simp add: ids_Node)
  then have "map node_id cs = [ping, pong] \<or> map node_id cs = [pong, ping]"
    using set ne by (rule_tac distinct_two) auto
  then have cs: "map node_id cs = [ping, pong]"
    using assms(2,6,7) n by auto
  have state: "states n (node_id m) = Some (node_state m)" if "m = n \<or> m \<in> set cs" for m
  proof -
    have "(node_id m, node_state m) \<in> set (entries m)" by (cases m) simp
    then have "(node_id m, node_state m) \<in> set (entries n)" using that n by auto
    with d show ?thesis by (simp add: states_def ids_def)
  qed
  from cs obtain x y where xy: "cs = [x, y]" "node_id x = ping" "node_id y = pong" by auto
  have "node_state n = a" "node_state x = b" "node_state y = c"
    using state [of n] state [of x] state [of y] xy ne assms(3) r n by auto
  with cs xy r n show ?thesis by simp
qed

end
