(* ===== verification/Rex_Test_Game.thy ===== *)
theory Rex_Test_Game
  imports Rex_Siblings Rex_Pong_Timeout Rex_Ping_Timeout
begin

text \<open>
  The assertions of the three tests of \<open>src/manager.rs\<close>, on the world the runs leave behind: they
  look for the players by their place under the menu.
\<close>

section \<open>What the tests look at\<close>

definition vec_get :: "'a list \<Rightarrow> nat \<Rightarrow> 'a outcome" where
  "vec_get xs i = (if i < length xs then Returned (xs ! i) else Panicked IndexOutOfBounds)"

text \<open>\<open>get_tree(id).unwrap()\<close>, the lock, and a look at the tree.\<close>

definition look :: "game state_id \<Rightarrow> ((game, game_state) state_node \<Rightarrow> 'a outcome) \<Rightarrow> (game_world, 'a) cmd" where
  "look i f = on_store
     (bindc (get_tree i) (\<lambda>tree.
      bindc (lift_outcome (unwrap UnwrapNone tree)) (\<lambda>r.
        locked r (\<lambda>node. (f node, node)))))"

definition state_at :: "game state_id \<Rightarrow> (game_world, game_state) cmd" where
  "state_at i = look i (\<lambda>node. map_outcome_to (unwrap UnwrapNone) (get_state node i))"

definition two_children :: "(game, game_state) state_node \<Rightarrow>
    ((game, game_state) state_node \<times> (game, game_state) state_node) outcome" where
  "two_children node = map_outcome_to (\<lambda>ping. map_outcome_to (\<lambda>pong. Returned (ping, pong))
     (vec_get (children node) 1)) (vec_get (children node) 0)"

text \<open>The results: what each assertion compares, in order.\<close>

definition state_machine_asserts ::
  "game state_id \<Rightarrow> (game_world, game state_id \<times> game_state \<times> game_state \<times> game_state) cmd" where
  "state_machine_asserts menu =
     bindc (look menu (\<lambda>node. map_outcome_to (\<lambda>(ping, pong).
       Returned (node_id ping, node_id pong, node_id node, node_state node)) (two_children node)))
     (\<lambda>(i1, i2, i, s).
       bindc (state_at i1) (\<lambda>ping_state.
       bindc (state_at i2) (\<lambda>pong_state.
         ret (i, s, ping_state, pong_state))))"

definition timeout_asserts ::
  "game state_id \<Rightarrow> (game_world, (game state_id \<times> game_state \<times> game_state \<times> game_state) \<times> menu_input) cmd" where
  "timeout_asserts menu =
     bindc (look menu (\<lambda>node. map_outcome_to (\<lambda>(ping, pong).
       Returned (node_id node, node_state node, node_state ping, node_state pong)) (two_children node)))
     (\<lambda>states.
       bindc (gets (\<lambda>w. failures (user w) menu)) (\<lambda>failure.
       bindc (lift_outcome (unwrap UnwrapNone failure)) (\<lambda>failure.
         ret (states, failure))))"

text \<open>The assertions of \<open>ping_timeout\<close> compare the same things.\<close>

definition ping_timeout_asserts ::
  "game state_id \<Rightarrow> (game_world, (game state_id \<times> game_state \<times> game_state \<times> game_state) \<times> menu_input) cmd" where
  "ping_timeout_asserts menu =
     bindc (look menu (\<lambda>node. map_outcome_to (\<lambda>(ping_node, pong_node).
       Returned (node_id node, node_state node, node_state ping_node, node_state pong_node)) (two_children node)))
     (\<lambda>states.
       bindc (gets (\<lambda>w. failures (user w) menu)) (\<lambda>failure.
       bindc (lift_outcome (unwrap UnwrapNone failure)) (\<lambda>failure.
         ret (states, failure))))"

lemma ping_asserts: "ping_timeout_asserts = timeout_asserts"
  by (simp add: fun_eq_iff ping_timeout_asserts_def timeout_asserts_def)

section \<open>The tree of a menu\<close>

lemma menu_tree:
  assumes "world_wf w" and "first_world w" and "world_states w = board m u v ms ps qs"
    and "world_parents w = parents_of m u v"
  obtains r x y where "trees (state_store w) (menu_id m) = Some r"
    and "trees (state_store w) (ping_id u) = Some r" and "trees (state_store w) (pong_id v) = Some r"
    and "r < length (heap (state_store w))" and "tree_wf (heap (state_store w) ! r)"
    and "states (heap (state_store w) ! r) = board m u v ms ps qs"
    and "node_id (heap (state_store w) ! r) = menu_id m" and "node_state (heap (state_store w) ! r) = State_Menu ms"
    and "children (heap (state_store w) ! r) = [x, y]"
    and "node_id x = ping_id u" "node_id y = pong_id v" "node_state x = State_Ping ps" "node_state y = State_Pong qs"
proof -
  let ?st = "state_store w"
  have wf: "store_wf ?st" using assms(1) by (simp add: world_wf_def)
  have "menu_id m \<in> dom (world_states w)" by (simp add: assms(3) domIff)
  from store_wf_dom [OF wf this] obtain r where r: "trees ?st (menu_id m) = Some r" "r < length (heap ?st)"
    "tree_wf (heap ?st ! r)" by blast
  let ?n = "heap ?st ! r"
  have t: "trees ?st (ping_id u) = Some r" "trees ?st (pong_id v) = Some r"
    using forest_parent_tree [OF wf, of "ping_id u" "menu_id m"] forest_parent_tree [OF wf, of "pong_id v" "menu_id m"]
      r(1) assms(4) by simp_all
  have in_n: "trees ?st i = Some r \<longleftrightarrow> i \<in> set (ids ?n)" for i
    using wf r(2) by (auto simp: store_wf_def dom_states)
  have S: "states ?n i = board m u v ms ps qs i" for i
  proof (cases "i \<in> set (ids ?n)")
    case True
    then have "trees ?st i = Some r" using in_n by simp
    then show ?thesis using fun_cong [OF assms(3), of i] by (simp add: forest_states_def)
  next
    case False
    then have "states ?n i = None" using dom_states [of ?n] by (auto simp: domIff)
    moreover have "i \<noteq> menu_id m" "i \<noteq> ping_id u" "i \<noteq> pong_id v" using False in_n r(1) t by auto
    ultimately show ?thesis by (simp add: board_def)
  qed
  have Q: "parents ?n i = parents_of m u v i" for i
  proof (cases "i \<in> set (ids ?n)")
    case True
    then have "trees ?st i = Some r" using in_n by simp
    then show ?thesis using fun_cong [OF assms(4), of i] by (simp add: forest_parents_def)
  next
    case False
    then have "parents ?n i = None"
      using ids_children [of ?n] by (auto simp: parents_def map_of_eq_None_iff dest: parent_pairs_ids)
    moreover have "i \<noteq> ping_id u" "i \<noteq> pong_id v" using False in_n t by auto
    ultimately show ?thesis by (simp add: parents_of_def)
  qed
  have "ping_first ?n" using assms(2) r(2) by (simp add: first_world_def first_store_def)
  from children_of_menu [OF r(3) this, of "menu_id m" "State_Menu ms" "ping_id u" "State_Ping ps" "pong_id v"
      "State_Pong qs"] S Q
  have "node_id ?n = menu_id m \<and> map node_id (children ?n) = [ping_id u, pong_id v] \<and>
      node_state ?n = State_Menu ms \<and> map node_state (children ?n) = [State_Ping ps, State_Pong qs]"
    by (auto simp: fun_eq_iff board_def parents_of_def)
  moreover from this obtain x y where "children ?n = [x, y]" by (auto simp: map_eq_Cons_conv)
  ultimately show thesis using S r t by (intro that [of r x y]) (auto simp: fun_eq_iff)
qed

lemma look_at:
  assumes "trees (state_store w) i = Some r" and "r < length (heap (state_store w))" and "\<not> is_nil i"
  shows "look i f w = (f (heap (state_store w) ! r), w)"
  using assms by (simp add: look_def get_tree_def cmd_simps locked_read)

lemma asserts_see:
  assumes "world_wf w" and "first_world w" and "world_states w = board m u v ms ps qs"
    and "world_parents w = parents_of m u v" and "m \<noteq> 0" and "u \<noteq> 0" and "v \<noteq> 0"
  shows "fst (state_machine_asserts (menu_id m) w) = Returned (menu_id m, State_Menu ms, State_Ping ps, State_Pong qs)"
    and "failures (user w) (menu_id m) = Some x \<Longrightarrow>
      fst (timeout_asserts (menu_id m) w) =
        Returned ((menu_id m, State_Menu ms, State_Ping ps, State_Pong qs), x)"
proof -
  from menu_tree [OF assms(1-4)] obtain r x' y where
    n: "trees (state_store w) (menu_id m) = Some r"
      "trees (state_store w) (ping_id u) = Some r" "trees (state_store w) (pong_id v) = Some r"
      "r < length (heap (state_store w))" "tree_wf (heap (state_store w) ! r)"
      "states (heap (state_store w) ! r) = board m u v ms ps qs"
      "node_id (heap (state_store w) ! r) = menu_id m" "node_state (heap (state_store w) ! r) = State_Menu ms"
      "children (heap (state_store w) ! r) = [x', y]"
      "node_id x' = ping_id u" "node_id y = pong_id v" "node_state x' = State_Ping ps" "node_state y = State_Pong qs"
    by metis
  have "fst (state_at i w) = (case board m u v ms ps qs i of None \<Rightarrow> Panicked UnwrapNone | Some s \<Rightarrow> Returned s) \<and>
      snd (state_at i w) = w"
    if "trees (state_store w) i = Some r" "\<not> is_nil i" for i
    using n(5,6)
    by (auto simp: look_at [OF that(1) n(4) that(2)] state_at_def get_state_states unwrap_def split: option.split)
  from this [of "ping_id u"] this [of "pong_id v"] n(2,3) assms(6,7)
  have "state_at (ping_id u) w = (Returned (State_Ping ps), w)" "state_at (pong_id v) w = (Returned (State_Pong qs), w)"
    by (auto simp: is_nil_def intro!: prod_eqI)
  moreover have "two_children (heap (state_store w) ! r) = Returned (x', y)"
    by (simp add: two_children_def vec_get_def n)
  moreover have "\<not> is_nil (menu_id m)" using assms(5) by (simp add: is_nil_def)
  ultimately show "fst (state_machine_asserts (menu_id m) w) = Returned (menu_id m, State_Menu ms, State_Ping ps, State_Pong qs)"
    and "failures (user w) (menu_id m) = Some x \<Longrightarrow> fst (timeout_asserts (menu_id m) w) =
        Returned ((menu_id m, State_Menu ms, State_Ping ps, State_Pong qs), x)"
    by (simp_all add: look_at [OF n(1,4)] state_machine_asserts_def timeout_asserts_def cmd_simps n)
qed

section \<open>The tests pass\<close>

lemma paced_first:
  "paced P g s0 es s l \<Longrightarrow> sys_machines P = game_machines \<Longrightarrow> first_world (sys_world s0) \<Longrightarrow>
   first_world (sys_world s)"
  by (induction rule: paced.induct) (auto intro: step_first)

lemma first_game_start: "first_world (game_start t vs i who)"
  by (simp add: game_start_def signal_to_def cmd_simps)

text \<open>
  The test state_machine passes: whoever looks for the players under the menu, when the manager
  has nothing left to do, finds menu, ping and pong Done.
\<close>

theorem state_machine_passes:
  assumes "m \<noteq> 0" and "vs 0 \<noteq> 0" and "vs 1 \<noteq> 0"
    and "\<forall>t \<in> set ts. t + 11000000 < instant_limit" and "10 \<le> length ts"
  shows "\<exists>rx w. manager_run game_machines wk ts rx0 (game_start t vs \<lparr>kind = Menu, uuid = m\<rparr> None) = (Waiting, rx, w) \<and>
    fst (state_machine_asserts \<lparr>kind = Menu, uuid = m\<rparr> w) = Returned (\<lparr>kind = Menu, uuid = m\<rparr>,
      State_Menu Menu_Done, State_Ping Ping_Done, State_Pong Pong_Done)"
proof -
  from game_completes_view [OF assms(1-3) _ _ assms(4,5), of None wk rx0 t] obtain rx w N t' usr where
    run: "manager_run game_machines wk ts rx0 (game_start t vs (menu_id m) None) = (Waiting, rx, w)"
    and w: "shows_view w (in_play m (vs 0) (vs 1) Menu_Done Ping_Done Pong_Done [] N t' usr)" by auto
  have "first_world w" using first_run.run_keeps [OF first_game_start run] by blast
  with asserts_see(1) [of w m "vs 0" "vs 1" Menu_Done Ping_Done Pong_Done] shows_viewD(1-3) [OF w] assms(1-3) run
  show ?thesis by auto
qed

lemma lost_asserts:
  assumes "shows_duel s b T" and "lost m (vs 0) (vs 1) x b" and "idle s" and "first_world (sys_world s)"
    and "m \<noteq> 0" and "vs 0 \<noteq> 0" and "vs 1 \<noteq> 0"
  shows "fst (timeout_asserts (menu_id m) (sys_world s)) =
    Returned ((menu_id m, State_Menu Menu_Failed, State_Ping Ping_Failed, State_Pong Pong_Failed), x)"
proof -
  from lost_idle [OF assms(2,1,3)] obtain t usr where
    b: "b = any_view m (vs 0) (vs 1) Menu_Failed Ping_Failed Pong_Failed [] [] t usr"
    and f: "failures usr (menu_id m) = Some x" .
  from assms(1) obtain N where "shows_view (sys_world s) (b\<lparr>v_urgent := N\<rparr>)" by (rule shows_duelE)
  then have "world_wf (sys_world s)" "user (sys_world s) = usr"
    "world_states (sys_world s) = board m (vs 0) (vs 1) Menu_Failed Ping_Failed Pong_Failed"
    "world_parents (sys_world s) = parents_of m (vs 0) (vs 1)"
    by (simp_all add: b shows_view_iff any_view_def)
  with asserts_see(2) [OF _ assms(4)] f assms(5-7) show ?thesis by simp
qed

text \<open>
  The tests pong_timeout and ping_timeout pass, under the conditions of their claims, as far as
  their assertions: the first child of the menu is ping and the second pong, all are Failed, and
  the failure on record is that of the player that was kept waiting.
\<close>

theorem pong_timeout_passes:
  assumes "pong_timeout_test t0 vs m = Returned (P, s0)" and "paced P g s0 es s l"
    and "m \<noteq> 0" and "vs 0 \<noteq> 0" and "vs 1 \<noteq> 0" and "now (sys_world s) + 20000000 < instant_limit"
    and "idle s" and "t0 + 3 * g + 21000000 < l"
  shows "fst (timeout_asserts \<lparr>kind = Menu, uuid = m\<rparr> (sys_world s)) = Returned ((\<lparr>kind = Menu, uuid = m\<rparr>,
    State_Menu Menu_Failed, State_Ping Ping_Failed, State_Pong Pong_Failed), FailedPong)"
proof -
  have run: "build 0 duel_builder = Returned P"
    "paced P g (spawned (game_start t0 vs \<lparr>kind = Menu, uuid = m\<rparr> (Some Ping))) es s l"
    using assms(1,2) by (simp_all add: timeout_tests duel_build)
  then have "P = duel_program" using duel_build by simp
  then have "first_world (sys_world s)"
    using paced_first [OF run(2)] first_game_start by (simp add: spawned_def)
  moreover from pong_timeout_lost [OF run assms(3-)] obtain b T where
    "shows_duel s b T" "lost m (vs 0) (vs 1) FailedPong b" by blast
  ultimately show ?thesis using lost_asserts assms(3-5,7) by blast
qed

theorem ping_timeout_passes:
  assumes "ping_timeout_test t0 vs m = Returned (P, s0)" and "paced P g s0 es s l"
    and "m \<noteq> 0" and "vs 0 \<noteq> 0" and "vs 1 \<noteq> 0" and "now (sys_world s) + 20000000 < instant_limit"
    and "idle s" and "t0 + 3 * g + 16000000 < l" and "g \<le> 6000000"
  shows "fst (ping_timeout_asserts \<lparr>kind = Menu, uuid = m\<rparr> (sys_world s)) = Returned ((\<lparr>kind = Menu, uuid = m\<rparr>,
    State_Menu Menu_Failed, State_Ping Ping_Failed, State_Pong Pong_Failed), FailedPing)"
proof -
  have run: "build 0 duel_builder = Returned P"
    "paced P g (spawned (game_start t0 vs \<lparr>kind = Menu, uuid = m\<rparr> (Some Pong))) es s l"
    using assms(1,2) by (simp_all add: timeout_tests duel_build)
  then have "P = duel_program" using duel_build by simp
  then have "first_world (sys_world s)"
    using paced_first [OF run(2)] first_game_start by (simp add: spawned_def)
  moreover from ping_timeout_lost [OF run assms(3-)] obtain b T where
    "shows_duel s b T" "lost m (vs 0) (vs 1) FailedPing b" by blast
  ultimately show ?thesis using lost_asserts [folded ping_asserts] assms(3-5,7) by blast
qed

end
