(* ===== verification/Rex_Format.thy ===== *)
theory Rex_Format
  imports Rex_Ids
begin

text \<open>
  \<open>hms_string\<close> of \<open>src/timeout.rs\<close>, which prints a duration for the log. Decimal numbers are
  written as Rust's \<open>format!\<close> does: without leading zeros, or with \<open>{:02}\<close> to at least two
  digits.
\<close>

section \<open>Printing\<close>

definition digit_char :: "nat \<Rightarrow> char" where
  "digit_char n = char_of (48 + n)"

fun dec_string :: "nat \<Rightarrow> string" where
  "dec_string n = (if n < 10 then [digit_char n] else dec_string (n div 10) @ [digit_char (n mod 10)])"

declare dec_string.simps [simp del]

definition dec2_string :: "nat \<Rightarrow> string" where
  "dec2_string n = (if n < 10 then digit_char 0 # dec_string n else dec_string n)"

definition hms_string :: "duration \<Rightarrow> string" where
  "hms_string d =
     (if secs d = 0 \<and> nanos d = 0 then ''ZERO''
      else let s = unat (secs d); ms = subsec_millis d in
        if s = 0 then dec_string ms @ ''ms''
        else let h = s div 3600; s1 = s mod 3600; m = s1 div 60; s2 = s1 mod 60 in
          (if h \<noteq> 0 then dec2_string h @ ''H'' else []) @
          (if m \<noteq> 0 then dec2_string m @ ''m'' else []) @
          dec2_string s2 @ ''s'')"

section \<open>Reading it back\<close>

definition hms_read :: "nat \<times> nat \<Rightarrow> char \<Rightarrow> nat \<times> nat" where
  "hms_read = (\<lambda>(acc, num) c.
     if c = CHR ''H'' then (acc + num * 3600, 0)
     else if c = CHR ''m'' then (acc + num * 60, 0)
     else if c = CHR ''s'' then (acc + num, 0)
     else (acc, num * 10 + (of_char c - 48)))"

definition hms_value :: "string \<Rightarrow> nat" where
  "hms_value cs = fst (foldl hms_read (0, 0) cs)"

lemma of_digit_char: "n < 10 \<Longrightarrow> (of_char (digit_char n) :: nat) = 48 + n"
  by (simp add: digit_char_def)

lemma digit_char_unit:
  assumes "n < 10"
  shows "digit_char n \<noteq> CHR ''H''" and "digit_char n \<noteq> CHR ''m''" and "digit_char n \<noteq> CHR ''s''"
  using assms by (auto simp: dest!: arg_cong [where f = "of_char :: char \<Rightarrow> nat"] simp: of_digit_char)

lemma read_digit: "n < 10 \<Longrightarrow> hms_read (acc, num) (digit_char n) = (acc, num * 10 + n)"
  by (simp add: hms_read_def digit_char_unit of_digit_char)

lemma read_dec: "foldl hms_read (acc, 0) (dec_string n) = (acc, n)"
proof (induction n rule: dec_string.induct)
  case (1 n)
  then show ?case by (subst dec_string.simps) (simp add: read_digit)
qed

lemma read_dec2: "foldl hms_read (acc, 0) (dec2_string n) = (acc, n)"
  by (simp add: dec2_string_def read_digit read_dec)

lemma read_unit:
  "hms_read (acc, num) (CHR ''H'') = (acc + num * 3600, 0)"
  "hms_read (acc, num) (CHR ''m'') = (acc + num * 60, 0)"
  "hms_read (acc, num) (CHR ''s'') = (acc + num, 0)"
  by (simp_all add: hms_read_def)

lemma dec_no_unit: "CHR ''m'' \<notin> set (dec_string n)"
proof (induction n rule: dec_string.induct)
  case (1 n)
  have "digit_char k \<noteq> CHR ''m''" if "k < 10" for k using that by (rule digit_char_unit(2))
  from this [of n] this [of "n mod 10"] 1 show ?case
    by (subst dec_string.simps) (cases "n < 10"; simp add: eq_commute [of _ "CHR ''m''"])
qed

lemma dec2_no_unit: "CHR ''m'' \<notin> set (dec2_string n)"
  using digit_char_unit(2) [of 0] dec_no_unit by (auto simp: dec2_string_def)

section \<open>Properties\<close>

text \<open>
  C38. For a duration of at least a second, reading the printed hours, minutes and seconds back
  gives the duration's seconds, and the string has a minutes part exactly when the minutes are
  not zero.
\<close>

theorem hms_string_roundtrip:
  assumes "secs d \<noteq> 0"
  shows "hms_value (hms_string d) = unat (secs d) \<and>
    (CHR ''m'' \<in> set (hms_string d) \<longleftrightarrow> unat (secs d) mod 3600 div 60 \<noteq> 0)"
proof -
  let ?s = "unat (secs d)"
  have nz: "?s \<noteq> 0" using assms by (simp add: unat_eq_0)
  have "?s = ?s div 3600 * 3600 + (?s mod 3600 div 60 * 60 + ?s mod 3600 mod 60)" by simp
  then show ?thesis
    using assms nz
    by (auto simp: hms_string_def hms_value_def Let_def read_dec2 read_unit dec2_no_unit)
qed

theorem hms_string_roundtrip_witness:
  "hms_value (hms_string (duration_from_secs 3661)) = 3661"
  using hms_string_roundtrip [of "duration_from_secs 3661"] by (simp add: duration_from_secs_def)

end
