(* ===== verification/Rex_Threads.thy ===== *)
theory Rex_Threads
  imports Rex_Prelude
begin

text \<open>
  Threads with locks, the fine-grained reading of the crate's operations. A thread is the tree of
  what it will do next: take a lock, give one back, or read and change the shared state in one
  step. Several threads of a pool take turns in any order; a thread that asks for a lock another
  one holds, or that it holds itself, waits.
\<close>

named_theorems solo_simps "what threads do when they run alone"
named_theorems guarantee_rules "rules for what each access of a thread guarantees"
named_theorems tidy_rules "rules for the order in which threads take locks"

section \<open>Threads\<close>

datatype ('l, 'w, 'a) thread =
    Halt "'a outcome"
  | Lock 'l "('l, 'w, 'a) thread"
  | Unlock 'l "('l, 'w, 'a) thread"
  | Access "'w \<Rightarrow> 'w" "'w \<Rightarrow> ('l, 'w, 'a) thread"

text \<open>What follows the end of a thread, whether it returned or panicked.\<close>

primrec andthen ::
  "('l, 'w, 'a) thread \<Rightarrow> ('a outcome \<Rightarrow> ('l, 'w, 'b) thread) \<Rightarrow> ('l, 'w, 'b) thread" where
  "andthen (Halt x) f = f x"
| "andthen (Lock l t) f = Lock l (andthen t f)"
| "andthen (Unlock l t) f = Unlock l (andthen t f)"
| "andthen (Access g k) f = Access g (\<lambda>w. andthen (k w) f)"

definition bindt ::
  "('l, 'w, 'a) thread \<Rightarrow> ('a \<Rightarrow> ('l, 'w, 'b) thread) \<Rightarrow> ('l, 'w, 'b) thread" where
  "bindt t f = andthen t (\<lambda>x. case x of Returned v \<Rightarrow> f v | Panicked p \<Rightarrow> Halt (Panicked p))"

definition seqt ::
  "('l, 'w, 'a) thread \<Rightarrow> ('l, 'w, 'b) thread \<Rightarrow> ('l, 'w, 'b) thread" where
  "seqt t u = bindt t (\<lambda>_. u)"

abbreviation returns :: "'a \<Rightarrow> ('l, 'w, 'a) thread" where
  "returns x \<equiv> Halt (Returned x)"

text \<open>A guard is released when its scope ends, by a return or by a panic.\<close>

definition with_lock :: "'l \<Rightarrow> ('l, 'w, 'a) thread \<Rightarrow> ('l, 'w, 'a) thread" where
  "with_lock l t = Lock l (andthen t (\<lambda>x. Unlock l (Halt x)))"

text \<open>A command whose accesses cannot be seen separately.\<close>

definition atomic :: "('w, 'a) cmd \<Rightarrow> ('l, 'w, 'a) thread" where
  "atomic m = Access (\<lambda>w. snd (m w)) (\<lambda>w. Halt (fst (m w)))"

definition assert_t :: "panic \<Rightarrow> bool \<Rightarrow> ('l, 'w, unit) thread" where
  "assert_t p b = (if b then returns () else Halt (Panicked p))"

fun traverse_t :: "('a \<Rightarrow> ('l, 'w, 'b) thread) \<Rightarrow> 'a list \<Rightarrow> ('l, 'w, 'b list) thread" where
  "traverse_t f [] = returns []"
| "traverse_t f (x # xs) = bindt (f x) (\<lambda>y. bindt (traverse_t f xs) (\<lambda>ys. returns (y # ys)))"

lemma traverse_t_cong [fundef_cong]:
  assumes "xs = ys" and "\<And>x. x \<in> set ys \<Longrightarrow> f x = g x"
  shows "traverse_t f xs = traverse_t g ys"
  using assms(2) unfolding assms(1) by (induction ys) simp_all

text \<open>A \<open>for\<close> loop.\<close>

primrec each_t :: "('a \<Rightarrow> ('l, 'w, unit) thread) \<Rightarrow> 'a list \<Rightarrow> ('l, 'w, unit) thread" where
  "each_t f [] = returns ()"
| "each_t f (x # xs) = seqt (f x) (each_t f xs)"

text \<open>The same thread on a part of a larger state.\<close>

primrec hoist ::
  "('v \<Rightarrow> 'w) \<Rightarrow> (('w \<Rightarrow> 'w) \<Rightarrow> 'v \<Rightarrow> 'v) \<Rightarrow> ('l, 'w, 'a) thread \<Rightarrow> ('l, 'v, 'a) thread" where
  "hoist get upd (Halt x) = Halt x"
| "hoist get upd (Lock l t) = Lock l (hoist get upd t)"
| "hoist get upd (Unlock l t) = Unlock l (hoist get upd t)"
| "hoist get upd (Access g k) = Access (upd g) (\<lambda>v. hoist get upd (k (get v)))"

section \<open>A thread that runs alone\<close>

text \<open>The effect of a thread when nothing else runs, its locks all being free.\<close>

primrec solo :: "('l, 'w, 'a) thread \<Rightarrow> ('w, 'a) cmd" where
  "solo (Halt x) = (\<lambda>w. (x, w))"
| "solo (Lock l t) = solo t"
| "solo (Unlock l t) = solo t"
| "solo (Access g k) = (\<lambda>w. solo (k w) (g w))"

lemma solo_andthen: "solo (andthen t f) w = (case solo t w of (x, w') \<Rightarrow> solo (f x) w')"
  by (induction t arbitrary: w) simp_all

lemma solo_bindt [solo_simps]: "solo (bindt t f) = bindc (solo t) (\<lambda>x. solo (f x))"
  by (auto simp: bindt_def solo_andthen bindc_def fun_eq_iff split: prod.splits outcome.splits)

lemma solo_seqt [solo_simps]: "solo (seqt t u) = seqc (solo t) (solo u)"
  by (simp add: seqt_def seqc_def solo_bindt)

lemma solo_with_lock [solo_simps]: "solo (with_lock l t) = solo t"
  by (simp add: with_lock_def solo_andthen fun_eq_iff split: prod.split)

lemma solo_atomic [solo_simps]: "solo (atomic m) = m"
  by (simp add: atomic_def)

lemma solo_Halt [solo_simps]: "solo (Halt x) = lift_outcome x"
  by (simp add: lift_outcome_def)

lemma solo_returns [solo_simps]: "solo (returns x) = ret x"
  by (simp add: ret_def)

lemma solo_assert [solo_simps]: "solo (assert_t p b) = assert_cmd p b"
  by (simp add: assert_t_def assert_cmd_def ret_def panicking_def)

lemma solo_traverse [solo_simps]: "solo (traverse_t f xs) = traverse (\<lambda>x. solo (f x)) xs"
  by (induction xs) (simp_all add: solo_bindt ret_def)

lemma solo_each [solo_simps]: "solo (each_t f xs) = run_cmds (\<lambda>x. solo (f x)) xs"
  by (induction xs) (simp_all add: solo_seqt ret_def)

lemma solo_hoist:
  assumes "\<And>g v. get (upd g v) = g (get v)"
  shows "fst (solo (hoist get upd t) v) = fst (solo t (get v)) \<and>
    get (snd (solo (hoist get upd t) v)) = snd (solo t (get v))"
  by (induction t arbitrary: v) (simp_all add: assms)

lemma andthen_assoc: "andthen (andthen t f) g = andthen t (\<lambda>x. andthen (f x) g)"
  by (induction t) (simp_all add: andthen.simps)

lemma andthen_Halt: "andthen t Halt = t"
  by (induction t) (simp_all add: andthen.simps)

declare solo.simps [simp del] andthen.simps [simp del]

lemma bindt_assoc: "bindt (bindt t f) g = bindt t (\<lambda>x. bindt (f x) g)"
  unfolding bindt_def andthen_assoc
  by (rule arg_cong [where f = "andthen t"]) (auto simp: fun_eq_iff andthen.simps split: outcome.split)

lemma bindt_Halt: "bindt (Halt x) f = (case x of Returned v \<Rightarrow> f v | Panicked p \<Rightarrow> Halt (Panicked p))"
  by (simp add: bindt_def andthen.simps)

section \<open>Pools\<close>

record ('l, 'w, 'a) pool =
  threads :: "('l, 'w, 'a) thread list"
  owner :: "'l \<rightharpoonup> nat"
  shared :: 'w

definition pool_new :: "('l, 'w, 'a) thread list \<Rightarrow> 'w \<Rightarrow> ('l, 'w, 'a) pool" where
  "pool_new ts w = \<lparr>threads = ts, owner = Map.empty, shared = w\<rparr>"

inductive thread_step :: "('l, 'w, 'a) pool \<Rightarrow> nat \<Rightarrow> ('l, 'w, 'a) pool \<Rightarrow> bool" where
  takes: "thread_step s i (s\<lparr>threads := (threads s)[i := t], owner := (owner s)(l \<mapsto> i)\<rparr>)"
    if "i < length (threads s)" and "threads s ! i = Lock l t" and "owner s l = None"
| gives: "thread_step s i (s\<lparr>threads := (threads s)[i := t], owner := (owner s)(l := None)\<rparr>)"
    if "i < length (threads s)" and "threads s ! i = Unlock l t"
| accesses: "thread_step s i (s\<lparr>threads := (threads s)[i := k (shared s)], shared := g (shared s)\<rparr>)"
    if "i < length (threads s)" and "threads s ! i = Access g k"

inductive_cases thread_stepE: "thread_step s i s'"

primrec halted :: "('l, 'w, 'a) thread \<Rightarrow> bool" where
  "halted (Halt x) = True"
| "halted (Lock l t) = False"
| "halted (Unlock l t) = False"
| "halted (Access g k) = False"

definition all_halted :: "('l, 'w, 'a) pool \<Rightarrow> bool" where
  "all_halted s \<longleftrightarrow> (\<forall>t \<in> set (threads s). halted t)"

definition stuck :: "('l, 'w, 'a) pool \<Rightarrow> bool" where
  "stuck s \<longleftrightarrow> \<not> all_halted s \<and> (\<forall>i s'. \<not> thread_step s i s')"

text \<open>Runs in which new threads of a given kind may start at any time.\<close>

inductive reaches :: "(('l, 'w, 'a) thread \<Rightarrow> bool) \<Rightarrow> ('l, 'w, 'a) pool \<Rightarrow> ('l, 'w, 'a) pool \<Rightarrow> bool"
  for P :: "('l, 'w, 'a) thread \<Rightarrow> bool" and s0 :: "('l, 'w, 'a) pool" where
  reaches_refl: "reaches P s0 s0"
| reaches_step: "reaches P s0 s''" if "reaches P s0 s'" and "thread_step s' i s''"
| reaches_spawn: "reaches P s0 (s'\<lparr>threads := threads s' @ [t]\<rparr>)" if "reaches P s0 s'" and "P t"

text \<open>\<open>inevitably Q s\<close>: however the threads of \<open>s\<close> take turns, a state with \<open>Q\<close> comes.\<close>

inductive inevitably :: "(('l, 'w, 'a) pool \<Rightarrow> bool) \<Rightarrow> ('l, 'w, 'a) pool \<Rightarrow> bool"
  for Q :: "('l, 'w, 'a) pool \<Rightarrow> bool" where
  already: "inevitably Q s" if "Q s"
| later: "inevitably Q s" if "thread_step s i s1" and "\<And>j s2. thread_step s j s2 \<Longrightarrow> inevitably Q s2"

lemma inevitably_mono:
  assumes "inevitably Q s" and "\<And>s. Q s \<Longrightarrow> Q' s"
  shows "inevitably Q' s"
  using assms(1) by induction (auto intro: inevitably.intros assms(2))

section \<open>Every run ends\<close>

inductive part_of :: "('l, 'w, 'a) thread \<Rightarrow> ('l, 'w, 'a) thread \<Rightarrow> bool" where
  "part_of t (Lock l t)"
| "part_of t (Unlock l t)"
| "part_of (k w) (Access g k)"

inductive_cases part_ofE:
  "part_of t (Halt x)" "part_of t (Lock l u)" "part_of t (Unlock l u)" "part_of t (Access g k)"

lemma part_of_wfp: "wfp part_of"
proof (rule accp_wfpI, rule allI)
  fix t :: "('a, 'b, 'c) thread"
  show "Wellfounded.accp part_of t"
  proof (induction t)
    case (Halt x)
    show ?case by (rule accpI) (erule part_ofE)
  next
    case (Lock l t)
    then show ?case by - (rule accpI, erule part_ofE, simp)
  next
    case (Unlock l t)
    then show ?case by - (rule accpI, erule part_ofE, simp)
  next
    case (Access g k)
    then show ?case by - (rule accpI, erule part_ofE, simp)
  qed
qed

lemma step_part:
  assumes "thread_step s i s'"
  shows "\<exists>t. i < length (threads s) \<and> threads s' = (threads s)[i := t] \<and> part_of t (threads s ! i)"
  using assms by (cases rule: thread_step.cases) (auto intro: part_of.intros)

lemma step_wf: "wf {(s' :: ('l, 'w, 'a) pool, s). \<exists>i. thread_step s i s'}"
proof (rule wf_subset)
  let ?r = "{(t :: ('l, 'w, 'a) thread, u). part_of t u}"
  show "wf (inv_image (mult ?r) (\<lambda>s. mset (threads s)))"
    using part_of_wfp by (intro wf_inv_image wf_mult) (simp add: wfp_def)
  show "{(s' :: ('l, 'w, 'a) pool, s). \<exists>i. thread_step s i s'} \<subseteq> inv_image (mult ?r) (\<lambda>s. mset (threads s))"
  proof (rule subsetI)
    fix p :: "('l, 'w, 'a) pool \<times> ('l, 'w, 'a) pool"
    assume "p \<in> {(s', s). \<exists>i. thread_step s i s'}"
    then obtain s s' i where p: "p = (s', s)" and "thread_step s i s'" by blast
    then obtain t where t: "i < length (threads s)" "threads s' = (threads s)[i := t]" "part_of t (threads s ! i)"
      using step_part by blast
    let ?M = "mset (threads s) - {#threads s ! i#}"
    have "mset (threads s) = add_mset (threads s ! i) ?M" using t(1) by simp
    moreover have "mset (threads s') = ?M + {#t#}" using t(1,2) by (simp add: mset_update)
    ultimately show "p \<in> inv_image (mult ?r) (\<lambda>s. mset (threads s))"
      unfolding p in_inv_image prod.case using one_step_implies_mult [of "{#threads s ! i#}" "{#t#}" ?r ?M] t(3) by simp
  qed
qed

lemma inevitablyI:
  assumes "I s" and "\<And>s i s'. I s \<Longrightarrow> thread_step s i s' \<Longrightarrow> I s'"
    and "\<And>s. I s \<Longrightarrow> Q s \<or> (\<exists>i s'. thread_step s i s')"
  shows "inevitably Q s"
  using assms(1)
proof (induction s rule: wf_induct_rule [OF step_wf])
  case (1 s)
  show ?case
  proof (cases "Q s")
    case True
    then show ?thesis by (rule already)
  next
    case False
    with assms(3) [OF 1(2)] obtain i s1 where s1: "thread_step s i s1" by blast
    show ?thesis
    proof (rule later [OF s1])
      fix j s2
      assume "thread_step s j s2"
      with assms(2) [OF 1(2) this] 1(1) show "inevitably Q s2" by blast
    qed
  qed
qed

section \<open>Lock order\<close>

text \<open>
  \<open>tidy rank B t H\<close>: holding the locks \<open>H\<close>, the latest first, \<open>t\<close> takes locks only in the
  order of their ranks, gives back the one it took last, and ends holding \<open>B\<close>.
\<close>

primrec tidy :: "('l \<Rightarrow> nat) \<Rightarrow> 'l list \<Rightarrow> ('l, 'w, 'a) thread \<Rightarrow> 'l list \<Rightarrow> bool" where
  "tidy rank B (Halt x) H \<longleftrightarrow> H = B"
| "tidy rank B (Lock l t) H \<longleftrightarrow> (\<forall>h \<in> set H. rank h < rank l) \<and> tidy rank B t (l # H)"
| "tidy rank B (Unlock l t) H \<longleftrightarrow> (\<exists>H'. H = l # H' \<and> tidy rank B t H')"
| "tidy rank B (Access g k) H \<longleftrightarrow> (\<forall>w. tidy rank B (k w) H)"

lemma tidy_Halt [tidy_rules]: "tidy rank B (Halt x) B"
  by simp

lemma tidy_andthen:
  assumes "tidy rank C t H" and "\<And>x. tidy rank B (f x) C"
  shows "tidy rank B (andthen t f) H"
  using assms(1) by (induction t arbitrary: H) (auto simp: andthen.simps assms(2))

lemma tidy_bindt [tidy_rules]:
  "tidy rank B t B \<Longrightarrow> (\<And>x. tidy rank B (f x) B) \<Longrightarrow> tidy rank B (bindt t f) B"
  unfolding bindt_def by (rule tidy_andthen) (auto split: outcome.split)

lemma tidy_seqt [tidy_rules]: "tidy rank B t B \<Longrightarrow> tidy rank B u B \<Longrightarrow> tidy rank B (seqt t u) B"
  unfolding seqt_def by (rule tidy_bindt)

lemma tidy_with_lock [tidy_rules]:
  assumes "\<forall>h \<in> set B. rank h < rank l" and "tidy rank (l # B) t (l # B)"
  shows "tidy rank B (with_lock l t) B"
  using assms(1) tidy_andthen [OF assms(2), where f = "\<lambda>x. Unlock l (Halt x)" and B = B]
  by (simp add: with_lock_def)

lemma tidy_atomic [tidy_rules]: "tidy rank B (atomic m) B"
  by (simp add: atomic_def)

lemma tidy_assert [tidy_rules]: "tidy rank B (assert_t p b) B"
  by (simp add: assert_t_def)

lemma tidy_traverse [tidy_rules]:
  "(\<And>x. x \<in> set xs \<Longrightarrow> tidy rank B (f x) B) \<Longrightarrow> tidy rank B (traverse_t f xs) B"
  by (induction xs) (auto intro!: tidy_bindt)

lemma tidy_each [tidy_rules]:
  "(\<And>x. x \<in> set xs \<Longrightarrow> tidy rank B (f x) B) \<Longrightarrow> tidy rank B (each_t f xs) B"
  by (induction xs) (auto intro!: tidy_seqt)

lemma tidy_hoist [tidy_rules]: "tidy rank B t H \<Longrightarrow> tidy rank B (hoist get upd t) H"
  by (induction t arbitrary: H) auto

lemma tidy_if [tidy_rules]:
  "(b \<Longrightarrow> tidy rank B t H) \<Longrightarrow> (\<not> b \<Longrightarrow> tidy rank B u H) \<Longrightarrow> tidy rank B (if b then t else u) H"
  by simp

text \<open>\<open>holds s H\<close>: thread \<open>i\<close> of \<open>s\<close> holds exactly the locks of the list \<open>H i\<close>.\<close>

definition holds :: "('l, 'w, 'a) pool \<Rightarrow> (nat \<Rightarrow> 'l list) \<Rightarrow> bool" where
  "holds s H \<longleftrightarrow> (\<forall>l i. owner s l = Some i \<longleftrightarrow> i < length (threads s) \<and> l \<in> set (H i))"

definition tidy_pool :: "('l \<Rightarrow> nat) \<Rightarrow> ('l, 'w, 'a) pool \<Rightarrow> bool" where
  "tidy_pool rank s \<longleftrightarrow> (\<exists>H. holds s H \<and> (\<forall>i < length (threads s).
     tidy rank [] (threads s ! i) (H i) \<and> sorted_wrt (\<lambda>a b. rank b < rank a) (H i)))"

lemma tidy_pool_new: "\<forall>t \<in> set ts. tidy rank [] t [] \<Longrightarrow> tidy_pool rank (pool_new ts w)"
  unfolding tidy_pool_def holds_def pool_new_def by (intro exI [of _ "\<lambda>_. []"]) simp

lemma tidy_pool_step:
  assumes "tidy_pool rank s" and "thread_step s i s'"
  shows "tidy_pool rank s'"
proof -
  from assms(1) obtain H where H: "holds s H"
    and T: "\<And>j. j < length (threads s) \<Longrightarrow> tidy rank [] (threads s ! j) (H j)"
    and S: "\<And>j. j < length (threads s) \<Longrightarrow> sorted_wrt (\<lambda>a b. rank b < rank a) (H j)"
    unfolding tidy_pool_def by blast
  show ?thesis
    using assms(2)
  proof (cases rule: thread_step.cases)
    case (takes l t)
    with T [of i] S [of i] have "tidy rank [] t (l # H i)"
      and "sorted_wrt (\<lambda>a b. rank b < rank a) (l # H i)" by auto
    moreover have "l \<notin> set (H j)" if "j < length (threads s)" for j
      using that H takes(4) unfolding holds_def by (metis option.distinct(1))
    ultimately show ?thesis
      unfolding tidy_pool_def using takes H T S
      by (intro exI [of _ "H(i := l # H i)"]) (auto simp: holds_def nth_list_update)
  next
    case (gives l t)
    with T [of i] obtain L where L: "H i = l # L" "tidy rank [] t L" by auto
    with S [of i] gives(2) have "sorted_wrt (\<lambda>a b. rank b < rank a) L" and "l \<notin> set L" by auto
    moreover have "l \<notin> set (H j)" if "j \<noteq> i" "j < length (threads s)" for j
    proof
      assume "l \<in> set (H j)"
      with that H have "owner s l = Some j" by (simp add: holds_def)
      moreover from L gives(2) H have "owner s l = Some i" by (simp add: holds_def)
      ultimately show False using that by simp
    qed
    ultimately show ?thesis
      unfolding tidy_pool_def using gives H T S L
      by (intro exI [of _ "H(i := L)"]) (auto simp: holds_def nth_list_update)
  next
    case (accesses g k)
    with T [of i] have "tidy rank [] (k (shared s)) (H i)" by auto
    then show ?thesis
      unfolding tidy_pool_def using accesses H T S
      by (intro exI [of _ H]) (auto simp: holds_def nth_list_update)
  qed
qed


text \<open>
  Among threads that all wait, one waits for a lock of the highest rank; the holder of that lock
  waits for a lock of a higher rank still.
\<close>

lemma tidy_pool_progress:
  assumes "tidy_pool rank s" and "\<not> all_halted s"
  shows "\<exists>i s'. thread_step s i s'"
proof (rule ccontr)
  assume no: "\<nexists>i s'. thread_step s i s'"
  from assms(1) obtain H where H: "holds s H"
    and T: "\<And>j. j < length (threads s) \<Longrightarrow> tidy rank [] (threads s ! j) (H j)"
    unfolding tidy_pool_def by blast
  have waits: "\<exists>l t. threads s ! j = Lock l t \<and> owner s l \<noteq> None"
    if "j < length (threads s)" "\<not> halted (threads s ! j)" for j
    using that no takes [of j s] by (cases "threads s ! j") (auto intro: thread_step.intros(2,3))
  define W where "W = {l. \<exists>j t. j < length (threads s) \<and> threads s ! j = Lock l t}"
  have "W \<subseteq> (\<lambda>t. SOME l. \<exists>u. t = Lock l u) ` set (threads s)"
  proof
    fix l
    assume "l \<in> W"
    then obtain j t where j: "j < length (threads s)" "threads s ! j = Lock l t" unfolding W_def by blast
    then have "(SOME l'. \<exists>u. threads s ! j = Lock l' u) = l" by auto
    with j(1) show "l \<in> (\<lambda>t. SOME l. \<exists>u. t = Lock l u) ` set (threads s)"
      by (intro image_eqI [of _ _ "threads s ! j"]) simp_all
  qed
  then have "finite W" by (rule finite_subset) simp
  moreover from assms(2) obtain j where j: "j < length (threads s)" "\<not> halted (threads s ! j)"
    by (auto simp: all_halted_def in_set_conv_nth)
  then have "W \<noteq> {}" using waits unfolding W_def by blast
  ultimately obtain l where l: "l \<in> W" "\<forall>l' \<in> W. rank l' \<le> rank l"
    using Max_in [of "rank ` W"] Max_ge [of "rank ` W"] by (metis (no_types, lifting) finite_imageI
        image_iff image_is_empty imageI)
  then obtain k t where k: "k < length (threads s)" "threads s ! k = Lock l t" unfolding W_def by blast
  then have "owner s l \<noteq> None" using waits [of k] by auto
  then obtain i where "owner s l = Some i" by blast
  with H have i: "i < length (threads s)" "l \<in> set (H i)" by (simp_all add: holds_def)
  then have "\<not> halted (threads s ! i)" using T [OF i(1)] by (cases "threads s ! i") auto
  with waits [OF i(1)] obtain l' u where u: "threads s ! i = Lock l' u" by blast
  with T [OF i(1)] i(2) have "rank l < rank l'" by auto
  moreover have "l' \<in> W" using i(1) u unfolding W_def by blast
  ultimately show False using l(2) by fastforce
qed

text \<open>The interface: a kind of threads that respect one order of the locks.\<close>

locale ordered_threads =
  fixes rank :: "'l \<Rightarrow> nat"
    and P :: "('l, 'w, 'a) thread \<Rightarrow> bool"
  assumes in_order: "P t \<Longrightarrow> tidy rank [] t []"
begin

lemma tidy_pool_reaches:
  assumes "reaches P s0 s" and "tidy_pool rank s0"
  shows "tidy_pool rank s"
  using assms(1)
proof (induction rule: reaches.induct)
  case reaches_refl
  show ?case by (rule assms(2))
next
  case (reaches_step s' i s'')
  then show ?case by (blast intro: tidy_pool_step)
next
  case (reaches_spawn s' t)
  from reaches_spawn.IH obtain H where H: "holds s' H"
    "\<forall>i < length (threads s'). tidy rank [] (threads s' ! i) (H i) \<and> sorted_wrt (\<lambda>a b. rank b < rank a) (H i)"
    unfolding tidy_pool_def by blast
  then show ?case
    unfolding tidy_pool_def using in_order [OF reaches_spawn.hyps(2)]
    by (intro exI [of _ "H(length (threads s') := [])"])
      (auto simp: holds_def nth_append less_Suc_eq)
qed

lemma never_stuck:
  assumes "reaches P (pool_new [] w) s"
  shows "\<not> stuck s"
proof -
  have "tidy_pool rank s"
    using tidy_pool_reaches [OF assms] tidy_pool_new [of "[]" rank w] by simp
  then show ?thesis using tidy_pool_progress by (auto simp: stuck_def)
qed

lemma always_ends:
  assumes "reaches P (pool_new [] w) s"
  shows "inevitably all_halted s"
proof (rule inevitablyI [of "tidy_pool rank"])
  show "tidy_pool rank s"
    using tidy_pool_reaches [OF assms] tidy_pool_new [of "[]" rank w] by simp
qed (use tidy_pool_step tidy_pool_progress in blast)+

end

section \<open>A thread among idle ones\<close>

lemma reaches_pool: "\<forall>t \<in> set ts. P t \<Longrightarrow> reaches P (pool_new [] w) (pool_new ts w)"
proof (induction ts rule: rev_induct)
  case Nil
  show ?case by (rule reaches_refl)
next
  case (snoc t ts)
  then have "reaches P (pool_new [] w) ((pool_new ts w)\<lparr>threads := threads (pool_new ts w) @ [t]\<rparr>)"
    by (intro reaches_spawn) simp_all
  then show ?case by (simp add: pool_new_def)
qed

lemma reaches_trans:
  assumes "reaches P s0 s1" and "reaches P s1 s2"
  shows "reaches P s0 s2"
  using assms(2,1)
proof (induction rule: reaches.induct)
  case reaches_refl
  then show ?case by simp
next
  case (reaches_step s' i s'')
  then show ?case by (blast intro: reaches.reaches_step)
next
  case (reaches_spawn s' t)
  then show ?case by (blast intro: reaches.reaches_spawn)
qed

lemma inevitably_reaches: "inevitably Q s \<Longrightarrow> \<exists>p. reaches P s p \<and> Q p"
proof (induction rule: inevitably.induct)
  case (already s)
  then show ?case using reaches_refl by blast
next
  case (later s i s1)
  then obtain p where "reaches P s1 p" "Q p" by blast
  with later(1) show ?case by (blast intro: reaches_trans reaches_step reaches_refl)
qed

text \<open>What a thread does alone is a run of a pool in which only that thread moves.\<close>

lemma part_reaches:
  assumes "tidy rank [] t H" and "distinct H" and "i < length (threads s)" and "threads s ! i = andthen t f"
    and "owner s = (\<lambda>l. if l \<in> set H then Some i else None)" and "solo t (shared s) = (x, w)"
  shows "reaches P s (s\<lparr>threads := (threads s)[i := f x], owner := Map.empty, shared := w\<rparr>)"
  using assms
proof (induction t arbitrary: s H)
  case (Halt y)
  then have "s\<lparr>threads := (threads s)[i := f x], owner := Map.empty, shared := w\<rparr> = s"
    by (auto simp: solo.simps andthen.simps list_update_same_conv intro!: pool.equality)
  then show ?case using reaches_refl [of P s] by simp
next
  case (Lock l t)
  let ?s = "s\<lparr>threads := (threads s)[i := andthen t f], owner := (owner s)(l \<mapsto> i)\<rparr>"
  have l: "l \<notin> set H" using Lock.prems(1) by auto
  then have "thread_step s i ?s" using Lock.prems by (intro takes) (simp_all add: andthen.simps)
  moreover have "owner ?s = (\<lambda>k. if k \<in> set (l # H) then Some i else None)" using Lock.prems(5) by auto
  then have "reaches P ?s (?s\<lparr>threads := (threads ?s)[i := f x], owner := Map.empty, shared := w\<rparr>)"
    using Lock.prems l by (intro Lock.IH [of "l # H"]) (simp_all add: solo.simps)
  ultimately show ?case by (auto intro: reaches_trans reaches_step [OF reaches_refl])
next
  case (Unlock l t)
  let ?s = "s\<lparr>threads := (threads s)[i := andthen t f], owner := (owner s)(l := None)\<rparr>"
  from Unlock.prems(1,2) obtain H' where H': "H = l # H'" "tidy rank [] t H'" "l \<notin> set H'" "distinct H'" by auto
  have "thread_step s i ?s" using Unlock.prems by (intro gives) (simp_all add: andthen.simps)
  moreover have "owner ?s = (\<lambda>k. if k \<in> set H' then Some i else None)"
    using Unlock.prems(5) H' by auto
  then have "reaches P ?s (?s\<lparr>threads := (threads ?s)[i := f x], owner := Map.empty, shared := w\<rparr>)"
    using Unlock.prems H' by (intro Unlock.IH [of H']) (simp_all add: solo.simps)
  ultimately show ?case by (auto intro: reaches_trans reaches_step [OF reaches_refl])
next
  case (Access g k)
  let ?s = "s\<lparr>threads := (threads s)[i := andthen (k (shared s)) f], shared := g (shared s)\<rparr>"
  have "thread_step s i ?s" using Access.prems by (intro accesses) (simp_all add: andthen.simps)
  moreover have "reaches P ?s (?s\<lparr>threads := (threads ?s)[i := f x], owner := Map.empty, shared := w\<rparr>)"
    using Access.prems by (intro Access.IH [of "k (shared s)" H]) (simp_all add: solo.simps)
  ultimately show ?case by (auto intro: reaches_trans reaches_step [OF reaches_refl])
qed

lemma solo_reaches:
  assumes "tidy rank [] t []" and "i < length (threads s)" and "threads s ! i = t"
    and "owner s = Map.empty" and "solo t (shared s) = (x, w)"
  shows "reaches P s (s\<lparr>threads := (threads s)[i := Halt x], owner := Map.empty, shared := w\<rparr>)"
  using part_reaches [OF assms(1) _ assms(2), of Halt x w P] assms(3-5) by (simp add: andthen_Halt)

text \<open>All threads of a pool, one after the other.\<close>

lemma threads_one_by_one:
  assumes "\<forall>t \<in> set ts. tidy rank [] t []" and "\<forall>t \<in> set ds. halted t"
  shows "\<exists>p. reaches P (pool_new (ds @ ts) w) p \<and> all_halted p \<and> owner p = Map.empty \<and>
    shared p = fold (\<lambda>t w. snd (solo t w)) ts w"
  using assms
proof (induction ts arbitrary: ds w)
  case Nil
  then show ?case by (intro exI [of _ "pool_new ds w"]) (simp add: reaches_refl pool_new_def all_halted_def)
next
  case (Cons t ts)
  obtain x w' where w': "solo t w = (x, w')" by fastforce
  have "reaches P (pool_new (ds @ t # ts) w) ((pool_new (ds @ t # ts) w)\<lparr>threads :=
      (threads (pool_new (ds @ t # ts) w))[length ds := Halt x], owner := Map.empty, shared := w'\<rparr>)"
    by (rule solo_reaches [of rank t]) (use Cons.prems w' in \<open>simp_all add: pool_new_def\<close>)
  then have first: "reaches P (pool_new (ds @ t # ts) w) (pool_new ((ds @ [Halt x]) @ ts) w')"
    by (simp add: pool_new_def)
  from Cons.IH [of "ds @ [Halt x]" w'] Cons.prems obtain p where
    "reaches P (pool_new ((ds @ [Halt x]) @ ts) w') p" "all_halted p" "owner p = Map.empty"
    "shared p = fold (\<lambda>t w. snd (solo t w)) ts w'" by auto
  with reaches_trans [OF first] w' show ?case by auto
qed

section \<open>One thread with its locks\<close>

text \<open>The pool of one thread, which holds the locks \<open>H\<close>.\<close>

definition lone :: "('l, 'w, 'a) thread \<Rightarrow> 'l list \<Rightarrow> 'w \<Rightarrow> ('l, 'w, 'a) pool" where
  "lone t H w = \<lparr>threads = [t], owner = (\<lambda>l. if l \<in> set H then Some 0 else None), shared = w\<rparr>"

lemma pool_new_lone: "pool_new [t] w = lone t [] w"
  by (simp add: pool_new_def lone_def)

lemma lone_step:
  "thread_step (lone (Halt x) H w) i p \<longleftrightarrow> False"
  "thread_step (lone (Lock l t) H w) i p \<longleftrightarrow> i = 0 \<and> l \<notin> set H \<and> p = lone t (l # H) w"
  "thread_step (lone (Unlock l t) (l # H) w) i p \<longleftrightarrow> i = 0 \<and> p = lone t (filter (\<lambda>k. k \<noteq> l) H) w"
  "thread_step (lone (Access g k) H w) i p \<longleftrightarrow> i = 0 \<and> p = lone (k w) H (g w)"
proof -
  have one: "i = 0" if "thread_step (lone t H w) i p" for t :: "('a, 'b, 'c) thread" and H w i p
    using that by (auto simp: lone_def elim: thread_step.cases)
  show "thread_step (lone (Halt x) H w) i p \<longleftrightarrow> False"
    using one [of "Halt x" H w i p] by (auto simp: lone_def elim: thread_step.cases)
  have "(lone (Lock l t) H w)\<lparr>threads := (threads (lone (Lock l t) H w))[0 := t],
      owner := (owner (lone (Lock l t) H w))(l \<mapsto> 0)\<rparr> = lone t (l # H) w"
    by (simp add: lone_def fun_eq_iff)
  then show "thread_step (lone (Lock l t) H w) i p \<longleftrightarrow> i = 0 \<and> l \<notin> set H \<and> p = lone t (l # H) w"
    using one [of "Lock l t" H w i p] takes [of 0 "lone (Lock l t) H w" l t]
    by (auto elim!: thread_step.cases) (simp_all add: lone_def split: if_splits)
  have "(lone (Unlock l t) (l # H) w)\<lparr>threads := (threads (lone (Unlock l t) (l # H) w))[0 := t],
      owner := (owner (lone (Unlock l t) (l # H) w))(l := None)\<rparr> = lone t (filter (\<lambda>k. k \<noteq> l) H) w"
    by (simp add: lone_def fun_eq_iff)
  then show "thread_step (lone (Unlock l t) (l # H) w) i p \<longleftrightarrow> i = 0 \<and> p = lone t (filter (\<lambda>k. k \<noteq> l) H) w"
    using one [of "Unlock l t" "l # H" w i p] gives [of 0 "lone (Unlock l t) (l # H) w" l t]
    by (auto elim!: thread_step.cases) (simp_all add: lone_def)
  show "thread_step (lone (Access g k) H w) i p \<longleftrightarrow> i = 0 \<and> p = lone (k w) H (g w)"
    using one [of "Access g k" H w i p] accesses [of 0 "lone (Access g k) H w" g k]
    by (auto simp: lone_def elim!: thread_step.cases)
qed

lemma inevitably_step:
  assumes "thread_step p i p'" and "inevitably Q p'" and "\<And>j q. thread_step p j q \<Longrightarrow> q = p'"
  shows "inevitably Q p"
  using assms by (blast intro: later)

text \<open>A thread that takes its locks in order does what it does alone, and goes on.\<close>

lemma lone_inevitably:
  assumes "tidy rank B t H" and "distinct H" and "solo t w = (x, w')"
    and "inevitably Q (lone (f x) B w')"
  shows "inevitably Q (lone (andthen t f) H w)"
  using assms(1-3)
proof (induction t arbitrary: H w)
  case (Halt y)
  with assms(4) show ?case by (simp add: solo.simps andthen.simps)
next
  case (Lock l t)
  from Lock.prems have l: "l \<notin> set H" and t: "tidy rank B t (l # H)" and "distinct (l # H)" by auto
  then have "inevitably Q (lone (andthen t f) (l # H) w)"
    using Lock.IH [of "l # H" w] Lock.prems(3) by (simp add: solo.simps)
  then show ?case
    unfolding andthen.simps
    by (rule inevitably_step [rotated]) (use l in \<open>auto simp: lone_step\<close>)
next
  case (Unlock l t)
  from Unlock.prems obtain H' where H': "H = l # H'" "tidy rank B t H'" "distinct H'" "l \<notin> set H'" by auto
  then have other: "filter (\<lambda>k. k \<noteq> l) H' = H'" by (auto simp: filter_id_conv)
  have "inevitably Q (lone (andthen t f) H' w)"
    using Unlock.IH [OF H'(2,3)] Unlock.prems(3) by (simp add: solo.simps)
  then show ?case
    unfolding H'(1) andthen.simps
    by (rule inevitably_step [rotated]) (auto simp: lone_step other)
next
  case (Access g k)
  have "inevitably Q (lone (andthen (k w) f) H (g w))"
    using Access.IH [of "k w" H "g w"] Access.prems by (simp add: solo.simps)
  then show ?case
    unfolding andthen.simps
    by (rule inevitably_step [rotated]) (auto simp: lone_step)
qed

lemma lone_ends:
  assumes "tidy rank [] t []" and "solo t w = (x, w')"
  shows "inevitably (\<lambda>p. p = pool_new [Halt x] w') (pool_new [t] w)"
proof -
  have "inevitably (\<lambda>p. p = lone (Halt x) [] w') (lone (andthen t Halt) [] w)"
    using assms by (intro lone_inevitably) (auto intro: already)
  then show ?thesis by (simp add: andthen_Halt pool_new_lone)
qed

lemma lone_stuck: "l \<in> set H \<Longrightarrow> stuck (lone (Lock l t) H w)"
  by (simp add: stuck_def lone_step) (simp add: all_halted_def lone_def)

section \<open>What every access keeps\<close>

text \<open>\<open>guarantees G t\<close>: each access of \<open>t\<close> changes the state within the relation \<open>G\<close>.\<close>

primrec guarantees :: "('w \<Rightarrow> 'w \<Rightarrow> bool) \<Rightarrow> ('l, 'w, 'a) thread \<Rightarrow> bool" where
  "guarantees G (Halt x) \<longleftrightarrow> True"
| "guarantees G (Lock l t) \<longleftrightarrow> guarantees G t"
| "guarantees G (Unlock l t) \<longleftrightarrow> guarantees G t"
| "guarantees G (Access g k) \<longleftrightarrow> (\<forall>w. G w (g w) \<and> guarantees G (k w))"

lemma guarantees_Halt [guarantee_rules]: "guarantees G (Halt x)"
  by simp

lemma guarantees_andthen:
  "guarantees G t \<Longrightarrow> (\<And>x. guarantees G (f x)) \<Longrightarrow> guarantees G (andthen t f)"
  by (induction t) (simp_all add: andthen.simps)

lemma guarantees_bindt [guarantee_rules]:
  "guarantees G t \<Longrightarrow> (\<And>x. guarantees G (f x)) \<Longrightarrow> guarantees G (bindt t f)"
  unfolding bindt_def by (rule guarantees_andthen) (auto split: outcome.split)

lemma guarantees_seqt [guarantee_rules]: "guarantees G t \<Longrightarrow> guarantees G u \<Longrightarrow> guarantees G (seqt t u)"
  unfolding seqt_def by (rule guarantees_bindt)

lemma guarantees_with_lock [guarantee_rules]: "guarantees G t \<Longrightarrow> guarantees G (with_lock l t)"
  by (simp add: with_lock_def guarantees_andthen)

lemma guarantees_atomic: "(\<And>w. G w (snd (m w))) \<Longrightarrow> guarantees G (atomic m)"
  by (simp add: atomic_def)

lemma guarantees_assert [guarantee_rules]: "guarantees G (assert_t p b)"
  by (simp add: assert_t_def)

lemma guarantees_traverse [guarantee_rules]:
  "(\<And>x. x \<in> set xs \<Longrightarrow> guarantees G (f x)) \<Longrightarrow> guarantees G (traverse_t f xs)"
  by (induction xs) (auto intro!: guarantees_bindt)

lemma guarantees_each [guarantee_rules]:
  "(\<And>x. x \<in> set xs \<Longrightarrow> guarantees G (f x)) \<Longrightarrow> guarantees G (each_t f xs)"
  by (induction xs) (auto intro!: guarantees_seqt)

lemma guarantees_hoist:
  assumes "guarantees G t" and "\<And>g v. G (get v) (g (get v)) \<Longrightarrow> G' v (upd g v)"
  shows "guarantees G' (hoist get upd t)"
  using assms(1) by (induction t) (auto simp: assms(2))

lemma guarantees_if [guarantee_rules]:
  "(b \<Longrightarrow> guarantees G t) \<Longrightarrow> (\<not> b \<Longrightarrow> guarantees G u) \<Longrightarrow> guarantees G (if b then t else u)"
  by simp

lemma guarantees_mono: "guarantees G t \<Longrightarrow> (\<And>w w'. G w w' \<Longrightarrow> G' w w') \<Longrightarrow> guarantees G' t"
  by (induction t) auto

locale guarding_threads =
  fixes P :: "('l, 'w, 'a) thread \<Rightarrow> bool"
    and I :: "'w \<Rightarrow> bool"
  assumes guards: "P t \<Longrightarrow> guarantees (\<lambda>w w'. I w \<longrightarrow> I w') t"
begin

lemma guarded_reaches:
  assumes "reaches P s0 s" and "I (shared s0)" and "\<forall>t \<in> set (threads s0). P t"
  shows "I (shared s) \<and> (\<forall>t \<in> set (threads s). guarantees (\<lambda>w w'. I w \<longrightarrow> I w') t)"
  using assms(1)
proof (induction rule: reaches.induct)
  case reaches_refl
  then show ?case using assms(2,3) guards by blast
next
  case (reaches_step s' i s'')
  from reaches_step.IH have t: "guarantees (\<lambda>w w'. I w \<longrightarrow> I w') (threads s' ! i)" if "i < length (threads s')"
    using that by simp
  from reaches_step.hyps(2) reaches_step.IH t show ?case
    by (cases rule: thread_step.cases) (auto dest!: set_update_subset_insert [THEN subsetD])
next
  case (reaches_spawn s' t)
  then show ?case using guards [of t] by auto
qed

lemma always: "reaches P (pool_new [] w) s \<Longrightarrow> I w \<Longrightarrow> I (shared s)"
  using guarded_reaches [of "pool_new [] w" s] by (simp add: pool_new_def)

end

end
