(* ===== verification/Rex_Locks.thy ===== *)
theory Rex_Locks
  imports Rex_Threads Rex_Quiet
begin

text \<open>
  The operations of a context and of the tasks, as threads: where the code locks and unlocks,
  and what it reads and writes in between. Run alone, each does what its definition in the other
  theories does in one step.
\<close>

section \<open>The locks of the crate\<close>

text \<open>
  \<open>Shard\<close> is a shard of the \<open>DashMap\<close> of a store or, in the tests, of the menu's failures;
  \<open>DashMap\<close> documents that its calls lock the shard of the key and may deadlock when the
  caller holds a reference into the map. Each tree, each ledger and each queue has its mutex.
\<close>

datatype lock =
    Shard nat
  | Failures_shard nat
  | Tree_mutex tree_ref
  | Ledger_mutex channel
  | Signal_mutex
  | Notification_mutex

text \<open>Trees and ledgers are locked first; queues and shards only for the length of a call.\<close>

primrec lock_rank :: "lock \<Rightarrow> nat" where
  "lock_rank (Shard n) = 1"
| "lock_rank (Failures_shard n) = 1"
| "lock_rank (Tree_mutex r) = 0"
| "lock_rank (Ledger_mutex c) = 0"
| "lock_rank Signal_mutex = 1"
| "lock_rank Notification_mutex = 1"

text \<open>The shard an id belongs to.\<close>

type_synonym 'k sharding = "'k state_id \<Rightarrow> nat"

type_synonym ('k, 's, 'i, 'm, 'u, 'a) ctx_thread = "(lock, ('k, 's, 'i, 'm, 'u) world, 'a) thread"

section \<open>The store\<close>

definition get_tree_t ::
  "'k sharding \<Rightarrow> 'k state_id \<Rightarrow> ('k, 's, 'i, 'm, 'u, tree_ref option) ctx_thread" where
  "get_tree_t sh i = seqt (assert_t NilId (\<not> is_nil i))
     (with_lock (Shard (sh i)) (atomic (on_store (gets (\<lambda>st. trees st i)))))"

definition insert_ref_t ::
  "'k sharding \<Rightarrow> 'k state_id \<Rightarrow> tree_ref \<Rightarrow> ('k, 's, 'i, 'm, 'u, unit) ctx_thread" where
  "insert_ref_t sh i r = seqt (assert_t NilId (\<not> is_nil i))
     (with_lock (Shard (sh i)) (atomic (on_store (modifies (\<lambda>st. st\<lparr>trees := (trees st)(i \<mapsto> r)\<rparr>)))))"

definition remove_ref_t :: "'k sharding \<Rightarrow> 'k state_id \<Rightarrow> ('k, 's, 'i, 'm, 'u, unit) ctx_thread" where
  "remove_ref_t sh i = seqt (assert_t NilId (\<not> is_nil i))
     (with_lock (Shard (sh i)) (atomic (on_store (modifies (\<lambda>st. st\<lparr>trees := (trees st)(i := None)\<rparr>)))))"

text \<open>\<open>tree.lock()\<close> for one use of the guard.\<close>

definition locked_t ::
  "tree_ref \<Rightarrow> (('k, 's) state_node, 'a) cmd \<Rightarrow> ('k, 's, 'i, 'm, 'u, 'a) ctx_thread" where
  "locked_t r m = with_lock (Tree_mutex r) (atomic (on_store (locked r m)))"

definition create_tree_t ::
  "('k, 's, 'z) kind_ops_scheme \<Rightarrow> 'k sharding \<Rightarrow> 'k state_id \<Rightarrow> ('k, 's, 'i, 'm, 'u, unit) ctx_thread" where
  "create_tree_t K sh i = bindt (atomic (on_store (arc_new (node_new K i)))) (insert_ref_t sh i)"

definition new_child_t ::
  "('k, 's, 'z) kind_ops_scheme \<Rightarrow> 'k sharding \<Rightarrow> 'k state_id \<Rightarrow> 'k state_id \<Rightarrow>
   ('k, 's, 'i, 'm, 'u, unit) ctx_thread" where
  "new_child_t K sh i child_id =
     bindt (get_tree_t sh i) (\<lambda>t.
     bindt (Halt (unwrap UnwrapNone t)) (\<lambda>r.
     seqt (insert_ref_t sh child_id r)
       (locked_t r (node_insert K \<lparr>ins_parent_id = Some i, ins_id = child_id\<rparr>))))"

definition sm_update_t ::
  "('k, 's, 'z) kind_ops_scheme \<Rightarrow> 'k sharding \<Rightarrow> 'k state_id \<Rightarrow> 's \<Rightarrow>
   ('k, 's, 'i, 'm, 'u, unit) ctx_thread" where
  "sm_update_t K sh i s =
     bindt (get_tree_t sh i) (\<lambda>t.
     bindt (Halt (unwrap MissingIdForUpdate t)) (\<lambda>r.
       locked_t r (node_update K \<lparr>upd_id = i, upd_state = s\<rparr>)))"

definition update_in_tree_t ::
  "('k, 's, 'z) kind_ops_scheme \<Rightarrow> 'k sharding \<Rightarrow> 'k state_id \<Rightarrow> 's \<Rightarrow>
   ('k, 's, 'i, 'm, 'u, 'k state_id option) ctx_thread" where
  "update_in_tree_t K sh i s =
     bindt (get_tree_t sh i) (\<lambda>t. case t of
       None \<Rightarrow> Halt (Panicked MissingSmTree)
     | Some r \<Rightarrow> locked_t r (update_and_get_parent_id K \<lparr>upd_id = i, upd_state = s\<rparr>))"

definition get_state_t ::
  "'k sharding \<Rightarrow> 'k state_id \<Rightarrow> ('k, 's, 'i, 'm, 'u, 's option) ctx_thread" where
  "get_state_t sh i =
     bindt (get_tree_t sh i) (\<lambda>t. case t of
       None \<Rightarrow> returns None
     | Some r \<Rightarrow> locked_t r (\<lambda>n. (get_state n i, n)))"

definition get_parent_id_t ::
  "'k sharding \<Rightarrow> 'k state_id \<Rightarrow> ('k, 's, 'i, 'm, 'u, 'k state_id option) ctx_thread" where
  "get_parent_id_t sh i =
     bindt (get_tree_t sh i) (\<lambda>t. case t of
       None \<Rightarrow> returns None
     | Some r \<Rightarrow> locked_t r (\<lambda>n. (get_parent_id n i, n)))"

section \<open>The queues\<close>

text \<open>Any of the calls that push, under the lock of the queue.\<close>

definition push_signal_t :: "('k, 'i) signal push \<Rightarrow> ('k, 's, 'i, 'm, 'u, unit) ctx_thread" where
  "push_signal_t p = with_lock Signal_mutex (atomic (modifies (push_world_signal p)))"

definition push_notification_t :: "'m push \<Rightarrow> ('k, 's, 'i, 'm, 'u, unit) ctx_thread" where
  "push_notification_t p = with_lock Notification_mutex (atomic (modifies (push_world_notification p)))"

definition update_state_and_signal_t ::
  "('k, 's, 'i, 'r, 'm, 't) rex \<Rightarrow> 'k sharding \<Rightarrow> 'k state_id \<Rightarrow> 's \<Rightarrow>
   ('k, 's, 'i, 'm, 'u, 'k state_id option) ctx_thread" where
  "update_state_and_signal_t R sh i s =
     bindt (update_in_tree_t R sh i s) (\<lambda>parent_id. case parent_id of
       Some p \<Rightarrow> seqt (case state_change R p s of
           Some sig \<Rightarrow> push_signal_t (Push_back sig)
         | None \<Rightarrow> returns ()) (returns (Some p))
     | None \<Rightarrow> returns None)"

text \<open>\<open>set_timeout\<close> and \<open>return_in\<close>: the clock is read, then the request is sent.\<close>

definition set_timeout_t ::
  "('k, 's, 'i, 'r, 'm, 't) rex \<Rightarrow> 'k state_id \<Rightarrow> duration \<Rightarrow> ('k, 's, 'i, 'm, 'u, unit) ctx_thread" where
  "set_timeout_t R i d =
     bindt (atomic (gets now)) (\<lambda>t.
     bindt (Halt (request_set_timeout t i d)) (\<lambda>req.
       push_notification_t (Push_front (from_timeout R req))))"

definition return_in_t ::
  "('k, 's, 'i, 'r, 'm, 't) rex \<Rightarrow> 'k state_id \<Rightarrow> 'r \<Rightarrow> duration \<Rightarrow>
   ('k, 's, 'i, 'm, 'u, unit) ctx_thread" where
  "return_in_t R i x d =
     bindt (atomic (gets now)) (\<lambda>t.
     bindt (Halt (request_retain t i x d)) (\<lambda>req.
       push_notification_t (Push_front (from_timeout R req))))"

definition cancel_timeout_t ::
  "('k, 's, 'i, 'r, 'm, 't) rex \<Rightarrow> 'k state_id \<Rightarrow> ('k, 's, 'i, 'm, 'u, unit) ctx_thread" where
  "cancel_timeout_t R i =
     push_notification_t (Push_front (from_timeout R (request_cancel_timeout i)))"

lemmas ctx_thread_defs =
  get_tree_t_def insert_ref_t_def remove_ref_t_def locked_t_def create_tree_t_def new_child_t_def
  sm_update_t_def update_in_tree_t_def get_state_t_def get_parent_id_t_def push_signal_t_def
  push_notification_t_def update_state_and_signal_t_def set_timeout_t_def return_in_t_def
  cancel_timeout_t_def

section \<open>Alone, they are the operations\<close>

lemma on_store_laws [solo_simps]:
  "on_store (ret x) = ret x"
  "on_store (seqc m n) = seqc (on_store m) (on_store n)"
  "on_store (bindc m f) = bindc (on_store m) (\<lambda>x. on_store (f x))"
  "on_store (assert_cmd p b) = assert_cmd p b"
  "on_store (lift_outcome y) = lift_outcome y"
  "on_store (panicking p) = panicking p"
  by (auto simp: fun_eq_iff cmd_simps split: prod.splits outcome.splits)

lemma case_laws [solo_simps]:
  "solo (case x of None \<Rightarrow> t | Some y \<Rightarrow> u y) = (case x of None \<Rightarrow> solo t | Some y \<Rightarrow> solo (u y))"
  "solo (if b then t else t') = (if b then solo t else solo t')"
  "on_store (case x of None \<Rightarrow> m | Some y \<Rightarrow> n y) = (case x of None \<Rightarrow> on_store m | Some y \<Rightarrow> on_store (n y))"
  by (simp_all split: option.split)

lemma lift_outcome_panic [solo_simps]: "lift_outcome (Panicked p) = panicking p"
  by (simp add: fun_eq_iff cmd_simps)

lemma lift_outcome_returned [solo_simps]: "lift_outcome (Returned x) = ret x"
  by (simp add: fun_eq_iff cmd_simps)

lemma solo_store [solo_simps]:
  "solo (get_tree_t sh i) = on_store (get_tree i)"
  "solo (insert_ref_t sh i r) = on_store (insert_ref i r)"
  "solo (remove_ref_t sh i) = on_store (remove_ref i)"
  "solo (locked_t r m) = on_store (locked r m)"
  by (simp_all add: get_tree_t_def get_tree_def insert_ref_t_def insert_ref_def remove_ref_t_def
      remove_ref_def locked_t_def solo_simps)

lemma solo_tree_ops [solo_simps]:
  "solo (create_tree_t K sh i) = on_store (create_tree K i)"
  "solo (new_child_t K sh i c) = on_store (new_child K i c)"
  "solo (sm_update_t K sh i s) = on_store (sm_update K i s)"
  "solo (update_in_tree_t K sh i s) = on_store (update_in_tree K i s)"
  "solo (get_state_t sh i) = ctx_get_state i"
  "solo (get_parent_id_t sh i) = ctx_get_parent_id i"
  by (simp_all add: create_tree_t_def create_tree_def new_child_t_def new_child_def sm_update_t_def sm_update_def
      update_in_tree_t_def update_in_tree_def get_state_t_def ctx_get_state_def read_state_def
      get_parent_id_t_def ctx_get_parent_id_def read_parent_id_def solo_simps cong: option.case_cong)

lemma solo_pushes [solo_simps]:
  "solo (push_signal_t (Push_front \<lparr>sig_id = i, sig_input = x\<rparr>)) = signal_self i x"
  "solo (push_signal_t (Push_back \<lparr>sig_id = i, sig_input = x\<rparr>)) = signal_to i x"
  "solo (push_notification_t (Push_front m)) = priority_notify m"
  "solo (push_notification_t (Push_back m)) = ctx_notify m"
  by (simp_all add: push_signal_t_def push_notification_t_def ctx_defs solo_simps nq_send_def nq_priority_send_def)

lemma solo_ctx_ops [solo_simps]:
  "solo (update_state_and_signal_t R sh i s) = update_state_and_signal R i s"
  "solo (set_timeout_t R i d) = set_timeout R i d"
  "solo (return_in_t R i x d) = return_in R i x d"
  "solo (cancel_timeout_t R i) = cancel_timeout R i"
  by (simp_all add: update_state_and_signal_t_def update_state_and_signal_def signal_state_change_def
      set_timeout_t_def set_timeout_def return_in_t_def return_in_def cancel_timeout_t_def cancel_timeout_def
      push_signal_t_def solo_simps cong: option.case_cong)


section \<open>Locks in order, and pushes only\<close>

lemma tidy_option [tidy_rules]:
  "(x = None \<Longrightarrow> tidy rank B t H) \<Longrightarrow> (\<And>y. x = Some y \<Longrightarrow> tidy rank B (u y) H) \<Longrightarrow>
   tidy rank B (case x of None \<Rightarrow> t | Some y \<Rightarrow> u y) H"
  by (cases x) simp_all

lemma tidy_push [tidy_rules]:
  "\<forall>l \<in> set B. lock_rank l = 0 \<Longrightarrow> tidy lock_rank B (push_signal_t p) B"
  "\<forall>l \<in> set B. lock_rank l = 0 \<Longrightarrow> tidy lock_rank B (push_notification_t n) B"
  unfolding push_signal_t_def push_notification_t_def
  by (auto intro!: tidy_with_lock tidy_atomic)

lemma tidy_store [tidy_rules]:
  "tidy lock_rank [] (get_tree_t sh i) []"
  "tidy lock_rank [] (insert_ref_t sh i r) []"
  "tidy lock_rank [] (remove_ref_t sh i) []"
  "tidy lock_rank [] (locked_t r m) []"
  unfolding get_tree_t_def insert_ref_t_def remove_ref_t_def locked_t_def
  by (intro tidy_rules; simp)+

lemma tidy_ctx [tidy_rules]:
  "tidy lock_rank [] (create_tree_t K sh i) []"
  "tidy lock_rank [] (new_child_t K sh i c) []"
  "tidy lock_rank [] (sm_update_t K sh i s) []"
  "tidy lock_rank [] (update_in_tree_t K sh i s) []"
  "tidy lock_rank [] (get_state_t sh i) []"
  "tidy lock_rank [] (get_parent_id_t sh i) []"
  unfolding create_tree_t_def new_child_t_def sm_update_t_def update_in_tree_t_def get_state_t_def
    get_parent_id_t_def
  by (intro tidy_rules)+

lemma tidy_signals [tidy_rules]:
  "tidy lock_rank [] (update_state_and_signal_t R sh i s) []"
  "tidy lock_rank [] (set_timeout_t R i d) []"
  "tidy lock_rank [] (return_in_t R i x d) []"
  "tidy lock_rank [] (cancel_timeout_t R i) []"
  unfolding update_state_and_signal_t_def set_timeout_t_def return_in_t_def cancel_timeout_t_def
  by (intro tidy_rules; simp)+

lemma guarantees_option [guarantee_rules]:
  "(x = None \<Longrightarrow> guarantees G t) \<Longrightarrow> (\<And>y. x = Some y \<Longrightarrow> guarantees G (u y)) \<Longrightarrow>
   guarantees G (case x of None \<Rightarrow> t | Some y \<Rightarrow> u y)"
  by (cases x) simp_all

lemma guarantees_extends_atomic [guarantee_rules]:
  assumes "\<And>w0. keeps (extends w0) UNIV m"
  shows "guarantees extends (atomic m)"
  using keepsD(1) [OF assms extends_refl] by (intro guarantees_atomic) (metis prod.collapse)

lemma guarantees_push [guarantee_rules]:
  "guarantees extends (push_signal_t p)"
  "guarantees extends (push_notification_t n)"
  unfolding push_signal_t_def push_notification_t_def
  by (intro guarantee_rules keeps_rules; simp add: extends_def grows_run_push)+

lemma guarantees_store [guarantee_rules]:
  "guarantees extends (get_tree_t sh i)"
  "guarantees extends (insert_ref_t sh i r)"
  "guarantees extends (remove_ref_t sh i)"
  "guarantees extends (locked_t r m)"
  unfolding get_tree_t_def insert_ref_t_def remove_ref_t_def locked_t_def
  by (intro guarantee_rules keeps_rules)+

lemma guarantees_ctx [guarantee_rules]:
  "guarantees extends (create_tree_t K sh i)"
  "guarantees extends (new_child_t K sh i c)"
  "guarantees extends (sm_update_t K sh i s)"
  "guarantees extends (update_in_tree_t K sh i s)"
  "guarantees extends (get_state_t sh i)"
  "guarantees extends (get_parent_id_t sh i)"
  unfolding create_tree_t_def new_child_t_def sm_update_t_def update_in_tree_t_def get_state_t_def
    get_parent_id_t_def
  by (intro guarantee_rules keeps_rules)+

lemma guarantees_signals [guarantee_rules]:
  "guarantees extends (update_state_and_signal_t R sh i s)"
  "guarantees extends (set_timeout_t R i d)"
  "guarantees extends (return_in_t R i x d)"
  "guarantees extends (cancel_timeout_t R i)"
  unfolding update_state_and_signal_t_def set_timeout_t_def return_in_t_def cancel_timeout_t_def
  by (intro guarantee_rules keeps_rules)+

end
