(* ===== verification/Rex_Game_Threads.thy ===== *)
theory Rex_Game_Threads
  imports Rex_Locks
begin

text \<open>
  The three machines of \<open>src/manager.rs\<close> as threads. Each of them calls one operation of its
  context after the other; only the menu's failure branch keeps the tree locked while it sends.
\<close>

type_synonym 'a game_thread = "(lock, game_world, 'a) thread"

section \<open>The menu\<close>

definition game_new_rand_t :: "game \<Rightarrow> game state_id game_thread" where
  "game_new_rand_t k = atomic (game_new_rand k)"

text \<open>The closure of the failure branch, called while the tree is locked.\<close>

definition fail_node_t :: "(game, game_state) state_zipper \<Rightarrow> (game, game_state) state_node game_thread" where
  "fail_node_t z =
     (let z' = set_state (failed_state game_rex (kind_of game_rex (node_state (znode z)))) z;
          i = node_id (znode z')
      in seqt (push_notification_t (Push_front (from_timeout game_rex (request_cancel_timeout i))))
           (Halt (finish_update z')))"

fun finish_update_fn_t ::
  "(('id, 's) zipper \<Rightarrow> ('l, 'w, ('id, 's) node) thread) \<Rightarrow> ('id, 's) node \<Rightarrow>
   ('l, 'w, ('id, 's) node) thread" where
  "finish_update_fn_t f (Node i s d cs) =
     bindt (traverse_t (finish_update_fn_t f) cs) (\<lambda>cs'. f (node_zipper (Node i s d cs')))"

text \<open>\<open>std::mem::swap\<close> takes the tree out, the closure runs on it, and it is put back.\<close>

definition take_tree :: "('k, 's, 'z) kind_ops_scheme \<Rightarrow> tree_ref \<Rightarrow> (('k, 's) store, ('k, 's) state_node) cmd" where
  "take_tree K r = locked r (\<lambda>n. (Returned n, node_new K (node_id n)))"

definition put_tree :: "tree_ref \<Rightarrow> ('k, 's) state_node \<Rightarrow> (('k, 's) store, unit) cmd" where
  "put_tree r n = locked r (\<lambda>_. (Returned (), n))"

definition fail_tree_t :: "tree_ref \<Rightarrow> unit game_thread" where
  "fail_tree_t r = with_lock (Tree_mutex r)
     (bindt (atomic (on_store (take_tree game_rex r))) (\<lambda>n.
      bindt (finish_update_fn_t fail_node_t n) (\<lambda>n'.
        atomic (on_store (put_tree r n')))))"

definition record_failure_t :: "game sharding \<Rightarrow> game state_id \<Rightarrow> menu_input \<Rightarrow> unit game_thread" where
  "record_failure_t sh i failure = with_lock (Failures_shard (sh i))
     (atomic (modifies (\<lambda>w. w\<lparr>user := (user w)\<lparr>failures := (failures (user w))(i \<mapsto> failure)\<rparr>\<rparr>)))"

definition menu_process_t :: "game sharding \<Rightarrow> game state_id \<Rightarrow> game_input \<Rightarrow> unit game_thread" where
  "menu_process_t sh i input = (case input of
     Input_Menu inp \<Rightarrow>
       bindt (get_state_t sh i) (\<lambda>s.
         if map_option (is_terminal game_rex) s = Some True then returns ()
         else (case inp of
           Play who \<Rightarrow>
             bindt (game_new_rand_t Ping) (\<lambda>ping_id.
             bindt (game_new_rand_t Pong) (\<lambda>pong_id.
             seqt (create_tree_t game_rex sh i)
             (seqt (new_child_t game_rex sh i ping_id)
             (seqt (new_child_t game_rex sh i pong_id)
               (push_signal_t (Push_back \<lparr>sig_id = ping_id, sig_input = Input_Ping (StartSending pong_id who)\<rparr>))))))
         | PingPongComplete \<Rightarrow>
             seqt (update_state_and_signal_t game_rex sh i (completed_state game_rex (kind i))) (returns ())
         | failure \<Rightarrow>
             bindt (get_tree_t sh i) (\<lambda>t.
             bindt (Halt (unwrap UnwrapNone t)) (\<lambda>r.
             seqt (fail_tree_t r) (record_failure_t sh i failure)))))
   | _ \<Rightarrow> returns ())"

section \<open>Ping and pong\<close>

definition return_packet_t :: "game state_id \<Rightarrow> packet \<Rightarrow> unit game_thread" where
  "return_packet_t i p =
     (let recipient = sender p; p' = p\<lparr>sender := i\<rparr> in
      case kind i of
        Ping \<Rightarrow> push_signal_t (Push_back \<lparr>sig_id = recipient, sig_input = Input_Pong (Pong_Packet p')\<rparr>)
      | Pong \<Rightarrow> push_signal_t (Push_back \<lparr>sig_id = recipient, sig_input = Input_Ping (Ping_Packet p')\<rparr>)
      | Menu \<Rightarrow> Halt (Panicked Unreachable))"

definition ping_input_t :: "game sharding \<Rightarrow> game state_id \<Rightarrow> ping_input \<Rightarrow> unit game_thread" where
  "ping_input_t sh i inp = (case inp of
     StartSending pong_id who \<Rightarrow>
       seqt (sm_update_t game_rex sh i (State_Ping Ping_Sending))
         (push_signal_t (Push_back \<lparr>sig_id = pong_id,
            sig_input = Input_Pong (Pong_Packet \<lparr>msg = 0, sender = i, who_holds = who\<rparr>)\<rparr>))
   | Ping_Packet p \<Rightarrow>
       if 25 \<le> msg p
       then seqt (update_state_and_signal_t game_rex sh i (completed_state game_rex (kind i)))
         (cancel_timeout_t game_rex i)
       else seqt (set_timeout_t game_rex i test_timeout)
         (bindt (Halt (add_u64 (msg p) 5)) (\<lambda>m.
          let p' = p\<lparr>msg := m\<rparr> in
          if who_holds p' = Some Ping
          then return_in_t game_rex i p' (duration_from_millis (msg p'))
          else return_packet_t i p'))
   | Ping_Returned p \<Rightarrow>
       seqt (set_timeout_t game_rex i test_timeout) (return_packet_t i p)
   | Ping_RecvTimeout t \<Rightarrow>
       seqt (update_state_and_signal_t game_rex sh i (failed_state game_rex (kind i))) (returns ()))"

definition ping_process_t :: "game sharding \<Rightarrow> game state_id \<Rightarrow> game_input \<Rightarrow> unit game_thread" where
  "ping_process_t sh i input = (case input of
     Input_Ping inp \<Rightarrow>
       bindt (get_parent_id_t sh i) (\<lambda>p.
       seqt (assert_t AssertionFailed (p \<noteq> None))
       (bindt (get_state_t sh i) (\<lambda>s.
       bindt (Halt (unwrap UnwrapNone s)) (\<lambda>st.
         if is_terminal game_rex st then returns () else ping_input_t sh i inp))))
   | _ \<Rightarrow> returns ())"

definition pong_input_t :: "game sharding \<Rightarrow> game state_id \<Rightarrow> pong_input \<Rightarrow> unit game_thread" where
  "pong_input_t sh i inp = (case inp of
     Pong_Packet p \<Rightarrow>
       if 20 \<le> msg p
       then bindt (Halt (add_u64 (msg p) 5)) (\<lambda>m.
         seqt (update_state_and_signal_t game_rex sh i (completed_state game_rex (kind i)))
         (seqt (cancel_timeout_t game_rex i)
           (push_signal_t (Push_back \<lparr>sig_id = sender p,
              sig_input = Input_Ping (Ping_Packet \<lparr>msg = m, sender = i, who_holds = who_holds p\<rparr>)\<rparr>))))
       else seqt (set_timeout_t game_rex i test_timeout)
         (seqt (if msg p = 0 then sm_update_t game_rex sh i (State_Pong Pong_Responding) else returns ())
         (bindt (Halt (add_u64 (msg p) 5)) (\<lambda>m.
          let p' = p\<lparr>msg := m\<rparr> in
          if who_holds p' = Some Pong
          then return_in_t game_rex i p' (duration_from_millis (msg p'))
          else return_packet_t i p')))
   | Pong_Returned p \<Rightarrow>
       seqt (set_timeout_t game_rex i test_timeout) (return_packet_t i p)
   | Pong_RecvTimeout t \<Rightarrow>
       seqt (update_state_and_signal_t game_rex sh i (failed_state game_rex (kind i))) (returns ()))"

definition pong_process_t :: "game sharding \<Rightarrow> game state_id \<Rightarrow> game_input \<Rightarrow> unit game_thread" where
  "pong_process_t sh i input = (case input of
     Input_Pong inp \<Rightarrow>
       bindt (get_state_t sh i) (\<lambda>s.
       bindt (Halt (unwrap UnwrapNone s)) (\<lambda>st.
         if is_terminal game_rex st then returns ()
         else bindt (get_parent_id_t sh i) (\<lambda>p.
           seqt (assert_t AssertionFailed (p \<noteq> None)) (pong_input_t sh i inp))))
   | _ \<Rightarrow> returns ())"

primrec game_process_t :: "game sharding \<Rightarrow> game \<Rightarrow> game state_id \<Rightarrow> game_input \<Rightarrow> unit game_thread" where
  "game_process_t sh Menu = menu_process_t sh"
| "game_process_t sh Ping = ping_process_t sh"
| "game_process_t sh Pong = pong_process_t sh"

section \<open>Alone, they are the machines\<close>

lemma solo_finish_update_fn:
  "solo (finish_update_fn_t f n) = finish_update_fn (\<lambda>z. solo (f z)) n"
proof (induction n)
  case (Node i s d cs)
  have "solo (traverse_t (finish_update_fn_t f) cs) = traverse (finish_update_fn (\<lambda>z. solo (f z))) cs"
    unfolding solo_traverse using Node.IH by (intro traverse_cong) simp_all
  then show ?case by (simp add: solo_bindt)
qed

lemma solo_fail_node:
  "solo (fail_node_t (node_zipper m)) w =
    (Returned (set_node_state (fail_state (node_id m) (node_state m)) m),
     push_world_notification (Push_front (cancel_for (node_id m))) w)"
  by (simp add: fail_node_t_def Let_def push_notification_t_def solo_simps cmd_simps set_state_def
      fail_state_def cancel_for_def) (simp add: node_zipper_def)

lemma fold_push_notifications:
  "fold (\<lambda>i. push_world_notification (Push_front (cancel_for i))) is w =
    w\<lparr>notification_queue := fold (\<lambda>i. nq_priority_send (cancel_for i)) is (notification_queue w)\<rparr>"
  by (induction "is" arbitrary: w) (simp_all add: nq_priority_send_def)

lemma solo_fail_tree [solo_simps]: "solo (fail_tree_t r) = fail_tree r"
proof
  fix w
  have "solo (finish_update_fn_t fail_node_t n) w = (Returned (map_states fail_state n),
      w\<lparr>notification_queue := fold (\<lambda>i. nq_priority_send (cancel_for i)) (post_order n) (notification_queue w)\<rparr>)"
    for n w
    unfolding solo_finish_update_fn fold_push_notifications [symmetric]
    by (rule finish_update_fn_states) (rule solo_fail_node)
  then show "solo (fail_tree_t r) w = fail_tree r w"
    by (simp add: fail_tree_t_def fail_tree_apply solo_simps cmd_simps take_tree_def put_tree_def
        locked_def on_store_apply)
qed

lemma solo_record_failure [solo_simps]:
  "solo (record_failure_t sh i x) =
    modifies (\<lambda>w. w\<lparr>user := (user w)\<lparr>failures := (failures (user w))(i \<mapsto> x)\<rparr>\<rparr>)"
  by (simp add: record_failure_t_def solo_simps)

lemma solo_return_packet [solo_simps]: "solo (return_packet_t i p) = return_packet i p"
  by (cases "kind i") (simp_all add: return_packet_t_def return_packet_def Let_def solo_simps)

lemma solo_menu: "solo (menu_process_t sh i x) = menu_process i x"
  by (simp add: menu_process_t_def menu_process_def game_new_rand_t_def sm_complete_def solo_simps
      cong: if_cong split: game_input.split menu_input.split)

lemma solo_ping: "solo (ping_process_t sh i x) = ping_process i x"
  by (simp add: ping_process_t_def ping_process_def ping_input_t_def ping_input_step_def sm_complete_def sm_fail_def
      Let_def solo_simps cong: if_cong split: game_input.split ping_input.split)

lemma solo_pong: "solo (pong_process_t sh i x) = pong_process i x"
  by (simp add: pong_process_t_def pong_process_def pong_input_t_def pong_input_step_def sm_complete_def sm_fail_def
      Let_def solo_simps cong: if_cong split: game_input.split pong_input.split)

section \<open>Locks in order, and pushes only\<close>

lemma tidy_finish_update_fn:
  "(\<And>z. tidy rank B (f z) B) \<Longrightarrow> tidy rank B (finish_update_fn_t f n) B"
  by (induction n) (auto intro!: tidy_rules)

lemma tidy_fail_tree [tidy_rules]: "tidy lock_rank [] (fail_tree_t r) []"
proof -
  have "tidy lock_rank [Tree_mutex r] (fail_node_t z) [Tree_mutex r]" for z
    unfolding fail_node_t_def Let_def by (intro tidy_rules) simp
  then show ?thesis
    unfolding fail_tree_t_def by (intro tidy_rules tidy_finish_update_fn) simp_all
qed

lemma tidy_record_failure [tidy_rules]: "tidy lock_rank [] (record_failure_t sh i x) []"
  unfolding record_failure_t_def by (intro tidy_rules) simp

lemma tidy_return_packet [tidy_rules]: "tidy lock_rank [] (return_packet_t i p) []"
  by (cases "kind i") (auto simp: return_packet_t_def Let_def intro!: tidy_rules)

lemma tidy_game: "tidy lock_rank [] (game_process_t sh k i x) []"
proof (cases k)
  case Ping
  have "tidy lock_rank [] (ping_input_t sh i y) []" for y
    by (cases y) (auto simp: ping_input_t_def Let_def intro!: tidy_rules)
  with Ping show ?thesis
    by (cases x) (auto simp: ping_process_t_def intro!: tidy_rules)
next
  case Pong
  have "tidy lock_rank [] (pong_input_t sh i y) []" for y
    by (cases y) (auto simp: pong_input_t_def Let_def intro!: tidy_rules)
  with Pong show ?thesis
    by (cases x) (auto simp: pong_process_t_def intro!: tidy_rules)
next
  case Menu
  then show ?thesis
    by (cases x) (auto simp: menu_process_t_def game_new_rand_t_def intro!: tidy_rules split: menu_input.split)
qed

lemma guarantees_finish_update_fn:
  "(\<And>z. guarantees G (f z)) \<Longrightarrow> guarantees G (finish_update_fn_t f n)"
  by (induction n) (auto intro!: guarantee_rules)

lemma guarantees_fail_tree [guarantee_rules]: "guarantees extends (fail_tree_t r)"
proof -
  have "guarantees extends (fail_node_t z)" for z
    unfolding fail_node_t_def Let_def by (intro guarantee_rules)
  then show ?thesis
    unfolding fail_tree_t_def
    by (intro guarantee_rules guarantees_finish_update_fn keeps_rules) simp_all
qed

lemma guarantees_record_failure [guarantee_rules]: "guarantees extends (record_failure_t sh i x)"
  unfolding record_failure_t_def by (intro guarantee_rules keeps_rules)

lemma guarantees_return_packet [guarantee_rules]: "guarantees extends (return_packet_t i p)"
  by (cases "kind i") (auto simp: return_packet_t_def Let_def intro!: guarantee_rules)

lemma guarantees_new_rand [guarantee_rules]: "guarantees extends (game_new_rand_t k)"
  unfolding game_new_rand_t_def by (intro guarantee_rules keeps_rules)

lemma guarantees_game: "guarantees extends (game_process_t sh k i x)"
proof (cases k)
  case Ping
  have "guarantees extends (ping_input_t sh i y)" for y
    by (cases y) (auto simp: ping_input_t_def Let_def intro!: guarantee_rules)
  with Ping show ?thesis
    by (cases x) (auto simp: ping_process_t_def intro!: guarantee_rules)
next
  case Pong
  have "guarantees extends (pong_input_t sh i y)" for y
    by (cases y) (auto simp: pong_input_t_def Let_def intro!: guarantee_rules)
  with Pong show ?thesis
    by (cases x) (auto simp: pong_process_t_def intro!: guarantee_rules)
next
  case Menu
  then show ?thesis
    by (cases x) (auto simp: menu_process_t_def intro!: guarantee_rules split: menu_input.split)
qed

end
