(* ===== verification/Rex_Tasks.thy ===== *)
theory Rex_Tasks
  imports Rex_Game_Threads
begin

text \<open>
  The turns of the tasks as threads on the whole system, and what holds however the turns of
  several tasks and the calls of other threads overlap: no deadlock, every turn ends, and no
  task is parked while its queue holds something it was not woken for.
\<close>

section \<open>Turns\<close>

type_synonym ('k, 's, 'i, 'r, 'm, 'u, 'p, 'q, 'a) sys_thread =
  "(lock, ('k, 's, 'i, 'r, 'm, 'u, 'p, 'q) system, 'a) thread"

definition on_world ::
  "('k, 's, 'i, 'm, 'u, 'a) ctx_thread \<Rightarrow> ('k, 's, 'i, 'r, 'm, 'u, 'p, 'q, 'a) sys_thread" where
  "on_world = hoist sys_world sys_world_update"

text \<open>\<open>stream.next()\<close> in the manager's loop, under the lock of the signal queue.\<close>

definition poll_signal ::
  "(('k, 's, 'i, 'r, 'm, 'u, 'p, 'q) system, ('k, 'i) signal option) cmd" where
  "poll_signal s = (case poll_next manager_waker (manager_rx s) (signal_queue (sys_world s)) of
     (Ready v, rx, q) \<Rightarrow> (Returned v,
       s\<lparr>sys_world := (sys_world s)\<lparr>signal_queue := q\<rparr>, manager_rx := rx,
         manager_task := if v = None then Finished else Running\<rparr>)
   | (Pending, rx, q) \<Rightarrow> (Returned None,
       s\<lparr>sys_world := (sys_world s)\<lparr>signal_queue := q\<rparr>, manager_rx := rx,
         manager_task := Parked (length (wakes q))\<rparr>))"

definition finishing :: "'a outcome \<Rightarrow> ('k, 's, 'i, 'r, 'm, 'u, 'p, 'q, unit) sys_thread" where
  "finishing x = (case x of
     Returned _ \<Rightarrow> returns ()
   | Panicked p \<Rightarrow> atomic (modifies (\<lambda>s. s\<lparr>manager_task := Finished\<rparr>)))"

definition manager_turn_t ::
  "('k \<rightharpoonup> 'k state_id \<Rightarrow> 'i \<Rightarrow> ('k, 's, 'i, 'm, 'u, unit) ctx_thread) \<Rightarrow>
   ('k, 's, 'i, 'r, 'm, 'u, 'p, 'q, unit) sys_thread" where
  "manager_turn_t procs =
     bindt (with_lock Signal_mutex (atomic poll_signal)) (\<lambda>v. case v of
       Some sig \<Rightarrow> (case procs (kind (sig_id sig)) of
           Some process \<Rightarrow> andthen (on_world (process (sig_id sig) (sig_input sig))) finishing
         | None \<Rightarrow> returns ())
     | None \<Rightarrow> returns ())"

definition poll_notification :: "(('k, 's, 'i, 'r, 'm, 'u, 'p, 'q) system, 'm option) cmd" where
  "poll_notification s = (case poll_next nm_waker (nm_rx s) (notification_queue (sys_world s)) of
     (Ready v, rx, q) \<Rightarrow> (Returned v,
       s\<lparr>sys_world := (sys_world s)\<lparr>notification_queue := q\<rparr>, nm_rx := rx,
         nm_task := if v = None then Finished else Running\<rparr>)
   | (Pending, rx, q) \<Rightarrow> (Returned None,
       s\<lparr>sys_world := (sys_world s)\<lparr>notification_queue := q\<rparr>, nm_rx := rx,
         nm_task := Parked (length (wakes q))\<rparr>))"

text \<open>Each subscriber's channel is sent to in a step of its own.\<close>

definition send_t :: "'m \<Rightarrow> channel \<Rightarrow> ('k, 's, 'i, 'r, 'm, 'u, 'p, 'q, unit) sys_thread" where
  "send_t m c = atomic (modifies (\<lambda>s. s\<lparr>sys_channels := chan_send c m (sys_channels s)\<rparr>))"

definition nm_turn_t ::
  "('k, 's, 'i, 'r, 'm, 't, 'p, 'q) ingress \<Rightarrow> 't subscriptions \<Rightarrow>
   ('k, 's, 'i, 'r, 'm, 'u, 'p, 'q, unit) sys_thread" where
  "nm_turn_t I subs =
     bindt (with_lock Notification_mutex (atomic poll_notification)) (\<lambda>v. case v of
       Some m \<Rightarrow> (case subs (get_topic I m) of
           Some cs \<Rightarrow> if cs = [] then returns ()
             else seqt (each_t (send_t m) (butlast cs)) (send_t m (last cs))
         | None \<Rightarrow> returns ())
     | None \<Rightarrow> returns ())"

text \<open>\<open>input_rx.recv()\<close>, then the ledger under its lock or the outbound channel.\<close>

definition recv_channel :: "channel \<Rightarrow> (('k, 's, 'i, 'r, 'm, 'u, 'p, 'q) system, 'm option) cmd" where
  "recv_channel c s = (case chan_recv c (sys_channels s) of (x, ch) \<Rightarrow> (Returned x, s\<lparr>sys_channels := ch\<rparr>))"

definition on_ledger ::
  "channel \<Rightarrow> (('k, 'r) ledger \<Rightarrow> ('k, 'r) ledger) \<Rightarrow> (('k, 's, 'i, 'r, 'm, 'u, 'p, 'q) system, unit) cmd" where
  "on_ledger c f = modifies (\<lambda>s. s\<lparr>ledgers := (ledgers s)(c := f (ledgers s c))\<rparr>)"

definition operate_t ::
  "channel \<Rightarrow> ('k, 'r operation) unary_request \<Rightarrow> ('k, 's, 'i, 'r, 'm, 'u, 'p, 'q, unit) sys_thread" where
  "operate_t c req = with_lock (Ledger_mutex c) (atomic (on_ledger c (apply_operation (req_id req) (req_op req))))"

definition received_t ::
  "('k, 's, 'i, 'r, 'm, 't, 'p, 'q) ingress \<Rightarrow> ('k, 'p, 't) boxed_np \<Rightarrow> channel \<Rightarrow>
   ('k, 's, 'i, 'r, 'm, 'u, 'p, 'q, unit) sys_thread" where
  "received_t I np c = bindt (atomic (recv_channel c)) (\<lambda>v. case v of
     None \<Rightarrow> returns ()
   | Some m \<Rightarrow> (case np of
       Timeout_np tm \<Rightarrow> (case try_timeout I m of
           Some req \<Rightarrow> operate_t c req
         | None \<Rightarrow> returns ())
     | Ingress_np ad \<Rightarrow> atomic (modifies (\<lambda>s. s\<lparr>outbox := outbound_step I (outbound_tx ad) m (outbox s)\<rparr>))
     | Custom_np x ts \<Rightarrow> returns ()))"

text \<open>\<open>packet_rx.recv()\<close>; the router reads the packet without a lock.\<close>

definition recv_packet :: "channel \<Rightarrow> (('k, 's, 'i, 'r, 'm, 'u, 'p, 'q) system, 'p option) cmd" where
  "recv_packet ic s = (case packets s ic of
     [] \<Rightarrow> (Returned None, s)
   | p # ps \<Rightarrow> (Returned (Some p), s\<lparr>packets := (packets s)(ic := ps)\<rparr>))"

definition inbound_end :: "channel \<Rightarrow> unit outcome \<Rightarrow> ('k, 's, 'i, 'r, 'm, 'u, 'p, 'q, unit) sys_thread" where
  "inbound_end c x = atomic (modifies (\<lambda>s. s\<lparr>inbound_on := (inbound_on s)(c := x = Returned ())\<rparr>))"

definition read_packet_t ::
  "('k, 's, 'i, 'r, 'm, 't, 'p, 'q) ingress \<Rightarrow> ('k, 'p) packet_router \<Rightarrow> channel \<Rightarrow> channel \<Rightarrow>
   ('k, 's, 'i, 'r, 'm, 'u, 'p, 'q, unit) sys_thread" where
  "read_packet_t I pr c ic = bindt (atomic (recv_packet ic)) (\<lambda>v. case v of
     None \<Rightarrow> returns ()
   | Some p \<Rightarrow> andthen
       (bindt (Halt (packet_get_id I pr p)) (\<lambda>r. case r of
          Inl e \<Rightarrow> returns ()
        | Inr None \<Rightarrow> returns ()
        | Inr (Some i) \<Rightarrow> (case packet_input I p of
            Some x \<Rightarrow> on_world (push_signal_t (Push_back \<lparr>sig_id = i, sig_input = x\<rparr>))
          | None \<Rightarrow> returns ())))
       (inbound_end c))"

section \<open>The tick\<close>

text \<open>The timers are released under the ledger's lock, the retained items after it.\<close>

definition take_timers ::
  "channel \<Rightarrow> 'k state_id hash_order \<Rightarrow> instant \<Rightarrow>
   (('k, 's, 'i, 'r, 'm, 'u, 'p, 'q) system, 'k state_id list) cmd" where
  "take_timers c it t = (\<lambda>s. (Returned (due_ids it t (ledgers s c)),
     snd (on_ledger c (\<lambda>L. L\<lparr>timers := snd (bt_split_off t (timers L))\<rparr>) s)))"

definition take_retained ::
  "channel \<Rightarrow> instant \<Rightarrow> (('k, 's, 'i, 'r, 'm, 'u, 'p, 'q) system, ('k state_id \<times> 'r) list) cmd" where
  "take_retained c t = (\<lambda>s. (Returned (due_items t (ledgers s c)),
     snd (on_ledger c (\<lambda>L. L\<lparr>retainer := snd (bt_split_off t (retainer L))\<rparr>) s)))"

definition push_input_t ::
  "'k state_id \<Rightarrow> 'i option \<Rightarrow> ('k, 's, 'i, 'r, 'm, 'u, 'p, 'q, unit) sys_thread" where
  "push_input_t i inp = (case inp of
     Some x \<Rightarrow> on_world (push_signal_t (Push_front \<lparr>sig_id = i, sig_input = x\<rparr>))
   | None \<Rightarrow> returns ())"

definition release_timer_t ::
  "('k, 's, 'i, 'r, 'm, 't, 'p, 'q) ingress \<Rightarrow> channel \<Rightarrow> instant \<Rightarrow> 'k state_id \<Rightarrow>
   ('k, 's, 'i, 'r, 'm, 'u, 'p, 'q, unit) sys_thread" where
  "release_timer_t I c t i =
     seqt (atomic (on_ledger c (\<lambda>L. L\<lparr>timer_ids := (timer_ids L)(i := None)\<rparr>)))
       (push_input_t i (timeout_input I (kind i) t))"

definition release_item_t ::
  "('k, 's, 'i, 'r, 'm, 't, 'p, 'q) ingress \<Rightarrow> 'k state_id \<times> 'r \<Rightarrow>
   ('k, 's, 'i, 'r, 'm, 'u, 'p, 'q, unit) sys_thread" where
  "release_item_t I p = (case p of (i, x) \<Rightarrow> push_input_t i (return_item I (kind i) x))"

definition tick_t ::
  "('k, 's, 'i, 'r, 'm, 't, 'p, 'q) ingress \<Rightarrow> channel \<Rightarrow> 'k state_id hash_order \<Rightarrow>
   ('k, 's, 'i, 'r, 'm, 'u, 'p, 'q, unit) sys_thread" where
  "tick_t I c it =
     bindt (atomic (gets (\<lambda>s. now (sys_world s)))) (\<lambda>t.
     bindt (with_lock (Ledger_mutex c)
         (bindt (atomic (take_timers c it t)) (\<lambda>is.
          seqt (each_t (release_timer_t I c t) is)
            (atomic (take_retained c t))))) (\<lambda>items.
       each_t (release_item_t I) items))"

lemmas task_thread_defs =
  manager_turn_t_def nm_turn_t_def send_t_def operate_t_def received_t_def read_packet_t_def push_input_t_def
  release_timer_t_def release_item_t_def tick_t_def inbound_end_def

section \<open>Any thread that may run\<close>

text \<open>Other threads may use a context and send from outside, and time passes.\<close>

definition clock_t :: "instant \<Rightarrow> ('k, 's, 'i, 'r, 'm, 'u, 'p, 'q, unit) sys_thread" where
  "clock_t t = atomic (modifies (\<lambda>s. s\<lparr>sys_world := (sys_world s)\<lparr>now := max t (now (sys_world s))\<rparr>\<rparr>))"

definition packet_arrived_t :: "channel \<Rightarrow> 'p \<Rightarrow> ('k, 's, 'i, 'r, 'm, 'u, 'p, 'q, unit) sys_thread" where
  "packet_arrived_t ic p = atomic (modifies (\<lambda>s. s\<lparr>packets := (packets s)(ic := packets s ic @ [p])\<rparr>))"

inductive crate_thread ::
  "('k, 's, 'i, 'r, 'm, 't) rex \<Rightarrow>
   ('k, 's, 'i, 'r, 'm, 't, 'p, 'q) ingress \<Rightarrow>
   ('k \<rightharpoonup> 'k state_id \<Rightarrow> 'i \<Rightarrow> ('k, 's, 'i, 'm, 'u, unit) ctx_thread) \<Rightarrow>
   ('k, 's, 'i, 'r, 'm, 'u, 'p, 'q, unit) sys_thread \<Rightarrow> bool"
  for R :: "('k, 's, 'i, 'r, 'm, 't) rex"
  and I :: "('k, 's, 'i, 'r, 'm, 't, 'p, 'q) ingress"
  and procs :: "'k \<rightharpoonup> 'k state_id \<Rightarrow> 'i \<Rightarrow> ('k, 's, 'i, 'm, 'u, unit) ctx_thread" where
  "crate_thread R I procs (manager_turn_t procs)"
| "crate_thread R I procs (nm_turn_t I subs)"
| "crate_thread R I procs (received_t I np c)"
| "crate_thread R I procs (read_packet_t I pr c ic)"
| "crate_thread R I procs (tick_t I c it)" if "hash_order_ok it"
| "crate_thread R I procs (on_world (process i x))" if "procs k = Some process"
| "crate_thread R I procs (on_world (push_signal_t p))"
| "crate_thread R I procs (on_world (push_notification_t n))"
| "crate_thread R I procs (on_world (seqt (create_tree_t R sh i) (returns ())))"
| "crate_thread R I procs (on_world (new_child_t R sh i j))"
| "crate_thread R I procs (on_world (sm_update_t R sh i st))"
| "crate_thread R I procs (on_world (seqt (update_state_and_signal_t R sh i st) (returns ())))"
| "crate_thread R I procs (on_world (seqt (get_state_t sh i) (returns ())))"
| "crate_thread R I procs (on_world (seqt (get_parent_id_t sh i) (returns ())))"
| "crate_thread R I procs (on_world (remove_ref_t sh i))"
| "crate_thread R I procs (clock_t t)"
| "crate_thread R I procs (packet_arrived_t ic p)"

section \<open>No deadlock\<close>

lemma tidy_on_world [tidy_rules]: "tidy rank B t H \<Longrightarrow> tidy rank B (on_world t) H"
  unfolding on_world_def by (rule tidy_hoist)

lemma tidy_push_input: "\<forall>l \<in> set B. lock_rank l = 0 \<Longrightarrow> tidy lock_rank B (push_input_t i x) B"
  unfolding push_input_t_def by (intro tidy_rules)

lemma tidy_tick: "tidy lock_rank [] (tick_t I c it) []"
  unfolding tick_t_def release_timer_t_def release_item_t_def
  by (intro tidy_rules tidy_push_input) (auto intro: tidy_push_input)

lemma tidy_manager_turn:
  assumes "\<And>k process i x. procs k = Some process \<Longrightarrow> tidy lock_rank [] (process i x) []"
  shows "tidy lock_rank [] (manager_turn_t procs) []"
proof -
  have "tidy lock_rank [] (finishing x) []" for x
    by (cases x) (simp_all add: finishing_def tidy_atomic)
  then show ?thesis
    unfolding manager_turn_t_def
    by (intro tidy_rules tidy_andthen [of _ "[]"]) (erule assms | simp)+
qed

lemma tidy_other_turns:
  "tidy lock_rank [] (nm_turn_t I subs) []"
  "tidy lock_rank [] (received_t I np c) []"
  "tidy lock_rank [] (read_packet_t I pr c ic) []"
  unfolding nm_turn_t_def send_t_def received_t_def operate_t_def read_packet_t_def inbound_end_def
  by (auto intro!: tidy_rules tidy_andthen [of _ "[]"] split: boxed_np.split sum.split option.split)

lemma crate_thread_tidy:
  assumes "\<And>k process i x. procs k = Some process \<Longrightarrow> tidy lock_rank [] (process i x) []"
    and "crate_thread R I procs t"
  shows "tidy lock_rank [] t []"
  using assms(2)
proof cases
  case 1
  show ?thesis unfolding 1 by (rule tidy_manager_turn) (rule assms(1))
next
  case (6 k process i x)
  then show ?thesis by (auto intro!: tidy_on_world elim: assms(1))
qed (auto intro!: tidy_rules tidy_tick tidy_other_turns simp: clock_t_def packet_arrived_t_def)

section \<open>Machines as threads\<close>

text \<open>
  What a machine's \<open>process\<close> has to be as a thread: alone it is the machine, it takes locks in
  order, and it only pushes to the queues.
\<close>

locale context_machines =
  fixes sms :: "('k, 'i, ('k, 's, 'i, 'm, 'u) world) machines"
    and procs :: "'k \<rightharpoonup> 'k state_id \<Rightarrow> 'i \<Rightarrow> ('k, 's, 'i, 'm, 'u, unit) ctx_thread"
  assumes same_kinds: "procs k = None \<longleftrightarrow> sms k = None"
    and process_solo: "sms k = Some sm \<Longrightarrow> procs k = Some process \<Longrightarrow> solo (process i x) = sm_process sm i x"
    and process_tidy: "procs k = Some process \<Longrightarrow> tidy lock_rank [] (process i x) []"
    and process_pushes: "procs k = Some process \<Longrightarrow> guarantees extends (process i x)"

sublocale context_machines \<subseteq> crate: ordered_threads lock_rank "crate_thread R I procs" for R I
  by unfold_locales (erule crate_thread_tidy [rotated], rule process_tidy)

definition game_procs ::
  "game sharding \<Rightarrow> game \<rightharpoonup> game state_id \<Rightarrow> game_input \<Rightarrow> unit game_thread" where
  "game_procs sh k = Some (game_process_t sh k)"

interpretation game_ctx: context_machines game_machines "game_procs sh" for sh
proof
  fix k sm process i x
  assume "game_machines k = Some sm" and "game_procs sh k = Some process"
  then show "solo (process i x) = sm_process sm i x"
    by (cases k) (auto simp: game_procs_def solo_menu solo_ping solo_pong)
next
  fix k show "game_procs sh k = None \<longleftrightarrow> game_machines k = None"
    by (cases k) (simp_all add: game_procs_def)
qed (auto simp: game_procs_def tidy_game guarantees_game)

section \<open>What overlapping turns keep\<close>

abbreviation keeps_tasks ::
  "('k, 's, 'i, 'r, 'm, 'u, 'p, 'q) system \<Rightarrow> ('k, 's, 'i, 'r, 'm, 'u, 'p, 'q) system \<Rightarrow> bool" where
  "keeps_tasks s s' \<equiv> tasks_ok s \<longrightarrow> tasks_ok s'"

lemma guarantees_on_world: "guarantees extends t \<Longrightarrow> guarantees keeps_tasks (on_world t)"
  unfolding on_world_def
  by (erule guarantees_hoist) (auto simp: extends_def tasks_ok_def intro: parked_ok_grows)

lemma guarantees_frame [guarantee_rules]:
  assumes "\<And>s. sys_world (snd (m s)) = sys_world s" "\<And>s. manager_task (snd (m s)) = manager_task s"
    and "\<And>s. nm_task (snd (m s)) = nm_task s"
  shows "guarantees keeps_tasks (atomic m)"
  using assms by (intro guarantees_atomic) (simp add: tasks_ok_def)

lemma parked_ok_poll:
  assumes "parked_ok wk q t" and "poll_next wk rx q = (r, rx', q')"
  shows "(\<exists>v. r = Ready (Some v) \<and> parked_ok wk q' Running) \<or>
    (r = Pending \<and> parked_ok wk q' (Parked (length (wakes q'))))"
proof (cases r)
  case (Ready v)
  with assms(2) obtain m where "v = Some m"
    by (cases rule: poll_next_cases [where q = q and w = wk and rx = rx]) auto
  with Ready assms parked_ok_popped [of wk q t rx m rx' q'] show ?thesis by simp
next
  case Pending
  with assms parked_ok_pending [of wk q t rx rx' q'] show ?thesis by simp
qed

lemma tasks_ok_poll:
  assumes "tasks_ok s"
  shows "tasks_ok (snd (poll_signal s))" and "tasks_ok (snd (poll_notification s))"
proof -
  show "tasks_ok (snd (poll_signal s))"
    using assms parked_ok_poll [of manager_waker "signal_queue (sys_world s)" "manager_task s" "manager_rx s"]
    by (cases "poll_next manager_waker (manager_rx s) (signal_queue (sys_world s))")
      (fastforce simp: poll_signal_def tasks_ok_def)
  show "tasks_ok (snd (poll_notification s))"
    using assms parked_ok_poll [of nm_waker "notification_queue (sys_world s)" "nm_task s" "nm_rx s"]
    by (cases "poll_next nm_waker (nm_rx s) (notification_queue (sys_world s))")
      (fastforce simp: poll_notification_def tasks_ok_def)
qed

lemma guarantees_poll [guarantee_rules]:
  "guarantees keeps_tasks (atomic poll_signal)"
  "guarantees keeps_tasks (atomic poll_notification)"
  by (simp_all add: guarantees_atomic tasks_ok_poll)

lemma guarantees_finishing [guarantee_rules]: "guarantees keeps_tasks (finishing x)"
proof (cases x)
  case (Panicked p)
  have "tasks_ok s \<Longrightarrow> tasks_ok (s\<lparr>manager_task := Finished\<rparr>)" for s :: "('a, 'b, 'c, 'd, 'e, 'f, 'g, 'h) system"
    by (simp add: tasks_ok_def parked_ok_unfold)
  with Panicked show ?thesis by (auto simp: finishing_def cmd_simps intro!: guarantees_atomic)
qed (simp add: finishing_def)

lemma on_ledger_frame [simp]:
  "sys_world (snd (on_ledger c f s)) = sys_world s" "manager_task (snd (on_ledger c f s)) = manager_task s"
  "nm_task (snd (on_ledger c f s)) = nm_task s"
  by (simp_all add: on_ledger_def cmd_simps)

lemma guarantees_task_parts [guarantee_rules]:
  "guarantees keeps_tasks (atomic (on_ledger c f))"
  "guarantees keeps_tasks (send_t m c)"
  "guarantees keeps_tasks (atomic (recv_channel c))"
  "guarantees keeps_tasks (atomic (recv_packet c))"
  "guarantees keeps_tasks (inbound_end c x)"
  "guarantees keeps_tasks (atomic (take_timers c it t))"
  "guarantees keeps_tasks (atomic (take_retained c t))"
  "guarantees keeps_tasks (push_input_t i y)"
  "guarantees keeps_tasks (atomic (modifies (\<lambda>s. s\<lparr>outbox := h s\<rparr>)))"
  unfolding send_t_def inbound_end_def push_input_t_def
  by (intro guarantee_rules guarantees_on_world;
      simp add: recv_channel_def recv_packet_def take_timers_def take_retained_def cmd_simps
        split: prod.split list.split)+

context context_machines
begin

lemma crate_thread_guards:
  assumes "crate_thread R I procs t"
  shows "guarantees keeps_tasks t"
  using assms
proof cases
  case 1
  show ?thesis
    unfolding 1 manager_turn_t_def
    by (intro guarantee_rules guarantees_andthen guarantees_on_world) (erule process_pushes)
next
  case (2 subs)
  show ?thesis unfolding 2 nm_turn_t_def by (intro guarantee_rules)
next
  case (3 np c)
  show ?thesis
    unfolding 3 received_t_def operate_t_def by (cases np) (auto intro!: guarantee_rules simp: cmd_simps)
next
  case (4 pr c ic)
  show ?thesis
    unfolding 4 read_packet_t_def
    by (auto intro!: guarantee_rules guarantees_andthen guarantees_on_world split: sum.split option.split)
next
  case (5 c it)
  show ?thesis
    unfolding 5 tick_t_def release_timer_t_def release_item_t_def
    by (auto intro!: guarantee_rules simp: cmd_simps)
next
  case (6 k process i x)
  then show ?thesis by (auto intro: guarantees_on_world process_pushes)
next
  case (16 t)
  have "guarantees keeps_tasks (clock_t t)"
    unfolding clock_t_def by (intro guarantees_atomic) (simp add: tasks_ok_def cmd_simps)
  then show ?thesis unfolding 16 .
next
  case (17 ic p)
  show ?thesis unfolding 17 packet_arrived_t_def by (intro guarantee_rules) (simp_all add: cmd_simps)
qed (auto intro!: guarantees_on_world guarantee_rules)

end

sublocale context_machines \<subseteq> watched: guarding_threads "crate_thread R I procs" tasks_ok for R I
  by unfold_locales (rule crate_thread_guards)

context context_machines
begin

lemmas crate_ordered = crate.ordered_threads_axioms
lemmas tasks_watched = watched.guarding_threads_axioms

end

end
