(* ===== verification/Rex_Overlap.thy ===== *)
theory Rex_Overlap
  imports Rex_Tasks
begin

text \<open>
  The system of \<open>Rex_System\<close>, whose steps are whole turns, inside the system of overlapping
  threads: a turn that meets no other thread is the step, so every run of turns is one of the
  overlapping runs. Then the properties of all overlapping runs.
\<close>

section \<open>Turns alone\<close>

lemma solo_on_world:
  "solo (on_world t) s = (fst (solo t (sys_world s)), s\<lparr>sys_world := snd (solo t (sys_world s))\<rparr>)"
  unfolding on_world_def by (induction t arbitrary: s) (simp_all add: solo.simps)

lemma solo_clock: "now (sys_world s) \<le> t \<Longrightarrow> solo (clock_t t) s = (Returned (), s\<lparr>sys_world := (sys_world s)\<lparr>now := t\<rparr>\<rparr>)"
  by (simp add: clock_t_def solo_simps cmd_simps max_def)

lemma solo_finishing: "solo (finishing x) s =
  (Returned (), case x of Returned _ \<Rightarrow> s | Panicked p \<Rightarrow> s\<lparr>manager_task := Finished\<rparr>)"
  by (cases x) (simp_all add: finishing_def solo_simps cmd_simps)

lemma solo_manager_turn:
  assumes "context_machines sms procs"
    and "manager_step sms manager_waker (manager_rx s) (sys_world s) = (st, rx, w)"
  shows "snd (solo (manager_turn_t procs) s) =
    s\<lparr>sys_world := w, manager_rx := rx, manager_task := task_after st (signal_queue w)\<rparr>"
proof (cases rule: poll_next_cases [where q = "signal_queue (sys_world s)" and w = manager_waker and rx = "manager_rx s"])
  case (popped sig q)
  show ?thesis
  proof (cases "sms (kind (sig_id sig))")
    case None
    then have "procs (kind (sig_id sig)) = None"
      using context_machines.same_kinds [OF assms(1)] by blast
    with None popped assms(2) show ?thesis
      by (simp add: manager_turn_t_def solo_simps cmd_simps poll_signal_def manager_step_def dispatch_def
          task_after_def split: outcome.splits)
  next
    case (Some sm)
    then obtain process where process: "procs (kind (sig_id sig)) = Some process"
      using context_machines.same_kinds [OF assms(1)] by fastforce
    note alone = context_machines.process_solo [OF assms(1) Some process]
    obtain x w' where run: "sm_process sm (sig_id sig) (sig_input sig) ((sys_world s)\<lparr>signal_queue := q\<rparr>) = (x, w')"
      by fastforce
    with Some process popped assms(2) alone show ?thesis
      by (cases x) (auto simp: manager_turn_t_def solo_simps cmd_simps poll_signal_def manager_step_def dispatch_def
          task_after_def solo_andthen solo_on_world solo_finishing)
  qed
next
  case empty
  with assms(2) show ?thesis
    by (auto simp: manager_turn_t_def solo_simps cmd_simps poll_signal_def manager_step_def task_after_def)
qed

lemma solo_send: "solo (send_t m c) s = (Returned (), s\<lparr>sys_channels := chan_send c m (sys_channels s)\<rparr>)"
  by (simp add: send_t_def solo_simps cmd_simps)

lemma solo_sends:
  "solo (each_t (send_t m) cs) s = (Returned (), s\<lparr>sys_channels := fold (\<lambda>c. chan_send c m) cs (sys_channels s)\<rparr>)"
  by (induction cs arbitrary: s) (simp_all add: solo_simps cmd_simps send_t_def)

lemma solo_nm_turn:
  "poll_next nm_waker (nm_rx s) (notification_queue (sys_world s)) = (Ready (Some m), rx, q) \<Longrightarrow>
    snd (solo (nm_turn_t I subs) s) =
      s\<lparr>sys_world := (sys_world s)\<lparr>notification_queue := q\<rparr>, nm_rx := rx, nm_task := Running,
        sys_channels := nm_route I subs m (sys_channels s)\<rparr>"
  "poll_next nm_waker (nm_rx s) (notification_queue (sys_world s)) = (Pending, rx, q) \<Longrightarrow>
    snd (solo (nm_turn_t I subs) s) =
      s\<lparr>sys_world := (sys_world s)\<lparr>notification_queue := q\<rparr>, nm_rx := rx, nm_task := Parked (length (wakes q))\<rparr>"
  by (auto simp: nm_turn_t_def solo_simps cmd_simps poll_notification_def nm_route_def solo_sends
      solo_send split: option.split simp del: solo_each)

lemma solo_received:
  assumes "chan_recv c (sys_channels s) = (Some m, ch)"
  shows "snd (solo (received_t I np c) s) = receive I np c m (s\<lparr>sys_channels := ch\<rparr>)"
  using assms
  by (auto simp: received_t_def operate_t_def solo_simps cmd_simps recv_channel_def receive_def on_ledger_def timeout_notified_def
      split: boxed_np.split option.split)

lemma solo_read_packet:
  assumes "packets s ic = p # ps" and "inbound_step I pr p (signal_queue (sys_world s)) = (x, q)"
  shows "snd (solo (read_packet_t I pr c ic) s) =
    s\<lparr>sys_world := (sys_world s)\<lparr>signal_queue := q\<rparr>, packets := (packets s)(ic := ps),
      inbound_on := (inbound_on s)(c := x = Returned ())\<rparr>"
  using assms
  by (auto simp: read_packet_t_def solo_simps cmd_simps recv_packet_def solo_andthen inbound_end_def inbound_step_def
      solo_on_world push_signal_t_def split: outcome.splits sum.splits option.splits)

subsection \<open>The tick alone\<close>

definition with_ledger ::
  "channel \<Rightarrow> ('k, 'r) ledger \<Rightarrow> ('k, 'i) signal deque \<Rightarrow> ('k, 's, 'i, 'r, 'm, 'u, 'p, 'q) system \<Rightarrow>
   ('k, 's, 'i, 'r, 'm, 'u, 'p, 'q) system" where
  "with_ledger c L q s = s\<lparr>sys_world := (sys_world s)\<lparr>signal_queue := q\<rparr>, ledgers := (ledgers s)(c := L)\<rparr>"

lemma with_ledger_same: "with_ledger c (ledgers s c) (signal_queue (sys_world s)) s = s"
  by (simp add: with_ledger_def)

lemma solo_push_input:
  "solo (push_input_t i x) (with_ledger c L q s) = (Returned (), with_ledger c L (push_signal i x q) s)"
  by (cases s) (simp add: with_ledger_def push_input_t_def push_signal_def solo_simps cmd_simps solo_on_world
      push_signal_t_def split: option.split)

lemma solo_on_ledger:
  "on_ledger c f (with_ledger c L q s) = (Returned (), with_ledger c (f L) q s)"
  by (cases s) (simp add: with_ledger_def on_ledger_def cmd_simps)

lemma solo_release_timers:
  "solo (each_t (release_timer_t I c t) is) (with_ledger c L q s) =
    (Returned (), case release_timers I t is (L, q) of (L', q') \<Rightarrow> with_ledger c L' q' s)"
  by (induction "is" arbitrary: L q)
    (simp_all add: solo_simps cmd_simps release_timer_t_def solo_on_ledger solo_push_input)

lemma solo_release_retained:
  "solo (each_t (release_item_t I) xs) (with_ledger c L q s) =
    (Returned (), with_ledger c L (release_retained I xs q) s)"
  by (induction xs arbitrary: q)
    (auto simp: solo_simps cmd_simps release_item_t_def solo_push_input)

lemma solo_tick:
  assumes "tick I it (now (sys_world s)) (ledgers s c, signal_queue (sys_world s)) = (L, q)"
  shows "snd (solo (tick_t I c it) s) = with_ledger c L q s"
proof -
  let ?t = "now (sys_world s)"
  let ?L0 = "ledgers s c"
  obtain L1 q1 where r: "release_timers I ?t (due_ids it ?t ?L0)
      (?L0\<lparr>timers := snd (bt_split_off ?t (timers ?L0))\<rparr>, signal_queue (sys_world s)) = (L1, q1)"
    by fastforce
  have taken: "take_timers c it ?t s = (Returned (due_ids it ?t ?L0),
      with_ledger c (?L0\<lparr>timers := snd (bt_split_off ?t (timers ?L0))\<rparr>) (signal_queue (sys_world s)) s)"
    using solo_on_ledger [of c _ ?L0 "signal_queue (sys_world s)" s]
    by (simp add: take_timers_def with_ledger_same)
  have "take_retained c ?t (with_ledger c L1 q1 s) = (Returned (due_items ?t L1),
      with_ledger c (L1\<lparr>retainer := snd (bt_split_off ?t (retainer L1))\<rparr>) q1 s)"
    by (simp add: take_retained_def solo_on_ledger) (simp add: with_ledger_def)
  then show ?thesis
    using assms r taken
    by (simp add: tick_t_def tick_def Let_def solo_simps cmd_simps solo_release_timers solo_release_retained
        del: solo_each)
qed

section \<open>Every run of turns is an overlapping run\<close>

text \<open>The threads that make up one step, in the order in which they run.\<close>

primrec event_threads ::
  "('k, 's, 'i, 'r, 'm, 't, 'p, 'q) ingress \<Rightarrow>
   ('k, 'i, ('k, 's, 'i, 'm, 'u) world, 'p, 't) program \<Rightarrow>
   ('k \<rightharpoonup> 'k state_id \<Rightarrow> 'i \<Rightarrow> ('k, 's, 'i, 'm, 'u, unit) ctx_thread) \<Rightarrow>
   ('k, 'i, 'm, 'p) sys_event \<Rightarrow> ('k, 's, 'i, 'r, 'm, 'u, 'p, 'q, unit) sys_thread list" where
  "event_threads I P procs (Manager_turn t) = [clock_t t, manager_turn_t procs]"
| "event_threads I P procs Nm_turn = (case sys_subscriptions P of
     Some subs \<Rightarrow> [nm_turn_t I subs]
   | None \<Rightarrow> [])"
| "event_threads I P procs (Received c) = (case prog_role P c of
     Some np \<Rightarrow> [received_t I np c]
   | None \<Rightarrow> [])"
| "event_threads I P procs (Read_packet c) = (case prog_role P c of
     Some (Ingress_np ad) \<Rightarrow> (case inbound_rx ad of
       Some ic \<Rightarrow> [read_packet_t I (router ad) c ic]
     | None \<Rightarrow> [])
   | _ \<Rightarrow> [])"
| "event_threads I P procs (Ticked c it t) = [clock_t t, tick_t I c it]"
| "event_threads I P procs (Signalled p) = [on_world (push_signal_t p)]"
| "event_threads I P procs (Notified n) = [on_world (push_notification_t n)]"
| "event_threads I P procs (Packet_arrived ic p) = [packet_arrived_t ic p]"

abbreviation turn_threads ::
  "('k, 's, 'i, 'r, 'm, 't, 'p, 'q) ingress \<Rightarrow>
   ('k, 'i, ('k, 's, 'i, 'm, 'u) world, 'p, 't) program \<Rightarrow>
   ('k \<rightharpoonup> 'k state_id \<Rightarrow> 'i \<Rightarrow> ('k, 's, 'i, 'm, 'u, unit) ctx_thread) \<Rightarrow>
   ('k, 'i, 'm, 'p) sys_event list \<Rightarrow> ('k, 's, 'i, 'r, 'm, 'u, 'p, 'q, unit) sys_thread list" where
  "turn_threads I P procs es \<equiv> concat (map (event_threads I P procs) es)"

lemma step_threads:
  assumes "context_machines (sys_machines P) procs" and "sys_step I P s e s'"
  shows "fold (\<lambda>t s. snd (solo t s)) (event_threads I P procs e) s = s'"
    and "\<forall>t \<in> set (event_threads I P procs e). crate_thread R I procs t"
proof -
  show "fold (\<lambda>t s. snd (solo t s)) (event_threads I P procs e) s = s'"
    using assms(2)
  proof cases
    case (manager_turn t st rx w)
    then show ?thesis
      using solo_manager_turn [OF assms(1), of "s\<lparr>sys_world := (sys_world s)\<lparr>now := t\<rparr>\<rparr>" st rx w]
      by (simp add: solo_clock)
  next
    case (ticked c tm t it L q)
    then show ?thesis
      using solo_tick [of I it "s\<lparr>sys_world := (sys_world s)\<lparr>now := t\<rparr>\<rparr>" c L q]
      by (cases s) (auto simp: solo_clock with_ledger_def)
  qed (simp_all add: solo_nm_turn solo_received solo_read_packet solo_on_world push_signal_t_def
      push_notification_t_def packet_arrived_t_def solo_simps cmd_simps)
  show "\<forall>t \<in> set (event_threads I P procs e). crate_thread R I procs t"
    using assms(2) by cases (auto intro: crate_thread.intros)
qed

lemma run_threads:
  assumes "context_machines (sys_machines P) procs" and "sys_run I P s es s'"
  shows "fold (\<lambda>t s. snd (solo t s)) (turn_threads I P procs es) s = s' \<and>
    (\<forall>t \<in> set (turn_threads I P procs es). crate_thread R I procs t)"
  using assms(2)
proof (induction rule: sys_run.induct)
  case (run_snoc s es s' e s'')
  with step_threads(1) [OF assms(1) run_snoc.hyps(2)] step_threads(2) [OF assms(1) run_snoc.hyps(2), of R]
  show ?case by auto
qed simp

lemma run_one_by_one:
  assumes "context_machines (sys_machines P) procs" and "sys_run I P s es s'"
  shows "\<exists>p. reaches Q (pool_new (turn_threads I P procs es) s) p \<and> all_halted p \<and> owner p = Map.empty \<and> shared p = s'"
proof -
  note run = run_threads [OF assms, of undefined]
  have "\<forall>t \<in> set (turn_threads I P procs es). tidy lock_rank [] t []"
    using run ordered_threads.in_order [OF context_machines.crate_ordered [OF assms(1), of undefined I]] by blast
  from threads_one_by_one [OF this, of "[]" Q s] run show ?thesis by simp
qed

lemma run_overlaps:
  assumes "context_machines (sys_machines P) procs" and "sys_run I P s es s'"
  shows "\<exists>p. reaches (crate_thread R I procs) (pool_new [] s) p \<and> all_halted p \<and> owner p = Map.empty \<and> shared p = s'"
  using run_one_by_one [OF assms, of "crate_thread R I procs"] reaches_trans [OF reaches_pool]
    run_threads [OF assms, of R] by meson

section \<open>Properties\<close>

text \<open>
  C18. The steps of the system are not coarser than the code allows: put the turns of any run,
  in which the tasks take whole turns one after the other, into one pool of threads, each turn
  the thread of its task and each lock and each access a step of its own. With these threads and
  no others, the pool can come to a point where all are done and the state is the one in which
  the run ended.
\<close>

theorem turns_are_threads:
  assumes "context_machines (sys_machines P) procs" and "sys_run I P s es s'"
  shows "\<exists>p. reaches (\<lambda>_. False) (pool_new (concat (map (event_threads I P procs) es)) s) p \<and>
    all_halted p \<and> shared p = s'"
  using run_one_by_one [OF assms] by blast

theorem turns_are_threads_witness:
  "\<exists>es p. sys_run game_ingress duel_program sample_start es sample_end \<and>
    reaches (\<lambda>_. False)
      (pool_new (concat (map (event_threads game_ingress duel_program (game_procs (\<lambda>_. 0))) es)) sample_start) p \<and>
    all_halted p \<and> shared p = sample_end"
proof -
  obtain es where run: "sys_run game_ingress duel_program sample_start es sample_end"
    using sample_run by blast
  with turns_are_threads [OF _ run, of "game_procs (\<lambda>_. 0)"] game_ctx.context_machines_axioms [of "\<lambda>_. 0"]
  show ?thesis by auto
qed

text \<open>
  C11. No deadlock: start any number of turns of the tasks, of machines that process a signal
  and of calls of a context, at any moment and in any number of threads, and let them overlap in
  any order. In every state that can be reached some thread can move unless all are done, and
  whatever the order of their moves, all of them end. The machines may be any that call the
  operations of their context one after the other.
\<close>

theorem threads_never_deadlock:
  assumes "context_machines sms procs" and "reaches (crate_thread R I procs) (pool_new [] s) p"
  shows "\<not> stuck p \<and> inevitably all_halted p"
  using ordered_threads.never_stuck [OF context_machines.crate_ordered assms(2)]
    ordered_threads.always_ends [OF context_machines.crate_ordered assms(2)] assms(1) by blast

theorem threads_never_deadlock_witness:
  "\<exists>p. reaches (crate_thread game_rex game_ingress (game_procs (\<lambda>_. 0))) (pool_new [] sample_start) p \<and>
    threads p = [manager_turn_t (game_procs (\<lambda>_. 0)), tick_t game_ingress 0 sorted_list_of_set] \<and>
    \<not> stuck p \<and> inevitably all_halted p"
proof -
  let ?P = "crate_thread game_rex game_ingress (game_procs (\<lambda>_. 0))"
  let ?p = "pool_new [manager_turn_t (game_procs (\<lambda>_. 0)), tick_t game_ingress 0 sorted_list_of_set] sample_start"
  have p: "reaches ?P (pool_new [] sample_start) ?p"
    by (rule reaches_pool) (simp add: crate_thread.intros sorted_hash_order)
  with threads_never_deadlock [OF game_ctx.context_machines_axioms p] show ?thesis
    by (intro exI [of _ ?p]) (simp add: pool_new_def)
qed

text \<open>
  C17. However the turns and the calls of other threads overlap, a task that is parked and whose
  waker was not called since has nothing in its queue: neither the manager nor the notification
  manager can sleep on a signal or a notification.
\<close>

theorem overlaps_lose_no_wakeup:
  assumes "context_machines sms procs"
    and "reaches (crate_thread R I procs) (pool_new [] (spawned (world_new t u))) p"
    and "shared p = s"
  shows "(\<not> runnable manager_waker (signal_queue (sys_world s)) (manager_task s) \<longrightarrow>
      manager_task s = Finished \<or> queue_values (signal_queue (sys_world s)) = []) \<and>
    (\<not> runnable nm_waker (notification_queue (sys_world s)) (nm_task s) \<longrightarrow>
      queue_values (notification_queue (sys_world s)) = [])"
proof -
  have "tasks_ok s"
    using guarding_threads.always [OF context_machines.tasks_watched [OF assms(1)] assms(2) spawned_tasks_ok] assms(3)
    by simp
  then show ?thesis
    using parked_ok_quiet [of manager_waker "signal_queue (sys_world s)" "manager_task s"]
      parked_ok_quiet [of nm_waker "notification_queue (sys_world s)" "nm_task s"]
    by (auto simp: tasks_ok_def)
qed

theorem overlaps_lose_no_wakeup_witness:
  "queue_values (signal_queue (sys_world sample_end)) = [] \<and>
    queue_values (notification_queue (sys_world sample_end)) = []"
proof -
  obtain es where "sys_run game_ingress duel_program sample_start es sample_end"
    using sample_run by blast
  with run_overlaps [of duel_program "game_procs (\<lambda>_. 0)" game_ingress sample_start es sample_end game_rex]
    game_ctx.context_machines_axioms [of "\<lambda>_. 0"]
  obtain p where p: "reaches (crate_thread game_rex game_ingress (game_procs (\<lambda>_. 0)))
      (pool_new [] (spawned (world_new 0 no_user))) p" "shared p = sample_end"
    by (auto simp: sample_start_def)
  from overlaps_lose_no_wakeup [OF game_ctx.context_machines_axioms p] show ?thesis
    by (auto simp: sample_end_def runnable_def)
qed

end
