(* ===== verification/Rex_Linear.thy ===== *)
theory Rex_Linear
  imports Rex_Locks
begin

text \<open>
  Updates of one store from several threads at once. Each update is seen as a whole, since the
  tree stays locked for its length; the signal to the parent is pushed after the lock was given
  back, so the order of the signals may differ from that of the updates.
\<close>

section \<open>The shape of an update\<close>

text \<open>What remains once the tree is updated, for the parent \<open>po\<close>.\<close>

definition signal_part ::
  "('k, 's, 'i, 'r, 'm, 't) rex \<Rightarrow> 's \<Rightarrow> 'k state_id option \<Rightarrow>
   ('k, 's, 'i, 'm, 'u, 'k state_id option) ctx_thread" where
  "signal_part R s po = (case parent_signals R po s of
     [] \<Rightarrow> returns po
   | sig # _ \<Rightarrow> Lock Signal_mutex (Access (\<lambda>w. w\<lparr>signal_queue := push_back sig (signal_queue w)\<rparr>)
       (\<lambda>_. Unlock Signal_mutex (returns po))))"

definition tree_update ::
  "('k, 's, 'i, 'r, 'm, 't) rex \<Rightarrow> 'k state_id \<Rightarrow> 's \<Rightarrow> tree_ref \<Rightarrow>
   (('k, 's, 'i, 'm, 'u) world, 'k state_id option) cmd" where
  "tree_update R i s r = on_store (locked r (update_and_get_parent_id R \<lparr>upd_id = i, upd_state = s\<rparr>))"

abbreviation ends_with ::
  "('k, 's, 'i, 'r, 'm, 't) rex \<Rightarrow> 's \<Rightarrow> 'k state_id option outcome \<Rightarrow>
   ('k, 's, 'i, 'm, 'u, 'k state_id option) ctx_thread" where
  "ends_with R s x \<equiv> (case x of Returned po \<Rightarrow> signal_part R s po | Panicked p \<Rightarrow> Halt (Panicked p))"

definition tree_part ::
  "('k, 's, 'i, 'r, 'm, 't) rex \<Rightarrow> 'k state_id \<Rightarrow> 's \<Rightarrow> tree_ref option \<Rightarrow>
   ('k, 's, 'i, 'm, 'u, 'k state_id option) ctx_thread" where
  "tree_part R i s t = (case t of
     None \<Rightarrow> Halt (Panicked MissingSmTree)
   | Some r \<Rightarrow> Lock (Tree_mutex r) (Access (\<lambda>w. snd (tree_update R i s r w))
       (\<lambda>w. Unlock (Tree_mutex r) (ends_with R s (fst (tree_update R i s r w))))))"

lemma update_shape:
  assumes "\<not> is_nil i"
  shows "update_state_and_signal_t R sh i s = Lock (Shard (sh i)) (Access (\<lambda>w. w)
    (\<lambda>w. Unlock (Shard (sh i)) (tree_part R i s (trees (state_store w) i))))"
proof -
  have signal: "(case x of
       Returned v \<Rightarrow> (case v of None \<Rightarrow> returns None
         | Some p \<Rightarrow> seqt (case state_change R p s of None \<Rightarrow> returns ()
              | Some sig \<Rightarrow> push_signal_t (Push_back sig)) (returns (Some p)))
     | Panicked p \<Rightarrow> Halt (Panicked p)) = ends_with R s x" for x :: "'a state_id option outcome"
    by (auto simp: signal_part_def parent_signals_def state_change_def seqt_def bindt_def andthen.simps
        push_signal_t_def with_lock_def atomic_def cmd_simps split: outcome.split option.split)
  have look: "(\<lambda>w. snd (on_store (gets (\<lambda>st. trees st i)) w)) = (\<lambda>w. w)"
    by (simp add: fun_eq_iff cmd_simps)
  show ?thesis
    using assms
    by (auto simp: update_state_and_signal_t_def update_in_tree_t_def get_tree_t_def seqt_def assert_t_def bindt_def
        andthen.simps with_lock_def atomic_def andthen_assoc signal look cmd_simps tree_part_def locked_t_def
        tree_update_def fun_eq_iff split: option.split)
qed

section \<open>How far an update is\<close>

text \<open>
  \<open>Before\<close>: the tree is not updated yet; \<open>Between\<close>: it is, and the signal, if there is one, is
  not pushed; \<open>After\<close>: the signal is pushed.
\<close>

datatype progress = Before | Between | After

inductive stage ::
  "('k, 's, 'i, 'r, 'm, 't) rex \<Rightarrow> 'k sharding \<Rightarrow> 'k state_id \<Rightarrow> 's \<Rightarrow> tree_ref \<Rightarrow> 'k state_id option \<Rightarrow>
   progress \<Rightarrow> ('k, 's, 'i, 'm, 'u, 'k state_id option) ctx_thread \<Rightarrow> bool"
  for R :: "('k, 's, 'i, 'r, 'm, 't) rex" and sh :: "'k sharding" and i :: "'k state_id" and s :: 's
  and r :: tree_ref and po :: "'k state_id option" where
  "stage R sh i s r po Before (Lock (Shard (sh i)) (Access (\<lambda>w. w)
    (\<lambda>w. Unlock (Shard (sh i)) (tree_part R i s (trees (state_store w) i)))))"
| "stage R sh i s r po Before (Access (\<lambda>w. w)
    (\<lambda>w. Unlock (Shard (sh i)) (tree_part R i s (trees (state_store w) i))))"
| "stage R sh i s r po Before (Unlock (Shard (sh i)) (tree_part R i s (Some r)))"
| "stage R sh i s r po Before (tree_part R i s (Some r))"
| "stage R sh i s r po Before (Access (\<lambda>w. snd (tree_update R i s r w))
       (\<lambda>w. Unlock (Tree_mutex r) (ends_with R s (fst (tree_update R i s r w)))))"
| "stage R sh i s r po Between (Unlock (Tree_mutex r) (signal_part R s po))"
| "stage R sh i s r po Between (signal_part R s po)"
| "stage R sh i s r po Between (Access (\<lambda>w. w\<lparr>signal_queue := push_back sig (signal_queue w)\<rparr>) (\<lambda>_. Unlock Signal_mutex (returns po)))"
  if "parent_signals R po s = [sig]"
| "stage R sh i s r po After (Unlock Signal_mutex (returns po))" if "parent_signals R po s = [sig]"
| "stage R sh i s r po After (returns po)" if "parent_signals R po s = [sig]"

lemma stage_start: "\<not> is_nil i \<Longrightarrow> stage R sh i s r po Before (update_state_and_signal_t R sh i s)"
  by (simp add: update_shape stage.intros)

lemma parent_signals_cases:
  obtains "parent_signals R po s = []" | sig where "parent_signals R po s = [sig]"
proof -
  have "parent_signals R po s = [] \<or> (\<exists>sig. parent_signals R po s = [sig])"
    by (simp add: parent_signals_def split: option.split)
  then show thesis using that by blast
qed

lemma stage_halted:
  assumes "stage R sh i s r po n t" and "halted t"
  shows "t = returns po \<and> n \<noteq> Before \<and> (n = Between \<longrightarrow> parent_signals R po s = [])"
  using assms
  by cases (auto simp: tree_part_def signal_part_def split: list.splits)

text \<open>One move of a thread that is at some stage.\<close>

inductive moves_to :: "('l, 'w, 'a) thread \<Rightarrow> 'w \<Rightarrow> ('l, 'w, 'a) thread \<Rightarrow> 'w \<Rightarrow> bool" where
  "moves_to (Lock l t) w t w"
| "moves_to (Unlock l t) w t w"
| "moves_to (Access g k) w (k w) (g w)"

lemma step_moves:
  assumes "thread_step p j p'"
  shows "j < length (threads p) \<and>
    (\<exists>t. threads p' = (threads p)[j := t] \<and> moves_to (threads p ! j) (shared p) t (shared p'))"
  using assms by cases (auto intro: moves_to.intros)

lemma stage_moves:
  assumes "stage R sh i s r po n t" and "moves_to t w t' w'"
    and "trees (state_store w) i = Some r" and "fst (tree_update R i s r w) = Returned po"
  shows "(stage R sh i s r po n t' \<and> w' = w) \<or>
    (n = Before \<and> stage R sh i s r po Between t' \<and> w' = snd (tree_update R i s r w)) \<or>
    (n = Between \<and> stage R sh i s r po After t' \<and> (\<exists>sig. parent_signals R po s = [sig] \<and> w' = w\<lparr>signal_queue := push_back sig (signal_queue w)\<rparr>))"
  using assms(1,2)
proof cases
  case 4
  with assms(2) have "t' = Access (\<lambda>w. snd (tree_update R i s r w))
       (\<lambda>w. Unlock (Tree_mutex r) (ends_with R s (fst (tree_update R i s r w)))) \<and> w' = w"
    by (auto simp: tree_part_def elim: moves_to.cases)
  with 4 show ?thesis by (auto intro: stage.intros)
next
  case 7
  show ?thesis
  proof (cases rule: parent_signals_cases [of R po s])
    case 1
    with 7 assms(2) show ?thesis by (auto simp: signal_part_def elim: moves_to.cases)
  next
    case (2 sig)
    with 7 assms(2) have "t' = Access (\<lambda>w. w\<lparr>signal_queue := push_back sig (signal_queue w)\<rparr>) (\<lambda>_. Unlock Signal_mutex (returns po)) \<and> w' = w"
      by (auto simp: signal_part_def elim: moves_to.cases)
    with 7 2 show ?thesis by (auto intro: stage.intros)
  qed
qed (use assms(3,4) in \<open>auto elim!: moves_to.cases intro: stage.intros\<close>)

lemma tree_update_effect:
  assumes "world_wf w" and "trees (state_store w) i = Some r"
  shows "\<exists>w'. tree_update R i s r w = (Returned (world_parents w i), w') \<and> world_wf w' \<and>
    world_states w' = (world_states w)(i \<mapsto> s) \<and> world_parents w' = world_parents w \<and>
    trees (state_store w') = trees (state_store w) \<and> signal_queue w' = signal_queue w \<and>
    notification_queue w' = notification_queue w \<and> now w' = now w \<and> user w' = user w"
proof -
  have wf: "store_wf (state_store w)" using assms(1) by (simp add: world_wf_def)
  have "i \<in> dom (world_states w)" using wf assms(2) by (simp add: dom_forest domIff)
  from update_tree_forest [OF wf this, of R s] obtain st' where
    st': "update_in_tree R i s (state_store w) = (Returned (world_parents w i), st')" "store_wf st'"
      "forest_states st' = (world_states w)(i \<mapsto> s)" "forest_parents st' = world_parents w" by metis
  have "update_in_tree R i s (state_store w) =
      locked r (update_and_get_parent_id R \<lparr>upd_id = i, upd_state = s\<rparr>) (state_store w)"
    using assms(2) store_wf_tree(4) [OF wf assms(2)] by (simp add: update_in_tree_def get_tree_def cmd_simps)
  with st'(1) have run: "locked r (update_and_get_parent_id R \<lparr>upd_id = i, upd_state = s\<rparr>) (state_store w) =
      (Returned (world_parents w i), st')" by simp
  moreover from run have "trees st' = trees (state_store w)" by (auto simp: locked_def split: prod.splits)
  ultimately show ?thesis using st'(2-4) by (simp add: tree_update_def cmd_simps world_wf_def)
qed

section \<open>All of them together\<close>

type_synonym ('k, 's) updates = "('k state_id \<times> 's) list"

abbreviation states_after ::
  "('k, 's) updates \<Rightarrow> nat list \<Rightarrow> ('k state_id \<rightharpoonup> 's) \<Rightarrow> ('k state_id \<rightharpoonup> 's)" where
  "states_after us \<pi> m \<equiv> fold (\<lambda>k m. m(fst (us ! k) \<mapsto> snd (us ! k))) \<pi> m"

definition signals_of ::
  "('k, 's, 'i, 'r, 'm, 't) rex \<Rightarrow> ('k state_id \<rightharpoonup> 'k state_id) \<Rightarrow> ('k, 's) updates \<Rightarrow> nat list \<Rightarrow>
   ('k, 'i) signal list" where
  "signals_of R Q us \<rho> = concat (map (\<lambda>k. parent_signals R (Q (fst (us ! k))) (snd (us ! k))) \<rho>)"

text \<open>The world after the trees were updated in the order \<open>\<pi>\<close> and the signals pushed in the order \<open>\<rho>\<close>.\<close>

definition updated ::
  "('k, 's, 'i, 'r, 'm, 't) rex \<Rightarrow> ('k, 's) updates \<Rightarrow> ('k, 's, 'i, 'm, 'u) world \<Rightarrow> nat list \<Rightarrow> nat list \<Rightarrow>
   ('k, 's, 'i, 'm, 'u) world \<Rightarrow> bool" where
  "updated R us w0 \<pi> \<rho> w \<longleftrightarrow> world_wf w \<and> world_states w = states_after us \<pi> (world_states w0) \<and>
     world_parents w = world_parents w0 \<and> trees (state_store w) = trees (state_store w0) \<and>
     signal_queue w = fold push_back (signals_of R (world_parents w0) us \<rho>) (signal_queue w0) \<and>
     notification_queue w = notification_queue w0"

lemma updated_tree:
  assumes "updated R us w0 \<pi> \<rho> w" and "trees (state_store w0) (fst (us ! k)) = Some r"
  shows "fst (tree_update R (fst (us ! k)) (snd (us ! k)) r w) = Returned (world_parents w0 (fst (us ! k)))"
    and "updated R us w0 (\<pi> @ [k]) \<rho> (snd (tree_update R (fst (us ! k)) (snd (us ! k)) r w))"
  using tree_update_effect [of w "fst (us ! k)" r R "snd (us ! k)"] assms by (auto simp: updated_def)

lemma updated_signal:
  assumes "updated R us w0 \<pi> \<rho> w"
    and "parent_signals R (world_parents w0 (fst (us ! k))) (snd (us ! k)) = [sig]"
  shows "updated R us w0 \<pi> (\<rho> @ [k]) (w\<lparr>signal_queue := push_back sig (signal_queue w)\<rparr>)"
  using assms by (simp add: updated_def signals_of_def world_wf_def)

lemma update_alone:
  assumes "world_wf w" and "trees (state_store w) i = Some r"
  shows "snd (update_state_and_signal R i s w) = (snd (tree_update R i s r w))
    \<lparr>signal_queue := fold push_back (parent_signals R (world_parents w i) s) (signal_queue w)\<rparr>"
proof -
  from tree_update_effect [OF assms, of R s] obtain w' where
    w': "tree_update R i s r w = (Returned (world_parents w i), w')" "signal_queue w' = signal_queue w" by blast
  have "\<not> is_nil i" using assms store_wf_tree(4) by (auto simp: world_wf_def)
  then have "on_store (update_in_tree R i s) w = tree_update R i s r w"
    using assms(2) by (simp add: update_in_tree_def get_tree_def tree_update_def cmd_simps)
  with w' show ?thesis
    by (cases "world_parents w i")
      (simp_all add: update_state_and_signal_def signal_state_change_def state_change_def parent_signals_def
        bindc_apply cmd_simps del: on_store_apply split: option.split)
qed

lemma updates_in_order:
  assumes "world_wf w0" and "\<forall>k \<in> set \<pi>. trees (state_store w0) (fst (us ! k)) \<noteq> None"
  shows "updated R us w0 \<pi> \<pi>
    (fold (\<lambda>k w. snd (update_state_and_signal R (fst (us ! k)) (snd (us ! k)) w)) \<pi> w0)"
  using assms(2)
proof (induction \<pi> rule: rev_induct)
  case Nil
  then show ?case using assms(1) by (simp add: updated_def signals_of_def)
next
  case (snoc k \<pi>)
  let ?w = "fold (\<lambda>k w. snd (update_state_and_signal R (fst (us ! k)) (snd (us ! k)) w)) \<pi> w0"
  have IH: "updated R us w0 \<pi> \<pi> ?w" using snoc by simp
  from snoc.prems obtain r where r0: "trees (state_store w0) (fst (us ! k)) = Some r" by auto
  then have r: "world_wf ?w" "trees (state_store ?w) (fst (us ! k)) = Some r"
    "world_parents ?w = world_parents w0" using IH by (simp_all add: updated_def)
  from updated_tree(2) [OF IH r0] show ?case
    using IH by (simp add: update_alone [OF r(1,2)] r(3) updated_def signals_of_def world_wf_def)
qed

definition update_threads ::
  "('k, 's, 'i, 'r, 'm, 't) rex \<Rightarrow> 'k sharding \<Rightarrow> ('k, 's) updates \<Rightarrow>
   ('k, 's, 'i, 'm, 'u, 'k state_id option) ctx_thread list" where
  "update_threads R sh us = map (\<lambda>(i, s). update_state_and_signal_t R sh i s) us"

text \<open>
  The invariant of a pool of updates: \<open>g\<close> says how far each is, \<open>\<pi>\<close> lists those that updated
  their tree and \<open>\<rho>\<close> those that pushed their signal, each in the order in which they did.
\<close>

definition updating ::
  "('k, 's, 'i, 'r, 'm, 't) rex \<Rightarrow> 'k sharding \<Rightarrow> ('k, 's) updates \<Rightarrow> ('k, 's, 'i, 'm, 'u) world \<Rightarrow>
   (lock, ('k, 's, 'i, 'm, 'u) world, 'k state_id option) pool \<Rightarrow>
   (nat \<Rightarrow> progress) \<Rightarrow> nat list \<Rightarrow> nat list \<Rightarrow> bool" where
  "updating R sh us w0 p g \<pi> \<rho> \<longleftrightarrow>
     length (threads p) = length us \<and>
     (\<forall>k < length us. stage R sh (fst (us ! k)) (snd (us ! k)) (the (trees (state_store w0) (fst (us ! k))))
        (world_parents w0 (fst (us ! k))) (g k) (threads p ! k)) \<and>
     distinct \<pi> \<and> set \<pi> = {k. k < length us \<and> g k \<noteq> Before} \<and>
     distinct \<rho> \<and> set \<rho> = {k. k < length us \<and> g k = After} \<and>
     updated R us w0 \<pi> \<rho> (shared p)"

lemma updating_start:
  assumes "world_wf w0" and "\<forall>k < length us. trees (state_store w0) (fst (us ! k)) \<noteq> None"
  shows "updating R sh us w0 (pool_new (update_threads R sh us) w0) (\<lambda>_. Before) [] []"
proof -
  have "\<not> is_nil (fst (us ! k))" if "k < length us" for k
    using assms that store_wf_tree(4) by (fastforce simp: world_wf_def)
  then show ?thesis
    using assms(1)
    by (auto simp: updating_def pool_new_def update_threads_def updated_def signals_of_def split_beta stage_start)
qed

lemma updating_step:
  assumes "updating R sh us w0 p g \<pi> \<rho>" and "thread_step p j p'"
    and "\<forall>k < length us. trees (state_store w0) (fst (us ! k)) \<noteq> None"
  shows "\<exists>g' \<pi>' \<rho>'. updating R sh us w0 p' g' \<pi>' \<rho>'"
proof -
  have U: "updated R us w0 \<pi> \<rho> (shared p)" and n: "length (threads p) = length us"
    and S: "\<And>k. k < length us \<Longrightarrow> stage R sh (fst (us ! k)) (snd (us ! k)) (the (trees (state_store w0) (fst (us ! k))))
        (world_parents w0 (fst (us ! k))) (g k) (threads p ! k)"
    using assms(1) by (simp_all add: updating_def)
  from step_moves [OF assms(2)] obtain t where j: "j < length us" and t: "threads p' = (threads p)[j := t]"
    and m: "moves_to (threads p ! j) (shared p) t (shared p')" using n by auto
  let ?i = "fst (us ! j)" and ?s = "snd (us ! j)"
  from assms(3) j obtain r where r: "trees (state_store w0) ?i = Some r" by auto
  let ?stage = "stage R sh ?i ?s r (world_parents w0 ?i)"
  have others: "\<forall>k < length us. stage R sh (fst (us ! k)) (snd (us ! k)) (the (trees (state_store w0) (fst (us ! k))))
      (world_parents w0 (fst (us ! k))) ((g(j := x)) k) ((threads p)[j := t] ! k)" if "?stage x t" for x
    using S that r n by (auto simp: nth_list_update)
  have tr: "trees (state_store (shared p)) ?i = Some r" using U r by (simp add: updated_def)
  from S [OF j] r have "?stage (g j) (threads p ! j)" by simp
  from stage_moves [OF this m tr updated_tree(1) [OF U r]] show ?thesis
  proof (elim disjE conjE exE)
    assume a: "?stage (g j) t" "shared p' = shared p"
    then have "updating R sh us w0 p' (g(j := g j)) \<pi> \<rho>"
      using assms(1) others [OF a(1)] t n by (simp add: updating_def)
    then show ?thesis by blast
  next
    assume a: "g j = Before" "?stage Between t" "shared p' = snd (tree_update R ?i ?s r (shared p))"
    have "updated R us w0 (\<pi> @ [j]) \<rho> (shared p')"
      using updated_tree(2) [OF U r] a(3) by simp
    then have "updating R sh us w0 p' (g(j := Between)) (\<pi> @ [j]) \<rho>"
      using assms(1) others [OF a(2)] t n j a(1) by (auto simp: updating_def)
    then show ?thesis by blast
  next
    fix sig
    assume a: "g j = Between" "?stage After t" "parent_signals R (world_parents w0 ?i) ?s = [sig]"
      "shared p' = (shared p)\<lparr>signal_queue := push_back sig (signal_queue (shared p))\<rparr>"
    have "updated R us w0 \<pi> (\<rho> @ [j]) (shared p')"
      using updated_signal [OF U a(3)] a(4) by simp
    then have "updating R sh us w0 p' (g(j := After)) \<pi> (\<rho> @ [j])"
      using assms(1) others [OF a(2)] t n j a(1) by (auto simp: updating_def)
    then show ?thesis by blast
  qed
qed

lemma updating_reaches:
  assumes "reaches (\<lambda>_. False) (pool_new (update_threads R sh us) w0) p" and "world_wf w0"
    and "\<forall>k < length us. trees (state_store w0) (fst (us ! k)) \<noteq> None"
  shows "\<exists>g \<pi> \<rho>. updating R sh us w0 p g \<pi> \<rho>"
  using assms(1)
proof (induction rule: reaches.induct)
  case reaches_refl
  show ?case using updating_start [OF assms(2,3)] by blast
next
  case (reaches_step s' i s'')
  then show ?case using updating_step assms(3) by blast
qed simp

text \<open>
  Any number of updates of any trees of a store, from as many threads at once, in any
  schedule: each returns the parent of its id, and the store ends as if the updates had been
  made one after the other in some order; the parents get the same signals as in that order,
  though they may get them in another order.
\<close>

theorem overlapping_updates:
  assumes "world_wf w" and "\<forall>(i, s) \<in> set us. i \<in> dom (world_states w)"
    and "reaches (\<lambda>_. False) (pool_new (update_threads R sh us) w) p" and "all_halted p"
  shows "threads p = map (\<lambda>(i, s). returns (world_parents w i)) us \<and>
    (\<exists>\<pi> w'. distinct \<pi> \<and> set \<pi> = {..<length us} \<and>
      w' = fold (\<lambda>k w. snd (update_state_and_signal R (fst (us ! k)) (snd (us ! k)) w)) \<pi> w \<and>
      world_states (shared p) = world_states w' \<and> world_parents (shared p) = world_parents w' \<and>
      front_values (signal_queue (shared p)) = front_values (signal_queue w') \<and>
      mset (back_values (signal_queue (shared p))) = mset (back_values (signal_queue w')))"
proof -
  have wf: "store_wf (state_store w)" using assms(1) by (simp add: world_wf_def)
  have known: "\<forall>k < length us. trees (state_store w) (fst (us ! k)) \<noteq> None"
    using assms(2) wf by (auto simp: dom_forest domIff split_beta dest!: bspec [OF _ nth_mem])
  from updating_reaches [OF assms(3,1) known] obtain g \<pi> \<rho> where u: "updating R sh us w p g \<pi> \<rho>" by blast
  have ended: "threads p ! k = returns (world_parents w (fst (us ! k))) \<and> g k \<noteq> Before \<and>
      (g k = Between \<longrightarrow> parent_signals R (world_parents w (fst (us ! k))) (snd (us ! k)) = [])" if "k < length us" for k
    using u that assms(4) stage_halted by (fastforce simp: updating_def all_halted_def)
  then have "threads p = map (\<lambda>(i, s). returns (world_parents w i)) us"
    using u by (intro nth_equalityI) (auto simp: updating_def split_beta)
  moreover have pi: "distinct \<pi>" "set \<pi> = {..<length us}" using u ended by (auto simp: updating_def)
  have rho: "distinct \<rho>" "set \<rho> = {k. k < length us \<and> g k = After}" using u by (simp_all add: updating_def)
  have sum: "mset (signals_of R (world_parents w) us xs) =
      (\<Sum>k\<in>set xs. mset (parent_signals R (world_parents w (fst (us ! k))) (snd (us ! k))))" if "distinct xs" for xs
    using that by (simp add: signals_of_def mset_concat sum_list_distinct_conv_sum_set comp_def)
  have "mset (signals_of R (world_parents w) us \<rho>) = mset (signals_of R (world_parents w) us \<pi>)"
    unfolding sum [OF rho(1)] sum [OF pi(1)]
  proof (rule sum.mono_neutral_left)
    show "\<forall>k \<in> set \<pi> - set \<rho>. mset (parent_signals R (world_parents w (fst (us ! k))) (snd (us ! k))) = {#}"
    proof
      fix k assume "k \<in> set \<pi> - set \<rho>"
      then have "k < length us" "g k \<noteq> After" using pi rho by auto
      with ended [of k] show "mset (parent_signals R (world_parents w (fst (us ! k))) (snd (us ! k))) = {#}"
        by (cases "g k") auto
    qed
  qed (use pi rho in auto)
  moreover have "updated R us w \<pi> \<rho> (shared p)" using u by (simp add: updating_def)
  moreover have "updated R us w \<pi> \<pi>
      (fold (\<lambda>k w. snd (update_state_and_signal R (fst (us ! k)) (snd (us ! k)) w)) \<pi> w)"
    using updates_in_order [OF assms(1)] known pi(2) by blast
  ultimately show ?thesis
    using pi by (intro conjI exI [of _ \<pi>] exI) (assumption | rule refl | simp add: updated_def deque_fifo.fold_push_lo)+
qed

section \<open>A signal that comes late\<close>

definition push_parent_t ::
  "('k, 's, 'i, 'r, 'm, 't) rex \<Rightarrow> 's \<Rightarrow> 'k state_id option \<Rightarrow>
   ('k, 's, 'i, 'm, 'u, 'k state_id option) ctx_thread" where
  "push_parent_t R s parent_id = (case parent_id of
     Some p \<Rightarrow> seqt (case state_change R p s of
         Some sig \<Rightarrow> push_signal_t (Push_back sig)
       | None \<Rightarrow> returns ()) (returns (Some p))
   | None \<Rightarrow> returns None)"

lemma update_parts: "update_state_and_signal_t R sh i s = bindt (update_in_tree_t R sh i s) (push_parent_t R s)"
  by (simp add: update_state_and_signal_t_def push_parent_t_def [abs_def])

lemma solo_push_parent:
  "solo (push_parent_t R s po) w =
    (Returned po, w\<lparr>signal_queue := fold push_back (parent_signals R po s) (signal_queue w)\<rparr>)"
  by (auto simp: push_parent_t_def solo_simps cmd_simps push_signal_t_def parent_signals_def state_change_def
      split: option.split)

lemma tidy_push_parent: "tidy lock_rank [] (push_parent_t R s po) []"
  unfolding push_parent_t_def by (intro tidy_rules) simp

lemma update_halves:
  assumes "world_wf w" and "i \<in> dom (world_states w)"
  obtains w' where "solo (update_in_tree_t R sh i s) w = (Returned (world_parents w i), w')"
    and "world_wf w'" and "world_states w' = (world_states w)(i \<mapsto> s)" and "world_parents w' = world_parents w"
    and "signal_queue w' = signal_queue w"
proof -
  from update_tree_forest [of "state_store w" i R s] assms obtain st' where
    "update_in_tree R i s (state_store w) = (Returned (world_parents w i), st')" "store_wf st'"
    "forest_states st' = (world_states w)(i \<mapsto> s)" "forest_parents st' = world_parents w"
    unfolding world_wf_def by metis
  then show thesis
    by (intro that [of "w\<lparr>state_store := st'\<rparr>"]) (simp_all add: solo_simps cmd_simps world_wf_def)
qed

lemma overtaking_run:
  assumes "world_wf w" and "i \<in> dom (world_states w)"
  shows "\<exists>p. reaches (\<lambda>_. False) (pool_new (update_threads R sh [(i, s1), (i, s2)]) w) p \<and> all_halted p \<and>
    world_states (shared p) i = Some s2 \<and> back_values (signal_queue (shared p)) =
      back_values (signal_queue w) @ parent_signals R (world_parents w i) s2 @ parent_signals R (world_parents w i) s1"
proof -
  let ?po = "world_parents w i"
  let ?P = "\<lambda>_ :: ('a, 'b, 'c, 'd, 'e, 'a state_id option) ctx_thread. False"
  let ?t2 = "update_state_and_signal_t R sh i s2"
  obtain w1 where w1: "solo (update_in_tree_t R sh i s1) w = (Returned ?po, w1)" "world_wf w1"
    "world_states w1 = (world_states w)(i \<mapsto> s1)" "world_parents w1 = world_parents w" "signal_queue w1 = signal_queue w"
    using update_halves [OF assms, of R sh s1] .
  have "i \<in> dom (world_states w1)" by (simp add: w1)
  from update_halves [OF w1(2) this, of R sh s2] w1(4) obtain w2 where
    w2: "solo (update_in_tree_t R sh i s2) w1 = (Returned ?po, w2)" "world_states w2 = (world_states w1)(i \<mapsto> s2)"
      "signal_queue w2 = signal_queue w1" by metis
  let ?q = "fold push_back (parent_signals R ?po s2) (signal_queue w2)"
  let ?w3 = "w2\<lparr>signal_queue := fold push_back (parent_signals R ?po s1) ?q\<rparr>"
  let ?p0 = "pool_new (update_threads R sh [(i, s1), (i, s2)]) w"
  let ?p1 = "pool_new [push_parent_t R s1 ?po, ?t2] w1"
  let ?p2 = "pool_new [push_parent_t R s1 ?po, returns ?po] (w2\<lparr>signal_queue := ?q\<rparr>)"
  let ?p3 = "pool_new [returns ?po, returns ?po] ?w3"
  have 1: "reaches (\<lambda>_. False) ?p0 ?p1"
    using part_reaches [of lock_rank "update_in_tree_t R sh i s1" "[]" 0 ?p0
        "\<lambda>x. case x of Returned v \<Rightarrow> push_parent_t R s1 v | Panicked p \<Rightarrow> Halt (Panicked p)" "Returned ?po" w1 "\<lambda>_. False"]
      w1(1) tidy_ctx(4) [of R sh i s1]
    by (simp add: pool_new_def update_threads_def update_parts bindt_def)
  have 2: "reaches (\<lambda>_. False) ?p1 ?p2"
    using solo_reaches [OF tidy_signals(1) [of R sh i s2], of 1 ?p1 "Returned ?po" "w2\<lparr>signal_queue := ?q\<rparr>" "\<lambda>_. False"]
    by (simp add: pool_new_def update_parts solo_bindt bindc_apply w2(1) solo_push_parent)
  have 3: "reaches (\<lambda>_. False) ?p2 ?p3"
    using solo_reaches [OF tidy_push_parent [of R s1 ?po], of 0 ?p2 "Returned ?po" ?w3 "\<lambda>_. False"]
    by (simp add: pool_new_def solo_push_parent)
  have "reaches (\<lambda>_. False) ?p0 ?p3" using reaches_trans [OF reaches_trans [OF 1 2] 3] .
  moreover have "back_values (signal_queue ?w3) =
      back_values (signal_queue w) @ parent_signals R ?po s2 @ parent_signals R ?po s1"
    by (simp add: deque_fifo.fold_push_lo w2(3) w1(5))
  moreover have "world_states ?w3 i = Some s2" by (simp add: w2(2))
  ultimately show ?thesis
    by (intro exI [of _ ?p3]) (simp add: pool_new_def all_halted_def)
qed

theorem overlapping_updates_witness:
  "\<exists>(w :: (game, game_state, game_input, game_msg, unit) world) us p \<pi>.
    world_wf w \<and> us = [(ping_2, State_Ping Ping_Done), (ping_2, State_Ping Ping_Failed)] \<and>
    reaches (\<lambda>_. False) (pool_new (update_threads game_rex (\<lambda>_. 0) us) w) p \<and> all_halted p \<and>
    threads p = [returns (Some menu_1), returns (Some menu_1)] \<and> set \<pi> = {0, 1} \<and>
    world_states (shared p) = world_states
      (fold (\<lambda>k w. snd (update_state_and_signal game_rex (fst (us ! k)) (snd (us ! k)) w)) \<pi> w)"
proof -
  obtain w :: "(game, game_state, game_input, game_msg, unit) world" where
    w: "world_wf w" "world_states w = [menu_1 \<mapsto> State_Menu Menu_Ready, ping_2 \<mapsto> State_Ping Ping_Ready]"
      "world_parents w = [ping_2 \<mapsto> menu_1]"
    using game_world_example by metis
  obtain us where us: "us = [(ping_2, State_Ping Ping_Done), (ping_2, State_Ping Ping_Failed)]" by simp
  have "ping_2 \<in> dom (world_states w)" by (simp add: w(2))
  from overtaking_run [OF w(1) this, of game_rex "\<lambda>_. 0" "State_Ping Ping_Done" "State_Ping Ping_Failed"]
  obtain p where p: "reaches (\<lambda>_. False) (pool_new (update_threads game_rex (\<lambda>_. 0) us) w) p" "all_halted p"
    unfolding us by blast
  have "\<forall>(i, s) \<in> set us. i \<in> dom (world_states w)" by (simp add: us w(2))
  note o = overlapping_updates [OF w(1) this p]
  have "threads p = [returns (Some menu_1), returns (Some menu_1)]" using conjunct1 [OF o] by (simp add: us w(3))
  moreover from conjunct2 [OF o] obtain \<pi> where "set \<pi> = {..<length us}" "world_states (shared p) =
      world_states (fold (\<lambda>k w. snd (update_state_and_signal game_rex (fst (us ! k)) (snd (us ! k)) w)) \<pi> w)" by (elim exE conjE, hypsubst) (rule that)
  moreover have "{..<length us} = {0, 1}" by (auto simp: us)
  ultimately show ?thesis using w(1) us p by (intro exI conjI) (assumption | simp only:)+
qed

text \<open>
  C29. The order of the signals is not part of what the tree's lock protects: of two updates of
  the same id made at once, the one that the store keeps can be the one whose signal comes
  first, so that the last signal the parent receives tells of a state the child is not in. (The
  manager's own task makes its updates one after the other; it takes a second thread that holds
  a context.)
\<close>

theorem signals_may_overtake:
  assumes "world_wf w" and "i \<in> dom (world_states w)"
    and "parent_signals R (world_parents w i) s1 = [sig1]" and "parent_signals R (world_parents w i) s2 = [sig2]"
  shows "\<exists>p. reaches (\<lambda>_. False) (pool_new (update_threads R sh [(i, s1), (i, s2)]) w) p \<and> all_halted p \<and>
    world_states (shared p) i = Some s2 \<and>
    back_values (signal_queue (shared p)) = back_values (signal_queue w) @ [sig2, sig1]"
  using overtaking_run [OF assms(1,2), of R sh s1 s2] assms(3,4) by simp

theorem signals_may_overtake_witness:
  "\<exists>(w :: (game, game_state, game_input, game_msg, unit) world) p.
    reaches (\<lambda>_. False) (pool_new (update_threads game_rex (\<lambda>_. 0)
      [(ping_2, State_Ping Ping_Done), (ping_2, State_Ping Ping_Failed)]) w) p \<and>
    world_states (shared p) ping_2 = Some (State_Ping Ping_Failed) \<and>
    back_values (signal_queue (shared p)) =
      [\<lparr>sig_id = menu_1, sig_input = Input_Menu FailedPing\<rparr>, \<lparr>sig_id = menu_1, sig_input = Input_Menu PingPongComplete\<rparr>]"
proof -
  obtain w :: "(game, game_state, game_input, game_msg, unit) world" where
    w: "world_wf w" "world_states w = [menu_1 \<mapsto> State_Menu Menu_Ready, ping_2 \<mapsto> State_Ping Ping_Ready]"
      "world_parents w = [ping_2 \<mapsto> menu_1]" "signal_queue w = deque_new"
    using game_world_example by metis
  have i: "ping_2 \<in> dom (world_states w)" by (simp add: w(2))
  have "parent_signals game_rex (world_parents w ping_2) (State_Ping Ping_Done) =
      [\<lparr>sig_id = menu_1, sig_input = Input_Menu PingPongComplete\<rparr>]"
    and "parent_signals game_rex (world_parents w ping_2) (State_Ping Ping_Failed) =
      [\<lparr>sig_id = menu_1, sig_input = Input_Menu FailedPing\<rparr>]"
    by (simp_all add: w(3) parent_signals_def game_state_input_def)
  from signals_may_overtake [OF w(1) i this, of "\<lambda>_. 0"] w(4) show ?thesis by auto
qed

end
