(* ===== verification/Rex_Calls.thy ===== *)
theory Rex_Calls
  imports Rex_Linear
begin

text \<open>
  Calls of one store from several threads at once. A call looks an id up, may publish a new id,
  and uses a tree, each under a lock of its own; still the calls are as if made one after the
  other, as long as an id that is being made is not used yet. The last part shows why it must not be.
\<close>

section \<open>Calls\<close>

datatype ('k, 's) store_call =
    Ask_state "'k state_id"
  | Ask_parent "'k state_id"
  | Put_state "'k state_id" 's
  | Put_state_ask_parent "'k state_id" 's
  | Add_child "'k state_id" "'k state_id"
  | Add_tree "'k state_id"

datatype ('k, 's) answer = Acked | State_is "'s option" | Parent_is "'k state_id option"

primrec call_t ::
  "('k, 's, 'z) kind_ops_scheme \<Rightarrow> 'k sharding \<Rightarrow> ('k, 's) store_call \<Rightarrow>
   ('k, 's, 'i, 'm, 'u, ('k, 's) answer) ctx_thread" where
  "call_t K sh (Ask_state i) = bindt (get_state_t sh i) (\<lambda>s. returns (State_is s))"
| "call_t K sh (Ask_parent i) = bindt (get_parent_id_t sh i) (\<lambda>p. returns (Parent_is p))"
| "call_t K sh (Put_state i s) = seqt (sm_update_t K sh i s) (returns Acked)"
| "call_t K sh (Put_state_ask_parent i s) = bindt (update_in_tree_t K sh i s) (\<lambda>p. returns (Parent_is p))"
| "call_t K sh (Add_child i j) = seqt (new_child_t K sh i j) (returns Acked)"
| "call_t K sh (Add_tree i) = seqt (create_tree_t K sh i) (returns Acked)"

primrec call_cmd ::
  "('k, 's, 'z) kind_ops_scheme \<Rightarrow> ('k, 's) store_call \<Rightarrow> (('k, 's, 'i, 'm, 'u) world, ('k, 's) answer) cmd" where
  "call_cmd K (Ask_state i) = bindc (ctx_get_state i) (\<lambda>s. ret (State_is s))"
| "call_cmd K (Ask_parent i) = bindc (ctx_get_parent_id i) (\<lambda>p. ret (Parent_is p))"
| "call_cmd K (Put_state i s) = seqc (on_store (sm_update K i s)) (ret Acked)"
| "call_cmd K (Put_state_ask_parent i s) = bindc (on_store (update_in_tree K i s)) (\<lambda>p. ret (Parent_is p))"
| "call_cmd K (Add_child i j) = seqc (on_store (new_child K i j)) (ret Acked)"
| "call_cmd K (Add_tree i) = seqc (on_store (create_tree K i)) (ret Acked)"

text \<open>The id a call looks up, and the one it makes.\<close>

primrec looks_up :: "('k, 's) store_call \<Rightarrow> 'k state_id option" where
  "looks_up (Ask_state i) = Some i"
| "looks_up (Ask_parent i) = Some i"
| "looks_up (Put_state i s) = Some i"
| "looks_up (Put_state_ask_parent i s) = Some i"
| "looks_up (Add_child i j) = Some i"
| "looks_up (Add_tree i) = None"

primrec makes :: "('k, 's) store_call \<Rightarrow> 'k state_id option" where
  "makes (Ask_state i) = None"
| "makes (Ask_parent i) = None"
| "makes (Put_state i s) = None"
| "makes (Put_state_ask_parent i s) = None"
| "makes (Add_child i j) = Some j"
| "makes (Add_tree i) = Some i"

lemma solo_call: "solo (call_t K sh c) = call_cmd K c"
  by (cases c) (simp_all add: solo_simps)

section \<open>The shape of a call\<close>

text \<open>What a call does to its tree, and what it comes to when there is none.\<close>

primrec tree_cmd ::
  "('k, 's, 'z) kind_ops_scheme \<Rightarrow> ('k, 's) store_call \<Rightarrow> (('k, 's) state_node, ('k, 's) answer) cmd" where
  "tree_cmd K (Ask_state i) = (\<lambda>n. (map_outcome_to (\<lambda>s. Returned (State_is s)) (get_state n i), n))"
| "tree_cmd K (Ask_parent i) = (\<lambda>n. (map_outcome_to (\<lambda>p. Returned (Parent_is p)) (get_parent_id n i), n))"
| "tree_cmd K (Put_state i s) = seqc (node_update K \<lparr>upd_id = i, upd_state = s\<rparr>) (ret Acked)"
| "tree_cmd K (Put_state_ask_parent i s) =
     bindc (update_and_get_parent_id K \<lparr>upd_id = i, upd_state = s\<rparr>) (\<lambda>p. ret (Parent_is p))"
| "tree_cmd K (Add_child i j) = seqc (node_insert K \<lparr>ins_parent_id = Some i, ins_id = j\<rparr>) (ret Acked)"
| "tree_cmd K (Add_tree i) = ret Acked"

primrec without_tree :: "('k, 's) store_call \<Rightarrow> ('k, 's) answer outcome" where
  "without_tree (Ask_state i) = Returned (State_is None)"
| "without_tree (Ask_parent i) = Returned (Parent_is None)"
| "without_tree (Put_state i s) = Panicked MissingIdForUpdate"
| "without_tree (Put_state_ask_parent i s) = Panicked MissingSmTree"
| "without_tree (Add_child i j) = Panicked UnwrapNone"
| "without_tree (Add_tree i) = Returned Acked"

abbreviation put_ref :: "'k state_id \<Rightarrow> tree_ref \<Rightarrow> ('k, 's, 'i, 'm, 'u) world \<Rightarrow> ('k, 's, 'i, 'm, 'u) world" where
  "put_ref j r w \<equiv> w\<lparr>state_store := (state_store w)\<lparr>trees := (trees (state_store w))(j \<mapsto> r)\<rparr>\<rparr>"

abbreviation use_cmd ::
  "('k, 's, 'z) kind_ops_scheme \<Rightarrow> ('k, 's) store_call \<Rightarrow> tree_ref \<Rightarrow>
   (('k, 's, 'i, 'm, 'u) world, ('k, 's) answer) cmd" where
  "use_cmd K c r \<equiv> on_store (locked r (tree_cmd K c))"

definition use_t ::
  "('k, 's, 'z) kind_ops_scheme \<Rightarrow> ('k, 's) store_call \<Rightarrow> tree_ref \<Rightarrow>
   ('k, 's, 'i, 'm, 'u, ('k, 's) answer) ctx_thread" where
  "use_t K c r = Lock (Tree_mutex r) (Access (\<lambda>w. snd (use_cmd K c r w))
     (\<lambda>w. Unlock (Tree_mutex r) (Halt (fst (use_cmd K c r w)))))"

definition publish_t ::
  "'k sharding \<Rightarrow> 'k state_id \<Rightarrow> tree_ref \<Rightarrow> ('k, 's, 'i, 'm, 'u, 'a) ctx_thread \<Rightarrow>
   ('k, 's, 'i, 'm, 'u, 'a) ctx_thread" where
  "publish_t sh j r t = Lock (Shard (sh j)) (Access (put_ref j r) (\<lambda>_. Unlock (Shard (sh j)) t))"

definition body_t ::
  "('k, 's, 'z) kind_ops_scheme \<Rightarrow> 'k sharding \<Rightarrow> ('k, 's) store_call \<Rightarrow> tree_ref \<Rightarrow>
   ('k, 's, 'i, 'm, 'u, ('k, 's) answer) ctx_thread" where
  "body_t K sh c r = (case makes c of None \<Rightarrow> use_t K c r | Some j \<Rightarrow> publish_t sh j r (use_t K c r))"

definition found_t ::
  "('k, 's, 'z) kind_ops_scheme \<Rightarrow> 'k sharding \<Rightarrow> ('k, 's) store_call \<Rightarrow> tree_ref option \<Rightarrow>
   ('k, 's, 'i, 'm, 'u, ('k, 's) answer) ctx_thread" where
  "found_t K sh c t = (case t of None \<Rightarrow> Halt (without_tree c) | Some r \<Rightarrow> body_t K sh c r)"

lemma no_change: "(\<lambda>w. snd (on_store (gets f) w)) = (\<lambda>w. w)"
  by (simp add: fun_eq_iff cmd_simps)

lemma put_change: "(\<lambda>w. snd (on_store (modifies (\<lambda>st. st\<lparr>trees := (trees st)(j \<mapsto> r)\<rparr>)) w)) = put_ref j r"
  by (simp add: fun_eq_iff cmd_simps)

lemma locked_then:
  "bindt (locked_t r m) f = Lock (Tree_mutex r) (Access (\<lambda>w. snd (on_store (locked r m) w))
     (\<lambda>w. Unlock (Tree_mutex r) (case fst (on_store (locked r m) w) of
        Returned v \<Rightarrow> f v | Panicked p \<Rightarrow> Halt (Panicked p))))"
  by (simp add: locked_t_def bindt_def with_lock_def atomic_def andthen.simps)

lemma use_shape:
  assumes "\<And>n. m' n = (case m n of (x, n') \<Rightarrow> (map_outcome_to (\<lambda>v. Returned (f v)) x, n'))"
  shows "bindt (locked_t r m) (\<lambda>v. returns (f v)) = Lock (Tree_mutex r) (Access (\<lambda>w. snd (on_store (locked r m') w))
     (\<lambda>w. Unlock (Tree_mutex r) (Halt (fst (on_store (locked r m') w)))))"
  unfolding locked_then
  by (auto simp: fun_eq_iff cmd_simps locked_def assms split: prod.split outcome.split)

lemma look_shape:
  assumes "\<not> is_nil i"
  shows "bindt (get_tree_t sh i) f = Lock (Shard (sh i)) (Access (\<lambda>w. w)
    (\<lambda>w. Unlock (Shard (sh i)) (f (trees (state_store w) i))))"
  using assms
  by (simp add: get_tree_t_def seqt_def assert_t_def bindt_def andthen.simps with_lock_def atomic_def no_change
      cmd_simps)

lemma publish_shape:
  assumes "\<not> is_nil j"
  shows "bindt (insert_ref_t sh j r) (\<lambda>_. t) = publish_t sh j r t"
  using assms
  by (simp add: insert_ref_t_def publish_t_def seqt_def assert_t_def bindt_def andthen.simps with_lock_def
      atomic_def put_change cmd_simps)

lemma use_shapes:
  "bindt (locked_t r (\<lambda>n. (get_state n i, n))) (\<lambda>s. returns (State_is s)) = use_t K (Ask_state i) r"
  "bindt (locked_t r (\<lambda>n. (get_parent_id n i, n))) (\<lambda>p. returns (Parent_is p)) = use_t K (Ask_parent i) r"
  "bindt (locked_t r (node_update K \<lparr>upd_id = i, upd_state = s\<rparr>)) (\<lambda>_. returns Acked) = use_t K (Put_state i s) r"
  "bindt (locked_t r (update_and_get_parent_id K \<lparr>upd_id = i, upd_state = s\<rparr>)) (\<lambda>p. returns (Parent_is p)) =
     use_t K (Put_state_ask_parent i s) r"
  "bindt (locked_t r (node_insert K \<lparr>ins_parent_id = Some i, ins_id = j\<rparr>)) (\<lambda>_. returns Acked) = use_t K (Add_child i j) r"
  unfolding use_t_def
  by (rule use_shape; simp add: cmd_simps split: prod.split outcome.split)+

lemma call_first:
  assumes "looks_up c = Some i" and "\<forall>j. makes c = Some j \<longrightarrow> \<not> is_nil j"
  shows "(call_t K sh c :: ('k, 's, 'i, 'm, 'u, ('k, 's) answer) ctx_thread) =
    bindt (get_tree_t sh i) (found_t K sh c)"
proof -
  have "\<exists>F. (call_t K sh c :: ('k, 's, 'i, 'm, 'u, ('k, 's) answer) ctx_thread) = bindt (get_tree_t sh i) F \<and> (\<forall>t. F t = found_t K sh c t)"
  proof (cases c)
    case (Ask_state i')
    with assms show ?thesis
      unfolding Ask_state call_t.simps get_state_t_def bindt_assoc
      by (intro exI conjI, simp) (auto simp: found_t_def body_t_def bindt_Halt use_shapes split: option.split)
  next
    case (Ask_parent i')
    with assms show ?thesis
      unfolding Ask_parent call_t.simps get_parent_id_t_def bindt_assoc
      by (intro exI conjI, simp) (auto simp: found_t_def body_t_def bindt_Halt use_shapes split: option.split)
  next
    case (Put_state i' s)
    with assms show ?thesis
      unfolding Put_state call_t.simps sm_update_t_def seqt_def bindt_assoc
      by (intro exI conjI, simp) (auto simp: found_t_def body_t_def bindt_Halt use_shapes unwrap_def split: option.split)
  next
    case (Put_state_ask_parent i' s)
    with assms show ?thesis
      unfolding Put_state_ask_parent call_t.simps update_in_tree_t_def bindt_assoc
      by (intro exI conjI, simp) (auto simp: found_t_def body_t_def bindt_Halt use_shapes split: option.split)
  next
    case (Add_child i' j)
    with Add_child assms show ?thesis
      unfolding Add_child call_t.simps new_child_t_def seqt_def bindt_assoc
      by (intro exI conjI, simp) (auto simp: found_t_def body_t_def bindt_Halt use_shapes unwrap_def publish_shape split: option.split)
  qed (use assms in simp)
  then obtain F where "(call_t K sh c :: ('k, 's, 'i, 'm, 'u, ('k, 's) answer) ctx_thread) = bindt (get_tree_t sh i) F" "\<forall>t. F t = found_t K sh c t" by blast
  then show ?thesis by (metis ext)
qed

lemmas call_shape = trans [OF call_first look_shape]

text \<open>The same for the command.\<close>

definition put_made :: "('k, 's) store_call \<Rightarrow> tree_ref \<Rightarrow> ('k, 's, 'i, 'm, 'u) world \<Rightarrow> ('k, 's, 'i, 'm, 'u) world" where
  "put_made c r w = (case makes c of None \<Rightarrow> w | Some j \<Rightarrow> put_ref j r w)"

lemma call_cmd_shape:
  assumes "looks_up c = Some i" and "\<not> is_nil i" and "\<forall>j. makes c = Some j \<longrightarrow> \<not> is_nil j"
  shows "call_cmd K c w = (case trees (state_store w) i of
     None \<Rightarrow> (without_tree c, w)
   | Some r \<Rightarrow> use_cmd K c r (put_made c r w))"
  using assms
  by (cases c) (auto simp: cmd_simps ctx_defs store_ops_defs put_made_def split: option.split outcome.split prod.split)

section \<open>How far a call is\<close>

text \<open>
  \<open>Open\<close>: it changed nothing; \<open>Published\<close>: the made id leads to the tree but the tree has no
  such node yet; \<open>Settling x\<close>: the call has its answer \<open>x\<close> and the made id is yet to lead to
  its tree; \<open>Settled x\<close>: nothing is left to do but to give locks back.
\<close>

datatype ('k, 's) phase =
    Open
  | Published
  | Settling "('k, 's) answer outcome"
  | Settled "('k, 's) answer outcome"

primrec answer_of :: "('k, 's) phase \<Rightarrow> ('k, 's) answer outcome option" where
  "answer_of Open = None"
| "answer_of Published = None"
| "answer_of (Settling x) = Some x"
| "answer_of (Settled x) = Some x"

text \<open>The id where the store differs from one in which every call is made at once.\<close>

definition unsettled :: "('k, 's) store_call \<Rightarrow> ('k, 's) phase \<Rightarrow> 'k state_id set" where
  "unsettled c g = (case g of Published \<Rightarrow> set_option (makes c) | Settling x \<Rightarrow> set_option (makes c) | _ \<Rightarrow> {})"

text \<open>
  The threads of a call at a phase. \<open>v\<close> is what the id it looks up leads to; \<open>cw\<close> and \<open>ca\<close> are
  what the made id leads to, in the store and in the one where every call is made at once.
\<close>

inductive call_at ::
  "('k, 's, 'z) kind_ops_scheme \<Rightarrow> 'k sharding \<Rightarrow> ('k, 's) store_call \<Rightarrow> tree_ref option \<Rightarrow>
   tree_ref option \<Rightarrow> tree_ref option \<Rightarrow> ('k, 's) phase \<Rightarrow>
   ('k, 's, 'i, 'm, 'u, ('k, 's) answer) ctx_thread \<Rightarrow> bool"
  for K :: "('k, 's, 'z) kind_ops_scheme" and sh :: "'k sharding" and c :: "('k, 's) store_call"
  and v cw ca :: "tree_ref option" where
  lookup: "call_at K sh c v cw ca Open (Lock (Shard (sh i)) (Access (\<lambda>w. w)
    (\<lambda>w. Unlock (Shard (sh i)) (found_t K sh c (trees (state_store w) i)))))" if "looks_up c = Some i"
| looking: "call_at K sh c v cw ca Open (Access (\<lambda>w. w)
    (\<lambda>w. Unlock (Shard (sh i)) (found_t K sh c (trees (state_store w) i))))" if "looks_up c = Some i"
| looked: "call_at K sh c v cw ca Open (Unlock l (found_t K sh c (Some r)))" if "v = Some r" and "looks_up c \<noteq> None"
| body: "call_at K sh c v cw ca Open (body_t K sh c r)" if "v = Some r" and "looks_up c \<noteq> None"
| publishing: "call_at K sh c v cw ca Open (Access (put_ref j r) (\<lambda>_. Unlock (Shard (sh j)) (use_t K c r)))"
    if "v = Some r" and "looks_up c \<noteq> None" and "makes c = Some j"
| published: "call_at K sh c v cw ca Published (Unlock l (use_t K c r))"
    if "v = Some r" and "looks_up c \<noteq> None" and "makes c \<noteq> None \<longrightarrow> cw = Some r"
| entering: "call_at K sh c v cw ca Published (use_t K c r)"
    if "v = Some r" and "looks_up c \<noteq> None" and "makes c \<noteq> None \<longrightarrow> cw = Some r"
| in_tree: "call_at K sh c v cw ca Published (Access (\<lambda>w. snd (use_cmd K c r w))
     (\<lambda>w. Unlock (Tree_mutex r) (Halt (fst (use_cmd K c r w)))))"
    if "v = Some r" and "looks_up c \<noteq> None" and "makes c \<noteq> None \<longrightarrow> cw = Some r"
| allocating: "call_at K sh c v cw ca Open (bindt (atomic (on_store (arc_new (node_new K i))))
     (\<lambda>r. publish_t sh i r (returns Acked)))" if "c = Add_tree i"
| allocated: "call_at K sh c v cw ca (Settling (Returned Acked)) (publish_t sh i r (returns Acked))"
    if "c = Add_tree i" and "ca = Some r"
| storing: "call_at K sh c v cw ca (Settling (Returned Acked)) (Access (put_ref i r)
     (\<lambda>_. Unlock (Shard (sh i)) (returns Acked)))" if "c = Add_tree i" and "ca = Some r"
| leaving: "call_at K sh c v cw ca (Settled x) (Unlock l (Halt x))"
| answered: "call_at K sh c v cw ca (Settled x) (Halt x)"

lemma call_starts:
  assumes "\<forall>i. looks_up c = Some i \<or> makes c = Some i \<longrightarrow> \<not> is_nil i"
  shows "call_at K sh c v cw ca Open (call_t K sh c)"
proof (cases "looks_up c")
  case None
  then obtain i where c: "c = Add_tree i" by (cases c) auto
  with assms have "\<not> is_nil i" by simp
  then show ?thesis
    unfolding c by (simp add: create_tree_t_def seqt_def bindt_assoc publish_shape call_at.intros)
next
  case (Some i)
  have "\<not> is_nil i" "\<forall>j. makes c = Some j \<longrightarrow> \<not> is_nil j" using assms Some by auto
  note shape = call_shape [OF Some this(2,1)]
  show ?thesis unfolding shape using Some by (rule call_at.lookup)
qed

lemma call_halted: "call_at K sh c v cw ca g (Halt x) \<Longrightarrow> g = Settled x"
  by (erule call_at.cases)
    (auto simp: body_t_def use_t_def publish_t_def bindt_def atomic_def andthen.simps split: option.splits)

section \<open>A store and its settled counterpart\<close>

text \<open>\<open>near X w a\<close>: the worlds differ at most in where the ids of \<open>X\<close> lead.\<close>

definition near :: "'k state_id set \<Rightarrow> ('k, 's, 'i, 'm, 'u) world \<Rightarrow> ('k, 's, 'i, 'm, 'u) world \<Rightarrow> bool" where
  "near X w a \<longleftrightarrow> a = w\<lparr>state_store := (state_store w)\<lparr>trees := trees (state_store a)\<rparr>\<rparr> \<and>
     (\<forall>i. i \<notin> X \<longrightarrow> trees (state_store w) i = trees (state_store a) i)"

lemma near_refl: "near X w w"
  by (simp add: near_def)

lemma near_none:
  assumes "near {} w a"
  shows "a = w"
proof -
  have "trees (state_store a) = trees (state_store w)"
    using assms by (auto simp: near_def)
  moreover have "a = w\<lparr>state_store := (state_store w)\<lparr>trees := trees (state_store a)\<rparr>\<rparr>"
    using assms by (simp add: near_def)
  ultimately show ?thesis by simp
qed

lemma near_use:
  assumes "near X w a"
  shows "fst (use_cmd K c r w) = fst (use_cmd K c r a)" and "near X (snd (use_cmd K c r w)) (snd (use_cmd K c r a))"
    and "trees (state_store (snd (use_cmd K c r w))) = trees (state_store w)"
proof -
  from assms obtain T where a: "a = w\<lparr>state_store := (state_store w)\<lparr>trees := T\<rparr>\<rparr>"
    and T: "\<forall>i. i \<notin> X \<longrightarrow> trees (state_store w) i = T i" unfolding near_def by metis
  show "fst (use_cmd K c r w) = fst (use_cmd K c r a)" "near X (snd (use_cmd K c r w)) (snd (use_cmd K c r a))"
    "trees (state_store (snd (use_cmd K c r w))) = trees (state_store w)"
    using T unfolding a by (simp_all add: cmd_simps locked_def near_def split: prod.split)
qed

lemma use_apart:
  "trees (state_store (snd (use_cmd K c r w))) = trees (state_store w)"
  by (simp add: cmd_simps locked_def split: prod.split)

section \<open>One move of a call\<close>

definition made :: "('k, 's) store_call \<Rightarrow> ('k, 's, 'i, 'm, 'u) world \<Rightarrow> tree_ref option" where
  "made c w = Option.bind (makes c) (trees (state_store w))"

definition ids_ok :: "('k, 's) store_call \<Rightarrow> bool" where
  "ids_ok c \<longleftrightarrow> (\<forall>i. looks_up c = Some i \<or> makes c = Some i \<longrightarrow> \<not> is_nil i) \<and>
     (\<forall>i. looks_up c = Some i \<longrightarrow> makes c \<noteq> Some i)"

text \<open>
  What a move of a call does, when \<open>Y\<close> are the ids that other calls are making: \<open>w\<close> is the store
  and \<open>a\<close> the one where every call is made at once.
\<close>

definition moved ::
  "('k, 's, 'z) kind_ops_scheme \<Rightarrow> 'k sharding \<Rightarrow> ('k, 's) store_call \<Rightarrow> tree_ref option \<Rightarrow> 'k state_id set \<Rightarrow>
   ('k, 's) phase \<Rightarrow> ('k, 's, 'i, 'm, 'u) world \<Rightarrow> ('k, 's, 'i, 'm, 'u) world \<Rightarrow> ('k, 's) phase \<Rightarrow>
   ('k, 's, 'i, 'm, 'u, ('k, 's) answer) ctx_thread \<Rightarrow> ('k, 's, 'i, 'm, 'u) world \<Rightarrow>
   ('k, 's, 'i, 'm, 'u) world \<Rightarrow> bool" where
  "moved K sh c v Y g w a g' t' w' a' \<longleftrightarrow>
     call_at K sh c v (made c w') (made c a') g' t' \<and> near (Y \<union> unsettled c g') w' a' \<and>
     (\<forall>i. makes c \<noteq> Some i \<longrightarrow> trees (state_store w') i = trees (state_store w) i \<and>
        trees (state_store a') i = trees (state_store a) i) \<and>
     (answer_of g' = answer_of g \<and> a' = a \<or>
      answer_of g = None \<and> (\<exists>x. answer_of g' = Some x \<and> call_cmd K c a = (x, a')))"

lemma moved_still:
  assumes "call_at K sh c v (made c w) (made c a) g' t'" and "near (Y \<union> unsettled c g) w a"
    and "unsettled c g' = unsettled c g" and "answer_of g' = answer_of g"
  shows "moved K sh c v Y g w a g' t' w a"
  using assms by (simp add: moved_def)

text \<open>The call finds no tree.\<close>

lemma moved_without:
  assumes "near Y w a" and "looks_up c = Some i" and "trees (state_store a) i = None" and "ids_ok c"
  shows "moved K sh c v Y Open w a (Settled (without_tree c)) (Unlock l (Halt (without_tree c))) w a"
  using assms call_cmd_shape [of c i K a]
  by (auto simp: moved_def unsettled_def ids_ok_def intro: call_at.leaving)

text \<open>The call uses its tree.\<close>

lemma moved_use:
  assumes n: "near (Y \<union> set_option (makes c)) w a" and i: "looks_up c = Some i" "trees (state_store a) i = Some r"
    and "ids_ok c" and "makes c \<noteq> None \<longrightarrow> made c w = Some r" and Y: "\<forall>j. makes c = Some j \<longrightarrow> j \<notin> Y"
  shows "moved K sh c v Y Published w a (Settled (fst (use_cmd K c r w))) (Unlock l (Halt (fst (use_cmd K c r w))))
    (snd (use_cmd K c r w)) (snd (use_cmd K c r (put_made c r a)))"
proof -
  have n': "near Y w (put_made c r a)"
  proof (cases "makes c")
    case None
    with n show ?thesis by (simp add: put_made_def)
  next
    case (Some j)
    with assms(5) have j: "trees (state_store w) j = Some r" by (simp add: made_def)
    obtain T where a: "a = w\<lparr>state_store := (state_store w)\<lparr>trees := T\<rparr>\<rparr>"
      and T: "\<forall>i. i \<notin> insert j Y \<longrightarrow> trees (state_store w) i = T i"
      using n Some unfolding near_def by (metis Un_insert_right option.set(2) sup_bot.right_neutral)
    show ?thesis using T j unfolding a by (auto simp: near_def put_made_def Some)
  qed
  have "call_cmd K c a = (fst (use_cmd K c r (put_made c r a)), snd (use_cmd K c r (put_made c r a)))"
    using call_cmd_shape [of c i K a] i assms(4) by (auto simp: ids_ok_def)
  moreover note use = near_use [OF n', where K = K and c = c and r = r]
  moreover have "trees (state_store (put_made c r a)) k = trees (state_store a) k" if "makes c \<noteq> Some k" for k
    using that by (auto simp: put_made_def split: option.split)
  ultimately show ?thesis
    by (auto simp: moved_def unsettled_def use_apart intro: call_at.leaving)
qed

text \<open>A new tree is allocated.\<close>

lemma moved_allocate:
  assumes "near Y w a" and "c = Add_tree i" and "ids_ok c"
  shows "moved K sh c v Y Open w a (Settling (Returned Acked))
    (publish_t sh i (length (heap (state_store w))) (returns Acked))
    (snd (on_store (arc_new (node_new K i)) w))
    (put_ref i (length (heap (state_store w))) (snd (on_store (arc_new (node_new K i)) a)))"
proof -
  have i: "\<not> is_nil i" using assms(2,3) by (simp add: ids_ok_def)
  obtain T where a: "a = w\<lparr>state_store := (state_store w)\<lparr>trees := T\<rparr>\<rparr>"
    and T: "\<forall>i. i \<notin> Y \<longrightarrow> trees (state_store w) i = T i" using assms(1) unfolding near_def by metis
  show ?thesis
    using T i unfolding a assms(2)
    by (auto simp: moved_def unsettled_def near_def made_def cmd_simps arc_new_def create_tree_def insert_ref_def
        intro: call_at.allocated)
qed

text \<open>An id is published.\<close>

lemma moved_publish:
  assumes "near Y w a" and "makes c = Some j"
    and "call_at K sh c v (Some r) (made c a) g' t'" and "unsettled c g' = {j}" and "answer_of g' = answer_of g"
  shows "moved K sh c v Y g w a g' t' (put_ref j r w) a"
  using assms by (auto simp: moved_def near_def made_def)

lemma moved_store:
  assumes "near (insert i Y) w a" and "c = Add_tree i" and "made c a = Some r"
  shows "moved K sh c v Y (Settling x) w a (Settled x) (Unlock l (Halt x)) (put_ref i r w) a"
  using assms by (auto simp: moved_def near_def made_def unsettled_def intro: call_at.leaving)

inductive_cases move_cases: "moves_to (Lock l t) w t' w'" "moves_to (Unlock l t) w t' w'"
  "moves_to (Access g k) w t' w'" "moves_to (Halt x) w t' w'"

lemma call_moves:
  assumes "call_at K sh c v (made c w) (made c a) g t" and "moves_to t w t' w'"
    and n: "near (Y \<union> unsettled c g) w a" and ok: "ids_ok c"
    and Y: "\<forall>i. looks_up c = Some i \<or> makes c = Some i \<longrightarrow> i \<notin> Y"
    and v: "\<forall>i. looks_up c = Some i \<longrightarrow> trees (state_store a) i = v"
  shows "\<exists>g' a'. moved K sh c v Y g w a g' t' w' a'"
  using assms(1,2)
proof cases
  case (lookup i)
  then show ?thesis using assms(2) n
    by (auto elim!: move_cases intro!: exI moved_still call_at.looking)
next
  case (looking i)
  then have w: "w' = w" and t': "t' = Unlock (Shard (sh i)) (found_t K sh c (trees (state_store w) i))"
    using assms(2) by (auto elim: move_cases)
  have "i \<notin> Y \<union> unsettled c g" using looking Y by (auto simp: unsettled_def)
  with n looking v have i: "trees (state_store w) i = v" "trees (state_store a) i = v" by (auto simp: near_def)
  show ?thesis
  proof (cases v)
    case None
    have "near Y w a" using n looking by (simp add: unsettled_def)
    from moved_without [OF this looking(3) _ ok, of K sh v "Shard (sh i)"] None i show ?thesis
      unfolding looking(1) w t' by (auto simp: found_t_def)
  next
    case (Some r)
    then show ?thesis using n looking i
      by (auto simp: w t' intro!: exI moved_still call_at.looked)
  qed
next
  case (looked r l)
  then show ?thesis using assms(2) n
    by (auto simp: found_t_def elim!: move_cases intro!: exI moved_still call_at.body)
next
  case (body r)
  show ?thesis
  proof (cases "makes c")
    case None
    then have t': "t' = Access (\<lambda>w. snd (use_cmd K c r w)) (\<lambda>w. Unlock (Tree_mutex r) (Halt (fst (use_cmd K c r w))))"
      and w: "w' = w" using body assms(2) by (auto simp: body_t_def use_t_def elim: move_cases)
    have "moved K sh c v Y g w a Published t' w' a"
      unfolding t' w by (rule moved_still [OF call_at.in_tree]) (use n body None in \<open>auto simp: unsettled_def\<close>)
    then show ?thesis by blast
  next
    case (Some j)
    then have "t' = Access (put_ref j r) (\<lambda>_. Unlock (Shard (sh j)) (use_t K c r))" "w' = w"
      using body assms(2) by (auto simp: body_t_def publish_t_def elim: move_cases)
    then show ?thesis using n body Some
      by (auto intro!: exI moved_still call_at.publishing)
  qed
next
  case (publishing r j)
  then have "t' = Unlock (Shard (sh j)) (use_t K c r)" "w' = put_ref j r w" using assms(2) by (auto elim: move_cases)
  moreover have "moved K sh c v Y Open w a Published (Unlock (Shard (sh j)) (use_t K c r)) (put_ref j r w) a"
    by (rule moved_publish) (use n publishing in \<open>auto simp: unsettled_def intro: call_at.published\<close>)
  ultimately show ?thesis using publishing(1) by blast
next
  case (published r l)
  then have t': "t' = use_t K c r" and w: "w' = w" using assms(2) by (auto elim: move_cases)
  have "moved K sh c v Y g w a Published t' w' a"
    unfolding t' w by (rule moved_still [OF call_at.entering]) (use n published in auto)
  then show ?thesis by blast
next
  case (entering r)
  then have t': "t' = Access (\<lambda>w. snd (use_cmd K c r w)) (\<lambda>w. Unlock (Tree_mutex r) (Halt (fst (use_cmd K c r w))))"
    and w: "w' = w" using assms(2) by (auto simp: use_t_def elim: move_cases)
  have "moved K sh c v Y g w a Published t' w' a"
    unfolding t' w by (rule moved_still [OF call_at.in_tree]) (use n entering in auto)
  then show ?thesis by blast
next
  case (in_tree r)
  from in_tree obtain i where i: "looks_up c = Some i" by auto
  have "moved K sh c v Y Published w a (Settled (fst (use_cmd K c r w))) (Unlock (Tree_mutex r) (Halt (fst (use_cmd K c r w))))
    (snd (use_cmd K c r w)) (snd (use_cmd K c r (put_made c r a)))"
    by (rule moved_use [OF _ i _ ok]) (use n in_tree v Y i in \<open>auto simp: unsettled_def\<close>)
  moreover have "t' = Unlock (Tree_mutex r) (Halt (fst (use_cmd K c r w)))" "w' = snd (use_cmd K c r w)"
    using in_tree(2) assms(2) by (auto elim: move_cases)
  ultimately show ?thesis using in_tree(1) by blast
next
  case (allocating i)
  have "t' = publish_t sh i (length (heap (state_store w))) (returns Acked)" "w' = snd (on_store (arc_new (node_new K i)) w)"
    using allocating assms(2)
    by (auto simp: bindt_def atomic_def andthen.simps cmd_simps arc_new_def elim!: move_cases)
  moreover have "near Y w a" using n allocating by (simp add: unsettled_def)
  from moved_allocate [OF this allocating(3) ok]
  have "moved K sh c v Y Open w a (Settling (Returned Acked))
    (publish_t sh i (length (heap (state_store w))) (returns Acked))
    (snd (on_store (arc_new (node_new K i)) w))
    (put_ref i (length (heap (state_store w))) (snd (on_store (arc_new (node_new K i)) a)))" .
  ultimately show ?thesis using allocating(1) by blast
next
  case (allocated i r)
  then show ?thesis using assms(2) n
    by (auto simp: publish_t_def elim!: move_cases intro!: exI moved_still call_at.storing)
next
  case (storing i r)
  then have "t' = Unlock (Shard (sh i)) (returns Acked)" "w' = put_ref i r w" using assms(2) by (auto elim: move_cases)
  moreover have "moved K sh c v Y (Settling (Returned Acked)) w a (Settled (Returned Acked))
      (Unlock (Shard (sh i)) (returns Acked)) (put_ref i r w) a"
    by (rule moved_store) (use n storing in \<open>auto simp: unsettled_def\<close>)
  ultimately show ?thesis using storing(1) by blast
next
  case (leaving x l)
  then show ?thesis using assms(2) n
    by (auto elim!: move_cases intro!: exI moved_still call_at.answered)
next
  case (answered x)
  then show ?thesis using assms(2) by (auto elim: move_cases)
qed

section \<open>All of them together\<close>

text \<open>
  No id is nil, as the store asserts; no two calls make the same id, and none looks up an id
  that one of them makes.
\<close>

definition calls_apart :: "('k, 's) store_call list \<Rightarrow> bool" where
  "calls_apart cs \<longleftrightarrow>
     (\<forall>c \<in> set cs. \<not> Option.is_none (looks_up c) \<longrightarrow> \<not> is_nil (the (looks_up c))) \<and>
     (\<forall>c \<in> set cs. \<not> Option.is_none (makes c) \<longrightarrow> \<not> is_nil (the (makes c))) \<and>
     (\<forall>k < length cs. \<forall>l < length cs. \<not> Option.is_none (makes (cs ! k)) \<longrightarrow>
        (k \<noteq> l \<longrightarrow> makes (cs ! l) \<noteq> makes (cs ! k)) \<and> looks_up (cs ! l) \<noteq> makes (cs ! k))"

text \<open>The calls made one after the other in the order \<open>\<pi>\<close>, and the answer of each.\<close>

definition run_call ::
  "('k, 's, 'z) kind_ops_scheme \<Rightarrow> ('k, 's) store_call list \<Rightarrow> nat \<Rightarrow>
   (nat \<rightharpoonup> ('k, 's) answer outcome) \<times> ('k, 's, 'i, 'm, 'u) world \<Rightarrow>
   (nat \<rightharpoonup> ('k, 's) answer outcome) \<times> ('k, 's, 'i, 'm, 'u) world" where
  "run_call K cs k = (\<lambda>(answers, w). case call_cmd K (cs ! k) w of (x, w') \<Rightarrow> (answers(k \<mapsto> x), w'))"

definition calls_in_order ::
  "('k, 's, 'z) kind_ops_scheme \<Rightarrow> ('k, 's) store_call list \<Rightarrow> nat list \<Rightarrow> ('k, 's, 'i, 'm, 'u) world \<Rightarrow>
   (nat \<rightharpoonup> ('k, 's) answer outcome) \<times> ('k, 's, 'i, 'm, 'u) world" where
  "calls_in_order K cs \<pi> w = fold (run_call K cs) \<pi> (Map.empty, w)"

lemma calls_apartD:
  assumes "calls_apart cs" and "k < length cs" and "l < length cs"
  shows "ids_ok (cs ! k)" and "makes (cs ! k) = Some i \<Longrightarrow> k \<noteq> l \<Longrightarrow> makes (cs ! l) \<noteq> Some i"
    and "makes (cs ! k) = Some i \<Longrightarrow> looks_up (cs ! l) \<noteq> Some i"
  using assms by (auto simp: calls_apart_def ids_ok_def dest!: bspec [OF _ nth_mem])

definition calling ::
  "('k, 's, 'z) kind_ops_scheme \<Rightarrow> 'k sharding \<Rightarrow> ('k, 's) store_call list \<Rightarrow> ('k, 's, 'i, 'm, 'u) world \<Rightarrow>
   (lock, ('k, 's, 'i, 'm, 'u) world, ('k, 's) answer) pool \<Rightarrow>
   (nat \<Rightarrow> ('k, 's) phase) \<Rightarrow> nat list \<Rightarrow> ('k, 's, 'i, 'm, 'u) world \<Rightarrow> bool" where
  "calling K sh cs w0 p g \<pi> a \<longleftrightarrow>
     length (threads p) = length cs \<and>
     (\<forall>k < length cs. call_at K sh (cs ! k) (Option.bind (looks_up (cs ! k)) (trees (state_store w0)))
        (made (cs ! k) (shared p)) (made (cs ! k) a) (g k) (threads p ! k)) \<and>
     near (\<Union>k \<in> {..<length cs}. unsettled (cs ! k) (g k)) (shared p) a \<and>
     distinct \<pi> \<and> set \<pi> = {k. k < length cs \<and> answer_of (g k) \<noteq> None} \<and>
     calls_in_order K cs \<pi> w0 = (\<lambda>k. if k < length cs then answer_of (g k) else None, a) \<and>
     (\<forall>i. (\<forall>c \<in> set cs. makes c \<noteq> Some i) \<longrightarrow> trees (state_store a) i = trees (state_store w0) i)"

lemma calling_start:
  assumes "calls_apart cs"
  shows "calling K sh cs w0 (pool_new (map (call_t K sh) cs) w0) (\<lambda>_. Open) [] w0"
  using calls_apartD(1) [OF assms]
  by (auto simp: calling_def pool_new_def unsettled_def near_refl calls_in_order_def ids_ok_def fun_eq_iff
      intro: call_starts)

lemma unsettled_makes: "i \<in> unsettled c g \<Longrightarrow> makes c = Some i"
  by (auto simp: unsettled_def split: phase.splits)

lemma calling_step:
  assumes "calling K sh cs w0 p g \<pi> a" and "thread_step p j p'" and apart: "calls_apart cs"
  shows "\<exists>g' \<pi>' a'. calling K sh cs w0 p' g' \<pi>' a'"
proof -
  let ?n = "length cs"
  let ?v = "\<lambda>k. Option.bind (looks_up (cs ! k)) (trees (state_store w0))"
  have len: "length (threads p) = ?n" and S: "\<And>k. k < ?n \<Longrightarrow> call_at K sh (cs ! k) (?v k)
      (made (cs ! k) (shared p)) (made (cs ! k) a) (g k) (threads p ! k)"
    and N: "near (\<Union>k \<in> {..<?n}. unsettled (cs ! k) (g k)) (shared p) a"
    and pi: "distinct \<pi>" "set \<pi> = {k. k < ?n \<and> answer_of (g k) \<noteq> None}"
    and run: "calls_in_order K cs \<pi> w0 = (\<lambda>k. if k < ?n then answer_of (g k) else None, a)"
    and old: "\<And>i. (\<forall>c \<in> set cs. makes c \<noteq> Some i) \<Longrightarrow> trees (state_store a) i = trees (state_store w0) i"
    using assms(1) unfolding calling_def by blast+
  from step_moves [OF assms(2)] obtain t where j: "j < ?n" and t: "threads p' = (threads p)[j := t]"
    and m: "moves_to (threads p ! j) (shared p) t (shared p')" using len by auto
  note apartD = calls_apartD [OF apart j]
  define Y where "Y = (\<Union>k \<in> {..<?n} - {j}. unsettled (cs ! k) (g k))"
  have split: "(\<Union>k \<in> {..<?n}. unsettled (cs ! k) ((g(j := x)) k)) = Y \<union> unsettled (cs ! j) x" for x
    using j by (auto simp: Y_def split: if_splits)
  have Y: "\<forall>i. looks_up (cs ! j) = Some i \<or> makes (cs ! j) = Some i \<longrightarrow> i \<notin> Y"
    using calls_apartD(2,3) [OF apart _ j] by (auto simp: Y_def dest!: unsettled_makes)
  have made: "\<forall>c \<in> set cs. makes c \<noteq> Some i" if "looks_up (cs ! j) = Some i" for i
    using that calls_apartD(3) [OF apart _ j] by (metis in_set_conv_nth)
  have "near (Y \<union> unsettled (cs ! j) (g j)) (shared p) a" using N split [of "g j"] by simp
  moreover have "\<forall>i. looks_up (cs ! j) = Some i \<longrightarrow> trees (state_store a) i = ?v j"
    using old made by simp
  ultimately obtain g' a' where M: "moved K sh (cs ! j) (?v j) Y (g j) (shared p) a g' t (shared p') a'"
    using call_moves [OF S [OF j] m _ apartD(1) [OF j] Y] by blast
  have same: "made (cs ! k) (shared p') = made (cs ! k) (shared p)" "made (cs ! k) a' = made (cs ! k) a"
    if "k < ?n" "k \<noteq> j" for k
    using M apartD(2) [OF that(1)] that(2) by (auto simp: made_def moved_def split: bind_splits)
  have S': "\<forall>k < ?n. call_at K sh (cs ! k) (?v k) (made (cs ! k) (shared p')) (made (cs ! k) a')
      ((g(j := g')) k) (threads p' ! k)"
    using S same M len t j by (auto simp: moved_def nth_list_update)
  have N': "near (\<Union>k \<in> {..<?n}. unsettled (cs ! k) ((g(j := g')) k)) (shared p') a'"
    unfolding split using M by (simp add: moved_def)
  have old': "\<forall>i. (\<forall>c \<in> set cs. makes c \<noteq> Some i) \<longrightarrow> trees (state_store a') i = trees (state_store w0) i"
    using old M j by (auto simp: moved_def)
  from M have "answer_of g' = answer_of (g j) \<and> a' = a \<or>
      answer_of (g j) = None \<and> (\<exists>x. answer_of g' = Some x \<and> call_cmd K (cs ! j) a = (x, a'))"
    by (simp add: moved_def)
  then show ?thesis
  proof (elim disjE conjE exE)
    assume same: "answer_of g' = answer_of (g j)" "a' = a"
    then have "(\<lambda>k. if k < ?n then answer_of ((g(j := g')) k) else None) = (\<lambda>k. if k < ?n then answer_of (g k) else None)"
      by (auto simp: fun_eq_iff)
    moreover have "set \<pi> = {k. k < ?n \<and> answer_of ((g(j := g')) k) \<noteq> None}" using pi(2) same(1) by auto
    ultimately have "calling K sh cs w0 p' (g(j := g')) \<pi> a'"
      using S' N' old' pi(1) run same(2) len t unfolding calling_def by (intro conjI) (assumption | simp)+
    then show ?thesis by blast
  next
    fix x
    assume x: "answer_of (g j) = None" "answer_of g' = Some x" "call_cmd K (cs ! j) a = (x, a')"
    have "calls_in_order K cs (\<pi> @ [j]) w0 = run_call K cs j (\<lambda>k. if k < ?n then answer_of (g k) else None, a)"
      using run by (simp add: calls_in_order_def)
    also have "\<dots> = (\<lambda>k. if k < ?n then answer_of ((g(j := g')) k) else None, a')"
      using x j by (auto simp: run_call_def fun_eq_iff)
    finally have "calls_in_order K cs (\<pi> @ [j]) w0 = (\<lambda>k. if k < ?n then answer_of ((g(j := g')) k) else None, a')" .
    moreover have "distinct (\<pi> @ [j])" "set (\<pi> @ [j]) = {k. k < ?n \<and> answer_of ((g(j := g')) k) \<noteq> None}"
      using pi x j by auto
    ultimately have "calling K sh cs w0 p' (g(j := g')) (\<pi> @ [j]) a'"
      using S' N' old' len t unfolding calling_def by simp
    then show ?thesis by blast
  qed
qed

lemma calling_reaches:
  assumes "reaches (\<lambda>_. False) (pool_new (map (call_t K sh) cs) w0) p" and "calls_apart cs"
  shows "\<exists>g \<pi> a. calling K sh cs w0 p g \<pi> a"
  using assms(1)
proof (induction rule: reaches.induct)
  case reaches_refl
  show ?case using calling_start [OF assms(2)] by blast
next
  case (reaches_step s' i s'')
  then show ?case using calling_step assms(2) by blast
qed simp

lemma calling_ended:
  assumes "calling K sh cs w0 p g \<pi> a" and "all_halted p"
  shows "a = shared p \<and> set \<pi> = {..<length cs} \<and>
    threads p = map (\<lambda>k. Halt (the (fst (calls_in_order K cs \<pi> w0) k))) [0..<length cs]"
proof -
  have len: "length (threads p) = length cs" using assms(1) by (simp add: calling_def)
  have ended: "\<exists>x. threads p ! k = Halt x \<and> g k = Settled x" if "k < length cs" for k
  proof -
    have "halted (threads p ! k)" using that len assms(2) by (simp add: all_halted_def)
    then obtain x where x: "threads p ! k = Halt x" by (cases "threads p ! k") auto
    moreover have "call_at K sh (cs ! k) (Option.bind (looks_up (cs ! k)) (trees (state_store w0)))
        (made (cs ! k) (shared p)) (made (cs ! k) a) (g k) (threads p ! k)"
      using assms(1) that by (simp add: calling_def)
    ultimately have "g k = Settled x" by (simp add: call_halted)
    with x show ?thesis by blast
  qed
  then have "unsettled (cs ! k) (g k) = {}" if "k < length cs" for k
    using that by (fastforce simp: unsettled_def)
  then have "near {} (shared p) a" using assms(1) by (simp add: calling_def)
  moreover have "set \<pi> = {..<length cs}" using assms(1) ended by (fastforce simp: calling_def)
  moreover have "threads p = map (\<lambda>k. Halt (the (fst (calls_in_order K cs \<pi> w0) k))) [0..<length cs]"
  proof (intro nth_equalityI)
    fix k assume k: "k < length (threads p)"
    with ended len obtain x where "threads p ! k = Halt x" "g k = Settled x" by auto
    with k len assms(1) show "threads p ! k =
        map (\<lambda>k. Halt (the (fst (calls_in_order K cs \<pi> w0) k))) [0..<length cs] ! k"
      by (simp add: calling_def)
  qed (simp add: len)
  ultimately show ?thesis using near_none by blast
qed

lemma calls_apart_linear:
  assumes "calls_apart cs"
    and "reaches (\<lambda>_. False) (pool_new (map (call_t K sh) cs) w) p" and "all_halted p"
  shows "\<exists>\<pi> answers. distinct \<pi> \<and> set \<pi> = {..<length cs} \<and>
    calls_in_order K cs \<pi> w = (answers, shared p) \<and>
    threads p = map (\<lambda>k. Halt (the (answers k))) [0..<length cs]"
proof -
  from calling_reaches [OF assms(2,1)] obtain g \<pi> a where c: "calling K sh cs w p g \<pi> a" by blast
  from calling_ended [OF c assms(3)] c show ?thesis
    by (intro exI [of _ \<pi>] exI [of _ "fst (calls_in_order K cs \<pi> w)"]) (auto simp: calling_def)
qed

text \<open>
  C12. The store is linearizable for calls that keep clear of each other's new ids: take any
  number of calls of its operations from as many threads at once (reads of a state or of a
  parent, updates, new children and new trees), on ids that are not nil, where no two calls make
  the same id and no call looks up an id that one of them makes (C28 shows that this is needed).
  In any schedule they leave the store that the same calls leave when they are made one after
  the other in some order, and each returns the answer, or the panic, that it has in that order.
\<close>

theorem calls_linearizable:
  assumes "calls_apart cs"
    and "reaches (\<lambda>_. False) (pool_new (map (call_t K sh) cs) w) p" and "all_halted p"
  shows "\<exists>\<pi> answers. distinct \<pi> \<and> set \<pi> = {..<length cs} \<and>
    calls_in_order K cs \<pi> w = (answers, shared p) \<and>
    threads p = map (\<lambda>k. Halt (the (answers k))) [0..<length cs]"
  using calls_apart_linear [OF assms] .

lemma tidy_call: "tidy lock_rank [] (call_t K sh c) []"
  by (cases c) (auto intro!: tidy_rules)

lemma calls_end:
  obtains p where "reaches (\<lambda>_. False) (pool_new (map (call_t K sh) cs) w) p" and "all_halted p"
proof -
  let ?P = "\<lambda>t :: (lock, ('a, 'b, 'c, 'd, 'e) world, ('a, 'b) answer) thread. tidy lock_rank [] t []"
  have "ordered_threads lock_rank ?P" by unfold_locales
  moreover have "reaches ?P (pool_new [] w) (pool_new (map (call_t K sh) cs) w)"
    by (rule reaches_pool) (auto simp: tidy_call)
  ultimately have "inevitably all_halted (pool_new (map (call_t K sh) cs) w)"
    by (rule ordered_threads.always_ends)
  from inevitably_reaches [OF this, of "\<lambda>_. False"] show thesis using that by blast
qed

theorem calls_linearizable_witness:
  "\<exists>(w :: (game, game_state, game_input, game_msg, unit) world) cs p \<pi> answers.
    cs = [Add_child menu_1 pong_3, Put_state_ask_parent ping_2 (State_Ping Ping_Done), Ask_state ping_2] \<and>
    reaches (\<lambda>_. False) (pool_new (map (call_t game_rex (\<lambda>_. 0)) cs) w) p \<and>
    set \<pi> = {0, 1, 2} \<and> calls_in_order game_rex cs \<pi> w = (answers, shared p) \<and>
    threads p = [Halt (the (answers 0)), Halt (the (answers 1)), Halt (the (answers 2))]"
proof -
  let ?cs = "[Add_child menu_1 pong_3, Put_state_ask_parent ping_2 (State_Ping Ping_Done), Ask_state ping_2]"
  obtain cs where cs: "cs = ?cs" by simp
  let ?w = "world_new 0 () :: (game, game_state, game_input, game_msg, unit) world"
  obtain p where p: "reaches (\<lambda>_. False) (pool_new (map (call_t game_rex (\<lambda>_. 0)) cs) ?w) p" "all_halted p"
    by (rule calls_end)
  have "calls_apart cs"
    unfolding cs by (simp add: calls_apart_def is_nil_def less_Suc_eq All_less_Suc2 numeral_3_eq_3)
  from calls_linearizable [OF this p] obtain \<pi> answers where
    "set \<pi> = {..<length cs}" "calls_in_order game_rex cs \<pi> ?w = (answers, shared p)"
    "threads p = map (\<lambda>k. Halt (the (answers k))) [0..<length cs]" by blast
  moreover have "{..<length cs} = {0, 1, 2}" by (auto simp: cs)
  moreover have "[0..<length cs] = [0, 1, 2]" by (simp add: cs upt_rec)
  ultimately show ?thesis using cs p(1) by (intro exI conjI) (assumption | simp add: numeral_2_eq_2)+
qed

section \<open>An id that is used too early\<close>

lemma new_covers: "covers i (node_new K i)"
  by (simp add: covers_def node_new_def)

text \<open>
  C28. That the ids being made are not used yet is needed: new_child inserts the child's
  reference before the child is in the tree. An update of the child in between panics, and
  leaves only the root in the tree: every other id still leads to the tree and has no state.
\<close>

theorem early_use_loses_tree:
  assumes "world_wf w" and "trees (state_store w) i = Some r" and "node_id (heap (state_store w) ! r) = i"
    and "trees (state_store w) k = Some r" and "k \<noteq> i" and "trees (state_store w) j = None" and "\<not> is_nil j"
  shows "\<exists>p. reaches (\<lambda>_. False) (pool_new (map (call_t K sh) [Add_child i j, Put_state j s]) w) p \<and>
    threads p = [returns Acked, Halt (Panicked NotInTree)] \<and>
    world_states w k \<noteq> None \<and> trees (state_store (shared p)) k = Some r \<and> world_states (shared p) k = None"
proof -
  let ?c = "Add_child i j :: ('a, 'b) store_call"
  have wf: "store_wf (state_store w)" using assms(1) by (simp add: world_wf_def)
  note tree = store_wf_tree [OF wf assms(2)] and tree_k = store_wf_tree [OF wf assms(4)]
  have "trees (state_store w) j = Some r \<longleftrightarrow>
      r < length (heap (state_store w)) \<and> j \<in> dom (states (heap (state_store w) ! r))"
    using wf by (simp add: store_wf_def)
  then have j: "j \<notin> dom (states (heap (state_store w) ! r))" "j \<noteq> k" "j \<noteq> i"
    using assms(2,4,6) tree(1) by auto
  let ?w1 = "put_ref j r w"
  let ?w2 = "?w1\<lparr>state_store := (state_store ?w1)\<lparr>heap := (heap (state_store w))[r := node_new K i]\<rparr>\<rparr>"
  let ?n = "modify_path i (add_descendant j) (push_child K j) (node_new K i)"
  let ?w3 = "?w2\<lparr>state_store := (state_store ?w2)\<lparr>heap := (heap (state_store w))[r := ?n]\<rparr>\<rparr>"
  let ?p = "\<lambda>t1 t2 w. pool_new [t1, t2] w :: (lock, ('a, 'b, 'c, 'd, 'e) world, ('a, 'b) answer) pool"
  let ?put = "call_t K sh (Put_state j s)"
  let ?F = "\<lambda>_ :: (lock, ('a, 'b, 'c, 'd, 'e) world, ('a, 'b) answer) thread. False"
  have first: "call_t K sh ?c = bindt (get_tree_t sh i) (found_t K sh ?c)"
    by (rule call_first) (use assms(7) in simp_all)
  have 1: "reaches ?F (?p (call_t K sh ?c) ?put w) (?p (found_t K sh ?c (Some r)) ?put w)"
    using part_reaches [of lock_rank "get_tree_t sh i" "[]" 0 "?p (call_t K sh ?c) ?put w"
        "\<lambda>x. case x of Returned v \<Rightarrow> found_t K sh ?c v | Panicked p \<Rightarrow> Halt (Panicked p)" "Returned (Some r)" w ?F]
      tree(4) assms(2) tidy_store(1) [of sh i]
    by (simp add: first pool_new_def bindt_def solo_simps cmd_simps store_ops_defs del: call_t.simps)
  have found: "found_t K sh ?c (Some r) = bindt (insert_ref_t sh j r) (\<lambda>_. use_t K ?c r)"
    by (simp add: found_t_def body_t_def publish_shape assms(7))
  have 2: "reaches ?F (?p (found_t K sh ?c (Some r)) ?put w) (?p (use_t K ?c r) ?put ?w1)"
    using part_reaches [of lock_rank "insert_ref_t sh j r" "[]" 0 "?p (found_t K sh ?c (Some r)) ?put w"
        "\<lambda>x. case x of Returned v \<Rightarrow> use_t K ?c r | Panicked p \<Rightarrow> Halt (Panicked p)" "Returned ()" ?w1 ?F]
      assms(7) tidy_store(2) [of sh j r]
    by (simp add: found pool_new_def bindt_def solo_simps cmd_simps store_ops_defs del: call_t.simps)
  have "solo ?put ?w1 = (Panicked NotInTree, ?w2)"
    unfolding solo_call using assms(3,7) j tree
    by (simp add: cmd_simps ctx_defs store_ops_defs node_update_missing)
  then have 3: "reaches ?F (?p (use_t K ?c r) ?put ?w1) (?p (use_t K ?c r) (Halt (Panicked NotInTree)) ?w2)"
    using solo_reaches [OF tidy_call [of K sh "Put_state j s"], of 1 "?p (use_t K ?c r) ?put ?w1"
        "Panicked NotInTree" ?w2 ?F]
    by (simp add: pool_new_def del: call_t.simps)
  have n: "node_insert K \<lparr>ins_parent_id = Some i, ins_id = j\<rparr> (node_new K i) = (Returned (), ?n)"
    by (rule node_insert_wf) simp_all
  have "solo (use_t K ?c r) ?w2 = (Returned Acked, ?w3)"
    using tree(1) n by (simp add: use_t_def solo.simps cmd_simps locked_def)
  moreover have "tidy lock_rank [] (use_t K ?c r) []" by (simp add: use_t_def)
  ultimately have 4: "reaches ?F (?p (use_t K ?c r) (Halt (Panicked NotInTree)) ?w2)
      (?p (returns Acked) (Halt (Panicked NotInTree)) ?w3)"
    using solo_reaches [of lock_rank "use_t K ?c r" 0 "?p (use_t K ?c r) (Halt (Panicked NotInTree)) ?w2"
        "Returned Acked" ?w3 ?F]
    by (simp add: pool_new_def)
  have "states ?n = [i \<mapsto> new_state K (kind i), j \<mapsto> new_state K (kind j)]"
    using insert_states [of "node_new K i" i j K] j(3)
    by (simp add: dom_states [symmetric] new_covers)
  then have "world_states ?w3 k = None"
    using assms(4,5) j(2) tree(1) by (simp add: forest_states_def)
  moreover have "world_states w k \<noteq> None" using tree_k(3) assms(4) by (auto simp: forest_states_def)
  ultimately show ?thesis
    using reaches_trans [OF reaches_trans [OF reaches_trans [OF 1 2] 3] 4] assms(4) j(2)
    by (intro exI [of _ "?p (returns Acked) (Halt (Panicked NotInTree)) ?w3"])
      (simp add: pool_new_def del: call_t.simps)
qed

theorem early_use_loses_tree_witness:
  "\<exists>(w :: (game, game_state, game_input, game_msg, unit) world) p.
    reaches (\<lambda>_. False) (pool_new (map (call_t game_rex (\<lambda>_. 0))
      [Add_child menu_1 pong_3, Put_state pong_3 (State_Pong Pong_Responding)]) w) p \<and>
    threads p = [returns Acked, Halt (Panicked NotInTree)] \<and>
    world_states w ping_2 \<noteq> None \<and> world_states (shared p) ping_2 = None"
proof -
  from create_tree_forest [OF store_new_wf, of menu_1 game_rex] obtain st where
    st: "create_tree game_rex menu_1 store_new = (Returned (), st)" "store_wf st" "forest_states st = [menu_1 \<mapsto> State_Menu Menu_Ready]"
    by (auto simp: is_nil_def)
  with new_child_forest [of st menu_1 ping_2 game_rex] obtain st' where
    st': "new_child game_rex menu_1 ping_2 st = (Returned (), st')" "store_wf st'"
    by (auto simp: is_nil_def)
  have at: "trees st' = [menu_1 \<mapsto> 0, ping_2 \<mapsto> 0]" "node_id (heap st' ! 0) = menu_1"
    using st(1) st'(1) node_insert_wf [of "node_new game_rex menu_1" menu_1 game_rex ping_2]
    by (auto simp: store_ops_defs cmd_simps is_nil_def store_new_def)
  let ?w = "(world_new 0 () :: (game, game_state, game_input, game_msg, unit) world)\<lparr>state_store := st'\<rparr>"
  show ?thesis
    using early_use_loses_tree [of ?w menu_1 0 ping_2 pong_3 game_rex "\<lambda>_. 0" "State_Pong Pong_Responding"] at st'(2)
    by (intro exI [of _ ?w]) (auto simp: world_wf_def is_nil_def simp del: call_t.simps)
qed

end
