(* ===== verification/Rex_Calls_Spec.thy ===== *)
theory Rex_Calls_Spec
  imports Rex_Calls
begin

text \<open>
  What overlapping calls of a store do to the two maps a user sees, the state and the parent of
  every id, when each call looks up an id that is there and makes one that is not.
\<close>

section \<open>A call on the two maps\<close>

primrec call_abs ::
  "('k, 's, 'z) kind_ops_scheme \<Rightarrow> ('k, 's) store_call \<Rightarrow> ('k, 's) tree_abs \<Rightarrow> ('k, 's) answer \<times> ('k, 's) tree_abs" where
  "call_abs K (Ask_state i) F = (State_is (fst F i), F)"
| "call_abs K (Ask_parent i) F = (Parent_is (snd F i), F)"
| "call_abs K (Put_state i s) F = (Acked, (fst F)(i \<mapsto> s), snd F)"
| "call_abs K (Put_state_ask_parent i s) F = (Parent_is (snd F i), (fst F)(i \<mapsto> s), snd F)"
| "call_abs K (Add_child i j) F = (Acked, (fst F)(j \<mapsto> new_state K (kind j)), (snd F)(j \<mapsto> i))"
| "call_abs K (Add_tree i) F = (Acked, (fst F)(i \<mapsto> new_state K (kind i)), snd F)"

definition run_abs ::
  "('k, 's, 'z) kind_ops_scheme \<Rightarrow> ('k, 's) store_call list \<Rightarrow> nat \<Rightarrow>
   (nat \<rightharpoonup> ('k, 's) answer) \<times> ('k, 's) tree_abs \<Rightarrow> (nat \<rightharpoonup> ('k, 's) answer) \<times> ('k, 's) tree_abs" where
  "run_abs K cs k = (\<lambda>(answers, F). case call_abs K (cs ! k) F of (x, F') \<Rightarrow> (answers(k \<mapsto> x), F'))"

text \<open>What a call needs of the ids that have a state.\<close>

definition call_ready :: "'k state_id set \<Rightarrow> ('k, 's) store_call \<Rightarrow> bool" where
  "call_ready D c \<longleftrightarrow> set_option (looks_up c) \<subseteq> D \<and> set_option (makes c) \<inter> D = {}"

abbreviation world_forest :: "('k, 's, 'i, 'm, 'u) world \<Rightarrow> ('k, 's) tree_abs" where
  "world_forest w \<equiv> forest (state_store w)"

lemma call_refines:
  assumes "world_wf w" and "ids_ok c" and "call_ready (dom (fst (world_forest w))) c"
    and "call_abs K c (world_forest w) = (x, F)"
  shows "\<exists>w'. call_cmd K c w = (Returned x, w') \<and> world_wf w' \<and> world_forest w' = F \<and>
    dom (fst F) = dom (fst (world_forest w)) \<union> set_option (makes c)"
proof -
  let ?st = "state_store w"
  have wf: "store_wf ?st" using assms(1) by (simp add: world_wf_def)
  note put = cmd_simps ctx_defs world_wf_def forest_def
  show ?thesis
  proof (cases c)
    case (Ask_state i)
    with wf assms(2,4) show ?thesis by (auto simp: put read_state_forest ids_ok_def)
  next
    case (Ask_parent i)
    with wf assms(2,4) show ?thesis by (auto simp: put read_parent_forest ids_ok_def)
  next
    case (Put_state i s)
    with assms(3) have i: "i \<in> dom (forest_states ?st)" by (simp add: call_ready_def forest_def)
    obtain st' where "sm_update K i s ?st = (Returned (), st')" "store_wf st'"
      "forest_states st' = (forest_states ?st)(i \<mapsto> s)" "forest_parents st' = forest_parents ?st"
      using update_tree_forest [OF wf i, of K s] by metis
    with Put_state assms(4) i show ?thesis by (auto simp: put insert_absorb split: if_splits)
  next
    case (Put_state_ask_parent i s)
    with assms(3) have i: "i \<in> dom (forest_states ?st)" by (simp add: call_ready_def forest_def)
    obtain st' where "update_in_tree K i s ?st = (Returned (forest_parents ?st i), st')" "store_wf st'"
      "forest_states st' = (forest_states ?st)(i \<mapsto> s)" "forest_parents st' = forest_parents ?st"
      using update_tree_forest [OF wf i, of K s] by metis
    with Put_state_ask_parent assms(4) i show ?thesis by (auto simp: put insert_absorb split: if_splits)
  next
    case (Add_child i j)
    with assms(2,3) have "i \<in> dom (forest_states ?st)" "\<not> is_nil j" "j \<notin> dom (forest_states ?st)"
      by (auto simp: call_ready_def forest_def ids_ok_def)
    from new_child_forest [OF wf this, of K] obtain st' where "new_child K i j ?st = (Returned (), st')" "store_wf st'"
      "forest_states st' = (forest_states ?st)(j \<mapsto> new_state K (kind j))" "forest_parents st' = (forest_parents ?st)(j \<mapsto> i)"
      by blast
    with Add_child assms(4) show ?thesis by (auto simp: put)
  next
    case (Add_tree i)
    with assms(2,3) have "\<not> is_nil i" "i \<notin> dom (forest_states ?st)"
      by (auto simp: call_ready_def forest_def ids_ok_def)
    from create_tree_forest [OF wf this, of K] obtain st' where "create_tree K i ?st = (Returned (), st')" "store_wf st'"
      "forest_states st' = (forest_states ?st)(i \<mapsto> new_state K (kind i))" "forest_parents st' = forest_parents ?st"
      by blast
    with Add_tree assms(4) show ?thesis by (auto simp: put)
  qed
qed

section \<open>Calls in some order\<close>

lemma order_refines:
  assumes "world_wf w" and "calls_apart cs" and "\<forall>c \<in> set cs. call_ready (dom (fst (world_forest w))) c"
    and "distinct \<pi>" and "set \<pi> \<subseteq> {..<length cs}"
  shows "\<exists>answers F w'. fold (run_abs K cs) \<pi> (Map.empty, world_forest w) = (answers, F) \<and>
    calls_in_order K cs \<pi> w = (\<lambda>l. map_option Returned (answers l), w') \<and> world_wf w' \<and> world_forest w' = F \<and>
    dom answers = set \<pi> \<and>
    dom (fst F) = dom (fst (world_forest w)) \<union> (\<Union>k \<in> set \<pi>. set_option (makes (cs ! k)))"
  using assms(4,5)
proof (induction \<pi> rule: rev_induct)
  case Nil
  then show ?case using assms(1)
    by (intro exI [of _ Map.empty]) (simp add: calls_in_order_def)
next
  case (snoc k \<pi>)
  then obtain answers F w' where IH: "fold (run_abs K cs) \<pi> (Map.empty, world_forest w) = (answers, F)"
    "calls_in_order K cs \<pi> w = (\<lambda>l. map_option Returned (answers l), w')" "world_wf w'" "world_forest w' = F"
    "dom answers = set \<pi>"
    "dom (fst F) = dom (fst (world_forest w)) \<union> (\<Union>k \<in> set \<pi>. set_option (makes (cs ! k)))" by auto
  have k: "k < length cs" "k \<notin> set \<pi>" and pi: "\<forall>l \<in> set \<pi>. l < length cs" using snoc.prems by auto
  have ready: "call_ready (dom (fst (world_forest w))) (cs ! k)" using assms(3) k by simp
  have "set_option (makes (cs ! k)) \<inter> set_option (makes (cs ! l)) = {}" if "l \<in> set \<pi>" for l
    using calls_apartD(2) [OF assms(2) k(1), of l] that k(2) pi by auto
  then have "call_ready (dom (fst (world_forest w'))) (cs ! k)"
    using ready by (auto simp: call_ready_def IH)
  moreover obtain x F' where F': "call_abs K (cs ! k) F = (x, F')" by (metis surj_pair)
  ultimately obtain w'' where w'': "call_cmd K (cs ! k) w' = (Returned x, w'')" "world_wf w''" "world_forest w'' = F'"
    "dom (fst F') = dom (fst F) \<union> set_option (makes (cs ! k))"
    using call_refines [OF IH(3) calls_apartD(1) [OF assms(2) k(1) k(1)], of K x F'] IH(4) by auto
  have "fold (run_abs K cs) (\<pi> @ [k]) (Map.empty, world_forest w) = (answers(k \<mapsto> x), F')"
    by (simp add: IH(1) run_abs_def F')
  moreover have "calls_in_order K cs (\<pi> @ [k]) w = (\<lambda>l. map_option Returned ((answers(k \<mapsto> x)) l), w'')"
    using IH(2) by (simp add: calls_in_order_def run_call_def w'' fun_eq_iff)
  ultimately show ?case using w'' IH(5,6) by (intro exI conjI) (assumption | auto)+
qed

text \<open>
  C13. Overlapping calls refine the two maps: from a sound store, take any calls of its
  operations from as many threads at once such that each looks up an id that is there before,
  makes an id that is neither there nor nil, and no two make the same id (an id that is absent,
  or used while it is being made as in C28, panics). In any schedule all return, none of them
  panics, and the store is sound again; there is one order of the calls in which the maps of
  states and parents, changed by one call after the other, give every answer and the maps at the
  end.
\<close>

theorem overlapping_calls_refine:
  assumes "world_wf w" and "calls_apart cs" and "\<forall>c \<in> set cs. call_ready (dom (world_states w)) c"
    and "reaches (\<lambda>_. False) (pool_new (map (call_t K sh) cs) w) p" and "all_halted p"
  shows "\<exists>\<pi> answers. distinct \<pi> \<and> set \<pi> = {..<length cs} \<and>
    fold (run_abs K cs) \<pi> (Map.empty, world_states w, world_parents w) =
      (answers, world_states (shared p), world_parents (shared p)) \<and>
    threads p = map (\<lambda>k. returns (the (answers k))) [0..<length cs] \<and> world_wf (shared p)"
proof -
  from calls_apart_linear [OF assms(2,4,5)] obtain \<pi> answers where
    pi: "distinct \<pi>" "set \<pi> = {..<length cs}" and run: "calls_in_order K cs \<pi> w = (answers, shared p)"
    and t: "threads p = map (\<lambda>k. Halt (the (answers k))) [0..<length cs]" by blast
  have ready: "\<forall>c \<in> set cs. call_ready (dom (fst (world_forest w))) c" using assms(3) by (simp add: forest_def)
  from order_refines [OF assms(1,2) ready pi(1), of K] pi(2) obtain xs F w' where
    r: "fold (run_abs K cs) \<pi> (Map.empty, world_forest w) = (xs, F)"
      "calls_in_order K cs \<pi> w = (\<lambda>l. map_option Returned (xs l), w')" "world_wf w'" "world_forest w' = F" "dom xs = {..<length cs}"
    by auto
  from r(2) run have a: "answers = (\<lambda>l. map_option Returned (xs l))" "w' = shared p" by simp_all
  have "threads p = map (\<lambda>k. returns (the (xs k))) [0..<length cs]"
  proof -
    have "the (answers k) = Returned (the (xs k))" if "k < length cs" for k
    proof -
      have "k \<in> dom xs" using r(5) that by simp
      then show ?thesis by (auto simp: a)
    qed
    then show ?thesis using t by simp
  qed
  with r pi a show ?thesis by (intro exI [of _ \<pi>] exI [of _ xs]) (auto simp: forest_def)
qed

theorem overlapping_calls_refine_witness:
  "\<exists>(w :: (game, game_state, game_input, game_msg, unit) world) cs p.
    cs = [Add_child menu_1 pong_3, Put_state_ask_parent ping_2 (State_Ping Ping_Done)] \<and>
    reaches (\<lambda>_. False) (pool_new (map (call_t game_rex (\<lambda>_. 0)) cs) w) p \<and> world_wf (shared p) \<and>
    threads p = [returns Acked, returns (Parent_is (Some menu_1))]"
proof -
  obtain w :: "(game, game_state, game_input, game_msg, unit) world" where
    w: "world_wf w" "world_states w = [menu_1 \<mapsto> State_Menu Menu_Ready, ping_2 \<mapsto> State_Ping Ping_Ready]"
      "world_parents w = [ping_2 \<mapsto> menu_1]"
    using game_world_example by metis
  obtain cs where cs: "cs = [Add_child menu_1 pong_3, Put_state_ask_parent ping_2 (State_Ping Ping_Done)]" by simp
  obtain p where p: "reaches (\<lambda>_. False) (pool_new (map (call_t game_rex (\<lambda>_. 0)) cs) w) p" "all_halted p"
    by (rule calls_end)
  have apart: "calls_apart cs"
    unfolding cs by (simp add: calls_apart_def is_nil_def less_Suc_eq All_less_Suc2)
  have "\<forall>c \<in> set cs. call_ready (dom (world_states w)) c"
    by (simp add: cs call_ready_def w(2))
  from overlapping_calls_refine [OF w(1) apart this p] obtain \<pi> answers where pi: "distinct \<pi>" "set \<pi> = {..<length cs}"
    and f: "fold (run_abs game_rex cs) \<pi> (Map.empty, world_states w, world_parents w) =
      (answers, world_states (shared p), world_parents (shared p))"
    and t: "threads p = map (\<lambda>k. returns (the (answers k))) [0..<length cs]" and sound: "world_wf (shared p)"
    using that by (elim exE conjE) (rule that)
  have "\<pi> = [0, 1] \<or> \<pi> = [1, 0]"
  proof (rule distinct_two [OF pi(1)])
    have "length cs = 2" by (simp add: cs)
    then show "set \<pi> = {0, 1}" using pi(2) by (simp add: lessThan_nat_numeral lessThan_Suc insert_commute)
  qed simp
  then have "answers 0 = Some Acked \<and> answers 1 = Some (Parent_is (Some menu_1))"
    using f by (auto simp: run_abs_def cs w)
  with sound p(1) cs t show ?thesis
    by (intro exI [of _ w] exI [of _ cs] exI [of _ p]) (simp add: upt_rec)
qed

end
