(* ===== verification/Rex_Test_Locks.thy ===== *)
theory Rex_Test_Locks
  imports Rex_Test_Game Rex_Game_Threads
begin

text \<open>
  What the test \<open>state_machine\<close> of \<open>src/manager.rs\<close> warns of: the guard of the menu's tree has
  to be dropped before the tree is locked again through the id of a child, since both ids lead to
  the same mutex.
\<close>

definition look_t :: "game sharding \<Rightarrow> game state_id \<Rightarrow> ((game, game_state) state_node \<Rightarrow> 'a outcome) \<Rightarrow> 'a game_thread" where
  "look_t sh i f =
     bindt (get_tree_t sh i) (\<lambda>tree.
     bindt (Halt (unwrap UnwrapNone tree)) (\<lambda>r.
       locked_t r (\<lambda>node. (f node, node))))"

definition state_at_t :: "game sharding \<Rightarrow> game state_id \<Rightarrow> game_state game_thread" where
  "state_at_t sh i = look_t sh i (\<lambda>node. map_outcome_to (unwrap UnwrapNone) (get_state node i))"

text \<open>What the test reads through the first guard.\<close>

definition menu_look :: "(game, game_state) state_node \<Rightarrow>
    (game state_id \<times> game state_id \<times> game state_id \<times> game_state) outcome" where
  "menu_look node = map_outcome_to (\<lambda>(ping, pong).
     Returned (node_id ping, node_id pong, node_id node, node_state node)) (two_children node)"

definition asserts_t :: "game sharding \<Rightarrow> game state_id \<Rightarrow>
    (game state_id \<times> game_state \<times> game_state \<times> game_state) game_thread" where
  "asserts_t sh menu =
     bindt (look_t sh menu menu_look) (\<lambda>(i1, i2, i, s).
     bindt (state_at_t sh i1) (\<lambda>ping_state.
     bindt (state_at_t sh i2) (\<lambda>pong_state.
       returns (i, s, ping_state, pong_state))))"

text \<open>The same code without the first \<open>drop(node)\<close>: the guard lives to the end.\<close>

definition undropped_t :: "game sharding \<Rightarrow> game state_id \<Rightarrow>
    (game state_id \<times> game_state \<times> game_state \<times> game_state) game_thread" where
  "undropped_t sh menu =
     bindt (get_tree_t sh menu) (\<lambda>tree.
     bindt (Halt (unwrap UnwrapNone tree)) (\<lambda>r.
       with_lock (Tree_mutex r)
         (bindt (atomic (on_store (locked r (\<lambda>node. (menu_look node, node))))) (\<lambda>(i1, i2, i, s).
          bindt (state_at_t sh i1) (\<lambda>ping_state.
          bindt (state_at_t sh i2) (\<lambda>pong_state.
            returns (i, s, ping_state, pong_state)))))))"

lemma solo_asserts: "solo (asserts_t sh menu) = state_machine_asserts menu"
  by (simp add: asserts_t_def state_machine_asserts_def state_at_t_def state_at_def look_t_def look_def menu_look_def
      solo_simps fun_eq_iff cmd_simps split: prod.split outcome.split)

lemma tidy_asserts: "tidy lock_rank [] (asserts_t sh menu) []"
  unfolding asserts_t_def state_at_t_def look_t_def
  by (intro tidy_rules) (auto intro!: tidy_rules split: prod.split)

lemma get_tree_alone:
  assumes "\<not> is_nil i" and "\<forall>l \<in> set H. lock_rank l = 0"
  shows "solo (get_tree_t sh i) w = (Returned (trees (state_store w) i), w)"
    and "tidy lock_rank H (get_tree_t sh i) H"
  using assms
  by (auto simp: solo_simps get_tree_def cmd_simps get_tree_t_def assert_t_def seqt_def bindt_def andthen.simps
      intro!: tidy_with_lock tidy_atomic)

text \<open>With the guard still held, the second lock is never taken.\<close>

lemma undropped_stuck:
  assumes "trees (state_store w) menu = Some r" and "trees (state_store w) first_id = Some r"
    and "r < length (heap (state_store w))" and "\<not> is_nil menu" and "\<not> is_nil first_id"
    and "menu_look (heap (state_store w) ! r) = Returned (first_id, i2, i, s)"
  shows "inevitably stuck (pool_new [undropped_t sh menu] w)"
proof -
  let ?look = "atomic (on_store (locked r (\<lambda>node. (menu_look node, node)))) ::
    (game state_id \<times> game state_id \<times> game state_id \<times> game_state) game_thread"
  have look: "solo ?look w = (Returned (first_id, i2, i, s), w)"
    using assms(3,6) by (simp add: solo_simps cmd_simps locked_def)
  have "stuck (lone (Lock (Tree_mutex r) t) [Tree_mutex r] w)" for t :: "'a game_thread"
    by (rule lone_stuck) simp
  note stop = already [of stuck, OF this]
  have first: "solo (get_tree_t sh menu) w = (Returned (Some r), w)" "tidy lock_rank [] (get_tree_t sh menu :: tree_ref option game_thread) []"
    using get_tree_alone(1) [OF assms(4), of "[]" sh w] get_tree_alone(2) [OF assms(4), of "[]" sh] assms(1) by simp_all
  have second: "solo (get_tree_t sh first_id) w = (Returned (Some r), w)"
    "tidy lock_rank [Tree_mutex r] (get_tree_t sh first_id :: tree_ref option game_thread) [Tree_mutex r]"
    using get_tree_alone(1) [OF assms(5), of "[]" sh w] get_tree_alone(2) [OF assms(5), of "[Tree_mutex r]" sh] assms(2)
    by simp_all
  have rest: "inevitably stuck (lone (andthen (state_at_t sh first_id) f) [Tree_mutex r] w)" for f :: "_ \<Rightarrow> 'a game_thread"
    unfolding state_at_t_def look_t_def bindt_def [of "get_tree_t sh first_id"] andthen_assoc
    by (rule lone_inevitably [OF second(2) _ second(1)])
      (simp_all add: bindt_def andthen.simps locked_t_def with_lock_def stop)
  have inside: "inevitably stuck (lone (andthen (bindt ?look (\<lambda>(i1, i2, i, s). bindt (state_at_t sh i1) (F i2 i s))) G)
      [Tree_mutex r] w)" for F and G :: "_ \<Rightarrow> 'a game_thread"
    unfolding bindt_def [of ?look] andthen_assoc
    by (rule lone_inevitably [where x = "Returned (first_id, i2, i, s)" and w' = w and rank = lock_rank and B = "[Tree_mutex r]"])
      (simp_all add: look tidy_atomic bindt_def andthen_assoc rest)
  have held: "inevitably stuck (lone (with_lock (Tree_mutex r)
      (bindt ?look (\<lambda>(i1, i2, i, s). bindt (state_at_t sh i1) (F i2 i s)))) [] w)" for F :: "_ \<Rightarrow> _ \<Rightarrow> _ \<Rightarrow> _ \<Rightarrow> 'a game_thread"
    unfolding with_lock_def
    by (rule inevitably_step [rotated, OF inside]) (auto simp: lone_step)
  show ?thesis
    unfolding pool_new_lone undropped_t_def bindt_def [of "get_tree_t sh menu"]
    by (rule lone_inevitably [OF first(2) _ first(1)])
      (simp_all add: bindt_def [of "Halt x" for x] andthen.simps held)
qed

text \<open>
  C27. The test state_machine, after the game is over: with the guards dropped as in the source,
  its assertions end, in every schedule, with the values they compare. Without the first drop,
  in every schedule the test comes to a stop that it can never leave, as the comment in the
  source says: menu and ping are in the same tree.
\<close>

theorem second_lock_deadlocks:
  assumes "m \<noteq> 0" and "vs 0 \<noteq> 0" and "vs 1 \<noteq> 0"
    and "\<forall>t \<in> set ts. t + 11000000 < instant_limit" and "10 \<le> length ts"
  shows "\<exists>rx w. manager_run game_machines wk ts rx0 (game_start t vs \<lparr>kind = Menu, uuid = m\<rparr> None) = (Waiting, rx, w) \<and>
    inevitably (\<lambda>p. threads p = [returns (\<lparr>kind = Menu, uuid = m\<rparr>,
      State_Menu Menu_Done, State_Ping Ping_Done, State_Pong Pong_Done)])
      (pool_new [asserts_t sh \<lparr>kind = Menu, uuid = m\<rparr>] w) \<and>
    inevitably stuck (pool_new [undropped_t sh \<lparr>kind = Menu, uuid = m\<rparr>] w)"
proof -
  from game_completes_view [OF assms(1-3) _ _ assms(4,5), of None wk rx0 t] obtain rx w N t' usr where
    run: "manager_run game_machines wk ts rx0 (game_start t vs (menu_id m) None) = (Waiting, rx, w)"
    and w: "shows_view w (in_play m (vs 0) (vs 1) Menu_Done Ping_Done Pong_Done [] N t' usr)" by auto
  have fw: "first_world w" using first_run.run_keeps [OF first_game_start run] by blast
  note see = shows_viewD(1-3) [OF w]
  from asserts_see(1) [of w m "vs 0" "vs 1" Menu_Done Ping_Done Pong_Done] see fw assms(1-3) obtain w' where
    alone: "solo (asserts_t sh (menu_id m)) w =
      (Returned (menu_id m, State_Menu Menu_Done, State_Ping Ping_Done, State_Pong Pong_Done), w')"
    unfolding solo_asserts by (metis (no_types, lifting) in_play_sel(1,2) prod.collapse)
  have "inevitably (\<lambda>p. threads p = [returns (menu_id m, State_Menu Menu_Done, State_Ping Ping_Done, State_Pong Pong_Done)])
      (pool_new [asserts_t sh (menu_id m)] w)"
    by (rule inevitably_mono [OF lone_ends [OF tidy_asserts alone]]) (simp add: pool_new_def)
  moreover from menu_tree [of w m "vs 0" "vs 1" Menu_Done Ping_Done Pong_Done] see fw obtain r x y where
    n: "trees (state_store w) (menu_id m) = Some r" "trees (state_store w) (ping_id (vs 0)) = Some r"
      "r < length (heap (state_store w))" "children (heap (state_store w) ! r) = [x, y]" "node_id x = ping_id (vs 0)"
    by (metis in_play_sel(1,2))
  then have "menu_look (heap (state_store w) ! r) = Returned (ping_id (vs 0), node_id y,
      node_id (heap (state_store w) ! r), node_state (heap (state_store w) ! r))"
    by (simp add: menu_look_def two_children_def vec_get_def)
  from undropped_stuck [OF n(1-3) _ _ this] assms(1,2) have "inevitably stuck (pool_new [undropped_t sh (menu_id m)] w)"
    by (simp add: is_nil_def)
  ultimately show ?thesis using run by blast
qed

theorem second_lock_deadlocks_witness:
  "\<exists>rx w. manager_run game_machines 0 (replicate 10 0) stream
      (game_start 0 (\<lambda>n. of_nat n + 1) \<lparr>kind = Menu, uuid = 9\<rparr> None) = (Waiting, rx, w) \<and>
    inevitably stuck (pool_new [undropped_t (\<lambda>_. 0) \<lparr>kind = Menu, uuid = 9\<rparr>] w)"
  using second_lock_deadlocks [of 9 "\<lambda>n. of_nat n + 1" "replicate 10 0" 0 stream 0 "\<lambda>_. 0"]
  by (auto simp: instant_limit_def nanos_per_sec_def)

end
