(* ===== verification/Rex_Wiring.thy ===== *)
theory Rex_Wiring
  imports Rex_Builder
begin

text \<open>
  Which queue, store and ledger each part of a system holds. The queues, the store and the
  ledgers are shared through \<open>Arc\<close>s; here an \<open>Arc\<close> is the number of the object it leads to, a
  clone is the same number, and \<open>build\<close> gives the tasks it spawns with the handles they captured.
  The other theories have one world that all parts share; the last section is why.
\<close>

section \<open>Shared objects\<close>

type_synonym arc = nat

text \<open>How many objects of each sort the program has made.\<close>

record arcs =
  signal_arcs :: nat
  notification_arcs :: nat
  store_arcs :: nat
  ledger_arcs :: nat

text \<open>\<open>Arc::default()\<close> of a \<open>StreamableDeque\<close>, \<open>NotificationQueue::new\<close>, \<open>Arc::new(StateStore::new())\<close>.\<close>

definition signal_queue_h :: "(arcs, arc) cmd" where
  "signal_queue_h = (\<lambda>A. (Returned (signal_arcs A), A\<lparr>signal_arcs := Suc (signal_arcs A)\<rparr>))"

definition notification_queue_h :: "(arcs, arc) cmd" where
  "notification_queue_h = (\<lambda>A. (Returned (notification_arcs A), A\<lparr>notification_arcs := Suc (notification_arcs A)\<rparr>))"

definition state_store_h :: "(arcs, arc) cmd" where
  "state_store_h = (\<lambda>A. (Returned (store_arcs A), A\<lparr>store_arcs := Suc (store_arcs A)\<rparr>))"

section \<open>Contexts\<close>

record 'k sm_context =
  sc_signals :: arc
  sc_notifications :: arc
  sc_store :: arc
  sc_id :: "'k state_id"

definition sm_context_clone :: "'k sm_context \<Rightarrow> 'k sm_context" where
  "sm_context_clone ctx = \<lparr>sc_signals = sc_signals ctx, sc_notifications = sc_notifications ctx,
     sc_store = sc_store ctx, sc_id = sc_id ctx\<rparr>"

record empty_context =
  ec_signals :: arc
  ec_notifications :: arc
  ec_store :: arc

definition empty_context_init :: "empty_context \<Rightarrow> 'k state_id \<Rightarrow> 'k sm_context" where
  "empty_context_init ec i = \<lparr>sc_signals = ec_signals ec, sc_notifications = ec_notifications ec,
     sc_store = ec_store ec, sc_id = i\<rparr>"

record builder_handles =
  bc_signals :: arc
  bc_notifications :: arc

section \<open>Processors and their tasks\<close>

record 't timeout_manager_h =
  th_tick_rate :: duration
  th_ledger :: arc
  th_topic :: 't
  th_signals :: arc

definition timeout_manager_new_h :: "arc \<Rightarrow> 't \<Rightarrow> (arcs, 't timeout_manager_h) cmd" where
  "timeout_manager_new_h q t = (\<lambda>A. (Returned \<lparr>th_tick_rate = default_tick_rate, th_ledger = ledger_arcs A,
     th_topic = t, th_signals = q\<rparr>, A\<lparr>ledger_arcs := Suc (ledger_arcs A)\<rparr>))"

datatype ('k, 'p, 't) np_h =
    Timeout_h "'t timeout_manager_h"
  | Ingress_h arc "('k, 'p, 't) ingress_adapter"
  | User_h "unit outcome" "'t list"

text \<open>The tasks of a \<open>JoinSet\<close>, with what each captured; a user's processor spawns its own.\<close>

datatype ('k, 'i, 'w, 'p, 't) task_h =
    Dispatch_task arc "('k, 'i, 'w) machines" empty_context
  | Routing_task arc "'t subscriptions"
  | Ledger_task channel arc
  | Tick_task duration arc arc
  | Inbound_task "('k, 'p) packet_router" arc channel
  | Outbound_task channel channel

definition spawn_ledger_h :: "channel \<Rightarrow> 't timeout_manager_h \<Rightarrow> ('k, 'i, 'w, 'p, 't) task_h" where
  "spawn_ledger_h c tm = (let in_ledger = th_ledger tm in Ledger_task c in_ledger)"

definition spawn_tick_h :: "'t timeout_manager_h \<Rightarrow> ('k, 'i, 'w, 'p, 't) task_h outcome" where
  "spawn_tick_h tm =
     (let timer_ledger = th_ledger tm in
      if duration_nanos (th_tick_rate tm) = 0 then Panicked ZeroInterval
      else Returned (Tick_task (th_tick_rate tm) timer_ledger (th_signals tm)))"

text \<open>\<open>init\<close>, which is \<open>init_inner_with_handle\<close>, and \<open>get_topics\<close>.\<close>

definition timeout_init_h ::
  "channel \<Rightarrow> 't timeout_manager_h \<Rightarrow> ('t processor \<times> ('k, 'i, 'w, 'p, 't) task_h list) outcome" where
  "timeout_init_h c tm =
     (let ledger_task = spawn_ledger_h c tm in
      map_outcome_to (\<lambda>tick_task. Returned (\<lparr>np_channel = c, np_topics = [th_topic tm]\<rparr>, [ledger_task, tick_task]))
        (spawn_tick_h tm))"

lemmas timeout_spawn_defs = timeout_init_h_def spawn_ledger_h_def spawn_tick_h_def

definition ingress_init_h ::
  "channel \<Rightarrow> arc \<Rightarrow> ('k, 'p, 't) ingress_adapter \<Rightarrow> ('t processor \<times> ('k, 'i, 'w, 'p, 't) task_h list) outcome" where
  "ingress_init_h c q ad = map_outcome_to
     (\<lambda>rx. Returned (\<lparr>np_channel = c, np_topics = [ingress_topic ad]\<rparr>,
        [Inbound_task (router ad) q rx, Outbound_task c (outbound_tx ad)]))
     (fst (spawn_inbound ad))"

primrec np_init_h ::
  "channel \<Rightarrow> ('k, 'p, 't) np_h \<Rightarrow> ('t processor \<times> ('k, 'i, 'w, 'p, 't) task_h list) outcome" where
  "np_init_h c (Timeout_h tm) = timeout_init_h c tm"
| "np_init_h c (Ingress_h q ad) = ingress_init_h c q ad"
| "np_init_h c (User_h x ts) = map_outcome_to (\<lambda>_. Returned (\<lparr>np_channel = c, np_topics = ts\<rparr>, [])) x"

section \<open>The two managers\<close>

record 't notification_manager_h =
  nh_processors :: "'t subscriptions"
  nh_queue :: arc

text \<open>The fold over the processors; \<open>c\<close> is the first channel not in use.\<close>

fun nm_fold_h ::
  "channel \<Rightarrow> ('k, 'p, 't) np_h list \<Rightarrow> 't subscriptions \<Rightarrow>
   ('t subscriptions \<times> ('k, 'i, 'w, 'p, 't) task_h list) outcome" where
  "nm_fold_h c [] subs = Returned (subs, [])"
| "nm_fold_h c (np # nps) subs =
     map_outcome_to (\<lambda>(p, ts). map_outcome_to (\<lambda>(subs', ts'). Returned (subs', ts @ ts'))
       (nm_fold_h (Suc c) nps (fold (subscribe (np_channel p)) (np_topics p) subs)))
     (np_init_h c np)"

definition nm_new_h ::
  "channel \<Rightarrow> ('k, 'p, 't) np_h list \<Rightarrow> arc \<Rightarrow>
   ('t notification_manager_h \<times> ('k, 'i, 'w, 'p, 't) task_h list) outcome" where
  "nm_new_h c nps q = map_outcome_to
     (\<lambda>(subs, ts). Returned (\<lparr>nh_processors = subs, nh_queue = q\<rparr>, ts)) (nm_fold_h c nps Map.empty)"

text \<open>\<open>init\<close> spawns a task and returns the queue.\<close>

definition nm_init_h :: "'t notification_manager_h \<Rightarrow> arc \<times> ('k, 'i, 'w, 'p, 't) task_h" where
  "nm_init_h nm = (nh_queue nm, Routing_task (nh_queue nm) (nh_processors nm))"

record ('k, 'i, 'w) sm_manager_h =
  mh_signals :: arc
  mh_notifications :: arc
  mh_machines :: "('k, 'i, 'w) machines"
  mh_store :: arc

definition sm_manager_new_h ::
  "('k, 'i, 'w) machine list \<Rightarrow> arc \<Rightarrow> arc \<Rightarrow> (arcs, ('k, 'i, 'w) sm_manager_h) cmd" where
  "sm_manager_new_h sms q nq =
     bindc (lift_outcome (manager_new sms)) (\<lambda>table.
     bindc state_store_h (\<lambda>st.
       ret \<lparr>mh_signals = q, mh_notifications = nq, mh_machines = table, mh_store = st\<rparr>))"

definition ctx_builder_h :: "('k, 'i, 'w) sm_manager_h \<Rightarrow> empty_context" where
  "ctx_builder_h m = \<lparr>ec_signals = mh_signals m, ec_notifications = mh_notifications m, ec_store = mh_store m\<rparr>"

definition sm_manager_init_h :: "('k, 'i, 'w) sm_manager_h \<Rightarrow> ('k, 'i, 'w, 'p, 't) task_h" where
  "sm_manager_init_h m = Dispatch_task (mh_signals m) (mh_machines m) (ctx_builder_h m)"

section \<open>The builder\<close>

record ('k, 'i, 'w, 'p, 't) builder_h =
  bh_signals :: arc
  bh_notifications :: arc
  bh_machines :: "('k, 'i, 'w) machine list"
  bh_processors :: "('k, 'p, 't) np_h list"
  bh_timeout_topic :: "'t option"
  bh_tick_rate :: "duration option"
  bh_outbound_tx :: "channel option"
  bh_ingress_channel :: "channel option"

definition builder_default_h :: "(arcs, ('k, 'i, 'w, 'p, 't) builder_h) cmd" where
  "builder_default_h =
     bindc notification_queue_h (\<lambda>nq.
     bindc signal_queue_h (\<lambda>q.
       ret \<lparr>bh_signals = q, bh_notifications = nq, bh_machines = [], bh_processors = [],
         bh_timeout_topic = None, bh_tick_rate = None, bh_outbound_tx = None, bh_ingress_channel = None\<rparr>))"

definition new_connected_h :: "channel \<Rightarrow> channel \<Rightarrow> (arcs, ('k, 'i, 'w, 'p, 't) builder_h) cmd" where
  "new_connected_h c out_tx = bindc builder_default_h (\<lambda>b.
     ret (b\<lparr>bh_outbound_tx := Some out_tx, bh_ingress_channel := Some c\<rparr>))"

definition ctx_h :: "('k, 'i, 'w, 'p, 't) builder_h \<Rightarrow> builder_handles" where
  "ctx_h b = \<lparr>bc_signals = bh_signals b, bc_notifications = bh_notifications b\<rparr>"

definition push_np_h :: "('k, 'p, 't) np_h \<Rightarrow> ('k, 'i, 'w, 'p, 't) builder_h \<Rightarrow> ('k, 'i, 'w, 'p, 't) builder_h" where
  "push_np_h np b = b\<lparr>bh_processors := bh_processors b @ [np]\<rparr>"

definition push_ctx_np_h ::
  "(builder_handles \<Rightarrow> ('k, 'p, 't) np_h) \<Rightarrow> ('k, 'i, 'w, 'p, 't) builder_h \<Rightarrow> ('k, 'i, 'w, 'p, 't) builder_h" where
  "push_ctx_np_h op b = b\<lparr>bh_processors := bh_processors b @ [op (ctx_h b)]\<rparr>"

definition with_ingress_adapter_h ::
  "('k, 'p) state_router list \<Rightarrow> 't \<Rightarrow> ('k, 'i, 'w, 'p, 't) builder_h \<Rightarrow> ('k, 'i, 'w, 'p, 't) builder_h outcome" where
  "with_ingress_adapter_h rs t b =
     (if rs = [] then Panicked EmptyRouters
      else map_outcome_to (\<lambda>c. map_outcome_to (\<lambda>out_tx. map_outcome_to (\<lambda>pr.
          Returned (push_np_h (Ingress_h (bh_signals b) \<lparr>outbound_tx = out_tx, router = pr,
            inbound_tx = c, inbound_rx = Some c, ingress_topic = t\<rparr>) (b\<lparr>bh_ingress_channel := None\<rparr>)))
        (packet_router_new rs))
        (unwrap OutboundUninitialized (bh_outbound_tx b)))
        (unwrap IngressUninitialized (bh_ingress_channel b)))"

definition build_timeout_manager_h ::
  "('k, 'i, 'w, 'p, 't) builder_h \<Rightarrow> (arcs, ('k, 'i, 'w, 'p, 't) builder_h) cmd" where
  "build_timeout_manager_h b = (case bh_timeout_topic b of
     Some topic \<Rightarrow> bindc (timeout_manager_new_h (bh_signals b) topic) (\<lambda>tm.
       ret (push_np_h (Timeout_h (tm\<lparr>th_tick_rate :=
         (case bh_tick_rate b of Some d \<Rightarrow> d | None \<Rightarrow> default_tick_rate)\<rparr>)) b))
   | None \<Rightarrow> ret b)"

definition build_inner_h ::
  "channel \<Rightarrow> ('k, 'i, 'w, 'p, 't) builder_h \<Rightarrow>
   (arcs, empty_context \<times> ('k, 'i, 'w, 'p, 't) task_h list) cmd" where
  "build_inner_h c b =
     bindc (build_timeout_manager_h b) (\<lambda>b.
     bindc (lift_outcome (if bh_processors b \<noteq> []
       then map_outcome_to (\<lambda>(nm, ts). Returned (ts @ [snd (nm_init_h nm)]))
         (nm_new_h c (bh_processors b) (bh_notifications b))
       else Returned [])) (\<lambda>ts.
     bindc (sm_manager_new_h (bh_machines b) (bh_signals b) (bh_notifications b)) (\<lambda>m.
       ret (ctx_builder_h m, ts @ [sm_manager_init_h m]))))"

text \<open>The calls of a builder that do not end in \<open>build\<close>.\<close>

datatype ('k, 'i, 'w, 'p, 't) builder_call =
    With_sm "('k, 'i, 'w) machine"
  | With_np "('k, 'p, 't) np_h"
  | With_ctx_np "builder_handles \<Rightarrow> ('k, 'p, 't) np_h"
  | With_timeout_manager 't
  | With_tick_rate duration
  | With_ingress_adapter "('k, 'p) state_router list" 't

primrec builder_step ::
  "('k, 'i, 'w, 'p, 't) builder_call \<Rightarrow> ('k, 'i, 'w, 'p, 't) builder_h \<Rightarrow> ('k, 'i, 'w, 'p, 't) builder_h outcome" where
  "builder_step (With_sm sm) b = Returned (b\<lparr>bh_machines := bh_machines b @ [sm]\<rparr>)"
| "builder_step (With_np np) b = Returned (push_np_h np b)"
| "builder_step (With_ctx_np op) b = Returned (push_ctx_np_h op b)"
| "builder_step (With_timeout_manager t) b = Returned (b\<lparr>bh_timeout_topic := Some t\<rparr>)"
| "builder_step (With_tick_rate d) b = Returned (b\<lparr>bh_tick_rate := Some d\<rparr>)"
| "builder_step (With_ingress_adapter rs t) b = with_ingress_adapter_h rs t b"

primrec builder_steps ::
  "('k, 'i, 'w, 'p, 't) builder_call list \<Rightarrow> ('k, 'i, 'w, 'p, 't) builder_h \<Rightarrow> ('k, 'i, 'w, 'p, 't) builder_h outcome" where
  "builder_steps [] b = Returned b"
| "builder_steps (x # xs) b = map_outcome_to (builder_steps xs) (builder_step x b)"

section \<open>Without the handles, it is the builder of the other theories\<close>

primrec np_of :: "('k, 'p, 't) np_h \<Rightarrow> ('k, 'p, 't) boxed_np" where
  "np_of (Timeout_h tm) = Timeout_np \<lparr>tm_tick_rate = th_tick_rate tm, tm_topic = th_topic tm\<rparr>"
| "np_of (Ingress_h q ad) = Ingress_np ad"
| "np_of (User_h x ts) = Custom_np x ts"

definition builder_of :: "('k, 'i, 'w, 'p, 't) builder_h \<Rightarrow> ('k, 'i, 'w, 'p, 't) rex_builder" where
  "builder_of b = \<lparr>state_machines = bh_machines b, notification_processors = map np_of (bh_processors b),
     timeout_topic = bh_timeout_topic b, tick_rate = bh_tick_rate b, builder_outbound = bh_outbound_tx b,
     ingress_channel = bh_ingress_channel b\<rparr>"

definition dispatching :: "('k, 'i, 'w, 'p, 't) task_h list \<Rightarrow> (('k, 'i, 'w) machines \<times> empty_context) list" where
  "dispatching ts = List.map_filter (\<lambda>t. case t of Dispatch_task q sms ec \<Rightarrow> Some (sms, ec) | _ \<Rightarrow> None) ts"

definition routing :: "('k, 'i, 'w, 'p, 't) task_h list \<Rightarrow> 't subscriptions list" where
  "routing ts = List.map_filter (\<lambda>t. case t of Routing_task q subs \<Rightarrow> Some subs | _ \<Rightarrow> None) ts"

lemma tables_append [simp]:
  "dispatching (ts @ us) = dispatching ts @ dispatching us" "routing (ts @ us) = routing ts @ routing us"
  by (simp_all add: dispatching_def routing_def map_filter_def)

lemma tables_simps [simp]:
  "dispatching [] = []" "routing [] = []"
  "dispatching (Dispatch_task q sms ec # ts) = (sms, ec) # dispatching ts" "routing (Dispatch_task q sms ec # ts) = routing ts"
  "dispatching (Routing_task q subs # ts) = dispatching ts" "routing (Routing_task q subs # ts) = subs # routing ts"
  by (simp_all add: dispatching_def routing_def map_filter_simps)

lemma np_init_of:
  "np_init c (np_of np) = map_outcome_to (\<lambda>(p, ts :: ('k, 'i, 'w, 'p, 't) task_h list). Returned p) (np_init_h c np)"
  and np_init_tables: "np_init_h c np = Returned (p, ts) \<Longrightarrow> dispatching ts = [] \<and> routing ts = []"
proof -
  note inits = np_init_def timeout_spawn_defs ingress_init_h_def adapter_init_def spawn_inbound_def cmd_simps
  show "np_init c (np_of np) = map_outcome_to (\<lambda>(p, ts :: ('k, 'i, 'w, 'p, 't) task_h list). Returned p) (np_init_h c np)"
  proof (cases np)
    case (User_h x ts)
    then show ?thesis by (cases x) (simp_all add: np_init_def)
  qed (auto simp: inits split: option.splits if_splits)
  show "dispatching ts = [] \<and> routing ts = []" if "np_init_h c np = Returned (p, ts)"
    using that
  proof (cases np)
    case (User_h x ts')
    with that show ?thesis by (cases x) auto
  qed (auto simp: inits dispatching_def routing_def map_filter_simps split: option.splits if_splits)
qed

lemma nm_fold_of:
  "map_outcome_to (\<lambda>ps. Returned (fold (\<lambda>p. fold (subscribe (np_channel p)) (np_topics p)) ps subs))
     (np_init_all c (map np_of nps)) =
   map_outcome_to (\<lambda>(subs', ts :: ('k, 'i, 'w, 'p, 't) task_h list). Returned subs') (nm_fold_h c nps subs)"
proof (induction nps arbitrary: c subs)
  case (Cons np nps)
  show ?case
  proof (cases "np_init_h c np :: ('t processor \<times> ('k, 'i, 'w, 'p, 't) task_h list) outcome")
    case (Returned x)
    obtain p ts where x: "x = (p, ts)" by (cases x)
    show ?thesis
      using Cons.IH [of "fold (subscribe (np_channel p)) (np_topics p) subs" "Suc c"]
      by (cases "np_init_all (Suc c) (map np_of nps)";
          cases "nm_fold_h (Suc c) nps (fold (subscribe (np_channel p)) (np_topics p) subs) ::
            ('t subscriptions \<times> ('k, 'i, 'w, 'p, 't) task_h list) outcome")
        (auto simp: np_init_of [where 'i = 'i and 'w = 'w] Returned x)
  qed (simp add: np_init_of [where 'i = 'i and 'w = 'w])
qed simp

lemma nm_fold_tables: "nm_fold_h c nps subs = Returned (subs', ts) \<Longrightarrow> dispatching ts = [] \<and> routing ts = []"
proof (induction nps arbitrary: c subs ts)
  case (Cons np nps)
  then show ?case
    by (fastforce simp: map_outcome_to_Returned_iff dest: np_init_tables split: prod.splits)
qed simp

lemma builder_of_sel [simp]:
  "notification_processors (builder_of b) = map np_of (bh_processors b)"
  "state_machines (builder_of b) = bh_machines b"
  by (simp_all add: builder_of_def)

lemma build_timeout_manager_of:
  "build_timeout_manager_h b A = (x, A') \<Longrightarrow>
   \<exists>b'. x = Returned b' \<and> builder_of b' = build_timeout_manager (builder_of b) \<and>
     bh_signals b' = bh_signals b \<and> bh_notifications b' = bh_notifications b \<and> store_arcs A' = store_arcs A"
  by (auto simp: build_timeout_manager_h_def build_timeout_manager_def builder_of_def push_np_h_def
      timeout_manager_new_h_def cmd_simps with_np_def tm_with_tick_rate_def timeout_manager_new_def split: option.splits)

text \<open>
  \<open>build\<close> succeeds, or panics, as without the handles, and its tasks have the same tables.
\<close>

lemma build_inner_of:
  assumes "build_inner_h c b A = (x, A')"
  shows "case x of
     Panicked p \<Rightarrow> build_inner c (builder_of b) = Panicked p
   | Returned (ec, ts) \<Rightarrow> \<exists>sys. build_inner c (builder_of b) = Returned sys \<and>
       dispatching ts = [(sys_machines sys, ec)] \<and> routing ts = (case sys_subscriptions sys of None \<Rightarrow> [] | Some subs \<Rightarrow> [subs])"
proof -
  obtain y A1 where y: "build_timeout_manager_h b A = (y, A1)" by fastforce
  from build_timeout_manager_of [OF this] obtain b' where b': "y = Returned b'"
    "builder_of b' = build_timeout_manager (builder_of b)" by blast
  let ?nps = "bh_processors b'"
  have b: "notification_processors (build_timeout_manager (builder_of b)) = map np_of ?nps"
    "state_machines (build_timeout_manager (builder_of b)) = bh_machines b'"
    unfolding b'(2) [symmetric] by simp_all
  let ?R = "nm_fold_h c ?nps Map.empty :: ('e subscriptions \<times> ('a, 'b, 'c, 'd, 'e) task_h list) outcome"
  have R: "map_outcome_to (\<lambda>ps. Returned (nm_new ps)) (np_init_all c (map np_of ?nps)) =
      map_outcome_to (\<lambda>(subs', ts). Returned subs') ?R"
    using nm_fold_of [of Map.empty c ?nps, where 'i = 'b and 'w = 'c] by (simp add: nm_new_def)
  note parts = build_inner_h_def build_inner_def cmd_simps y b'(1) sm_manager_new_h_def state_store_h_def nm_new_h_def
    nm_init_h_def sm_manager_init_h_def b Let_def
  show ?thesis
  proof (cases "?nps = []")
    case True
    with assms show ?thesis
      by (cases "manager_new (bh_machines b')") (auto simp: parts)
  next
    case False
    show ?thesis
    proof (cases ?R)
      case (Returned z)
      obtain subs ts where z: "z = (subs, ts)" by (cases z)
      with R Returned obtain ps where ps: "np_init_all c (map np_of ?nps) = Returned ps" "nm_new ps = subs"
        by (auto simp: map_outcome_to_Returned_iff)
      from nm_fold_tables [OF Returned [unfolded z]] assms False Returned ps show ?thesis
        by (cases "manager_new (bh_machines b')") (auto simp: parts z)
    next
      case (Panicked p)
      with R have "np_init_all c (map np_of ?nps) = Panicked p"
        by (cases "np_init_all c (map np_of ?nps)") simp_all
      with assms False Panicked show ?thesis by (auto simp: parts)
    qed
  qed
qed

section \<open>One world\<close>

text \<open>The handles a processor or a task holds.\<close>

primrec np_signals :: "('k, 'p, 't) np_h \<Rightarrow> arc set" where
  "np_signals (Timeout_h tm) = {th_signals tm}"
| "np_signals (Ingress_h q ad) = {q}"
| "np_signals (User_h x ts) = {}"

primrec task_signals :: "('k, 'i, 'w, 'p, 't) task_h \<Rightarrow> arc set" where
  "task_signals (Dispatch_task q sms ec) = {q, ec_signals ec}"
| "task_signals (Routing_task q subs) = {}"
| "task_signals (Ledger_task c l) = {}"
| "task_signals (Tick_task d l q) = {q}"
| "task_signals (Inbound_task pr q c) = {q}"
| "task_signals (Outbound_task c c') = {}"

primrec task_notifications :: "('k, 'i, 'w, 'p, 't) task_h \<Rightarrow> arc set" where
  "task_notifications (Dispatch_task q sms ec) = {ec_notifications ec}"
| "task_notifications (Routing_task q subs) = {q}"
| "task_notifications (Ledger_task c l) = {}"
| "task_notifications (Tick_task d l q) = {}"
| "task_notifications (Inbound_task pr q c) = {}"
| "task_notifications (Outbound_task c c') = {}"

primrec task_stores :: "('k, 'i, 'w, 'p, 't) task_h \<Rightarrow> arc set" where
  "task_stores (Dispatch_task q sms ec) = {ec_store ec}"
| "task_stores (Routing_task q subs) = {}"
| "task_stores (Ledger_task c l) = {}"
| "task_stores (Tick_task d l q) = {}"
| "task_stores (Inbound_task pr q c) = {}"
| "task_stores (Outbound_task c c') = {}"

text \<open>
  A processor that a user makes outside the builder brings no other signal queue, and one made
  from the builder's context takes the signal queue it was shown.
\<close>

primrec call_own :: "('k, 'i, 'w, 'p, 't) builder_call \<Rightarrow> bool" where
  "call_own (With_sm sm) = True"
| "call_own (With_np np) = (np_signals np = {})"
| "call_own (With_ctx_np op) = (\<forall>h. np_signals (op h) \<subseteq> {bc_signals h})"
| "call_own (With_timeout_manager t) = True"
| "call_own (With_tick_rate d) = True"
| "call_own (With_ingress_adapter rs t) = True"

definition wired :: "arc \<Rightarrow> arc \<Rightarrow> ('k, 'i, 'w, 'p, 't) builder_h \<Rightarrow> bool" where
  "wired q nq b \<longleftrightarrow> bh_signals b = q \<and> bh_notifications b = nq \<and> (\<forall>np \<in> set (bh_processors b). np_signals np \<subseteq> {q})"

lemma wired_step:
  assumes "wired q nq b" and "call_own x" and "builder_step x b = Returned b'"
  shows "wired q nq b'"
proof (cases x)
  case (With_ctx_np op)
  with assms(2) have "np_signals (op (ctx_h b)) \<subseteq> {bc_signals (ctx_h b)}" by simp
  moreover have "b' = push_ctx_np_h op b" using With_ctx_np assms(3) by simp
  ultimately show ?thesis using assms(1) by (simp add: wired_def push_ctx_np_h_def ctx_h_def ball_Un)
qed (use assms in \<open>auto simp: wired_def push_np_h_def with_ingress_adapter_h_def map_outcome_to_Returned_iff
  split: if_splits\<close>)

lemma wired_steps:
  "wired q nq b \<Longrightarrow> \<forall>x \<in> set xs. call_own x \<Longrightarrow> builder_steps xs b = Returned b' \<Longrightarrow> wired q nq b'"
  by (induction xs arbitrary: b) (auto simp: map_outcome_to_Returned_iff dest: wired_step)

lemma wired_new:
  "builder_default_h A = (Returned b, A') \<Longrightarrow> wired (signal_arcs A) (notification_arcs A) b"
  "new_connected_h c out_tx A = (Returned b, A') \<Longrightarrow> wired (signal_arcs A) (notification_arcs A) b"
  by (auto simp: builder_default_h_def new_connected_h_def signal_queue_h_def notification_queue_h_def cmd_simps wired_def)

lemma np_tasks:
  "np_init_h c np = Returned (p, ts) \<Longrightarrow> t \<in> set ts \<Longrightarrow>
   task_signals t \<subseteq> np_signals np \<and> task_notifications t = {} \<and> task_stores t = {}"
  by (cases np) (auto simp: timeout_spawn_defs ingress_init_h_def map_outcome_to_Returned_iff split: if_splits)

lemma nm_fold_tasks:
  assumes "nm_fold_h c nps subs = Returned (subs', ts)" and "t \<in> set ts"
  shows "task_signals t \<subseteq> (\<Union>np \<in> set nps. np_signals np) \<and> task_notifications t = {} \<and> task_stores t = {}"
  using assms
proof (induction nps arbitrary: c subs ts)
  case (Cons np nps)
  then obtain p ts1 ts2 where "np_init_h c np = Returned (p, ts1)"
    "nm_fold_h (Suc c) nps (fold (subscribe (np_channel p)) (np_topics p) subs) = Returned (subs', ts2)" "ts = ts1 @ ts2"
    by (auto simp: map_outcome_to_Returned_iff)
  with Cons.IH [of "Suc c" _ ts2] Cons.prems(2) np_tasks [of c np p ts1 t] show ?case by auto
qed simp

lemma nm_fold_has:
  assumes "nm_fold_h c nps subs = Returned (subs', ts)" and "np \<in> set nps"
  obtains c' p ts' where "np_init_h c' np = Returned (p, ts')" and "set ts' \<subseteq> set ts"
  using assms
proof (induction nps arbitrary: c subs ts thesis)
  case (Cons np' nps)
  from Cons.prems(2) obtain p ts1 ts2 where f: "np_init_h c np' = Returned (p, ts1)"
    "nm_fold_h (Suc c) nps (fold (subscribe (np_channel p)) (np_topics p) subs) = Returned (subs', ts2)" "ts = ts1 @ ts2"
    by (auto simp: map_outcome_to_Returned_iff)
  show ?case
  proof (cases "np = np'")
    case True
    with f show ?thesis by (intro Cons.prems(1) [of c p ts1]) simp_all
  next
    case False
    with Cons.prems(3) have "np \<in> set nps" by simp
    from Cons.IH [OF _ f(2) this] obtain c' q ts' where "np_init_h c' np = Returned (q, ts')" "set ts' \<subseteq> set ts2" by blast
    with f(3) show ?thesis by (intro Cons.prems(1) [of c' q ts']) auto
  qed
qed simp

text \<open>The timeout manager that the builder makes: its two tasks share one ledger.\<close>

lemma timeout_tasks:
  assumes "build_timeout_manager_h b A = (Returned b', A')" and "bh_timeout_topic b = Some t"
    and "nm_new_h c (bh_processors b') nq = Returned (m, ts)"
  shows "\<exists>chn d. Ledger_task chn (ledger_arcs A) \<in> set ts \<and> Tick_task d (ledger_arcs A) (bh_signals b) \<in> set ts"
proof -
  let ?tm = "\<lparr>th_tick_rate = (case bh_tick_rate b of Some d \<Rightarrow> d | None \<Rightarrow> default_tick_rate),
    th_ledger = ledger_arcs A, th_topic = t, th_signals = bh_signals b\<rparr>"
  have "Timeout_h ?tm \<in> set (bh_processors b')"
    using assms(1,2) by (auto simp: build_timeout_manager_h_def timeout_manager_new_h_def push_np_h_def cmd_simps)
  moreover obtain subs where "nm_fold_h c (bh_processors b') Map.empty = Returned (subs, ts)"
    using assms(3) by (auto simp: nm_new_h_def map_outcome_to_Returned_iff)
  ultimately obtain c' p ts' where "np_init_h c' (Timeout_h ?tm :: ('a, 'd, 'e) np_h) = Returned (p, ts')" "set ts' \<subseteq> set ts"
    by (meson nm_fold_has)
  then show ?thesis by (auto simp: timeout_spawn_defs Let_def split: if_splits)
qed

text \<open>
  C32. All parts of a system share one world: make a builder and configure it in any way, with
  processors that use the queue the builder shows them. Every task that build spawns, the
  context that the dispatch task makes for each machine it calls, and the context that build
  returns hold the two queues made with the builder and one store made by build, and no others.
  With a timeout topic, one task writes and one task ticks the same new ledger. The tables of
  build are those of the model that has no handles.
\<close>

theorem one_world:
  assumes "builder_default_h A0 = (Returned b0, A1) \<or> new_connected_h ic out_tx A0 = (Returned b0, A1)"
    and "builder_steps calls b0 = Returned b" and "\<forall>x \<in> set calls. call_own x"
    and "build_inner_h c b A2 = (Returned (ec, ts), A3)"
  shows "ec = \<lparr>ec_signals = signal_arcs A0, ec_notifications = notification_arcs A0, ec_store = store_arcs A2\<rparr> \<and>
    (\<forall>t \<in> set ts. task_signals t \<subseteq> {signal_arcs A0} \<and> task_notifications t \<subseteq> {notification_arcs A0} \<and>
       task_stores t \<subseteq> {store_arcs A2}) \<and>
    (\<exists>sys. build_inner c (builder_of b) = Returned sys \<and> dispatching ts = [(sys_machines sys, ec)] \<and>
       routing ts = (case sys_subscriptions sys of None \<Rightarrow> [] | Some subs \<Rightarrow> [subs])) \<and>
    (bh_timeout_topic b \<noteq> None \<longrightarrow> (\<exists>chn d. Ledger_task chn (ledger_arcs A2) \<in> set ts \<and>
       Tick_task d (ledger_arcs A2) (signal_arcs A0) \<in> set ts)) \<and>
    sm_context_clone (empty_context_init ec i) = \<lparr>sc_signals = signal_arcs A0, sc_notifications = notification_arcs A0,
      sc_store = store_arcs A2, sc_id = i\<rparr>"
proof -
  let ?q = "signal_arcs A0" and ?nq = "notification_arcs A0"
  have w: "wired ?q ?nq b" using wired_steps wired_new assms(1-3) by blast
  obtain y A where y: "build_timeout_manager_h b A2 = (y, A)" by fastforce
  from build_timeout_manager_of [OF this] obtain b' where b': "y = Returned b'" "bh_signals b' = bh_signals b"
    "bh_notifications b' = bh_notifications b" "store_arcs A = store_arcs A2" by blast
  have w': "wired ?q ?nq b'"
    using w y b'(1) by (auto simp: wired_def build_timeout_manager_h_def timeout_manager_new_h_def push_np_h_def cmd_simps
        split: option.splits)
  have nm: "task_signals t \<subseteq> {?q} \<and> task_notifications t \<subseteq> {?nq} \<and> task_stores t \<subseteq> {store_arcs A2}"
    if "nm_new_h c (bh_processors b') (bh_notifications b') = Returned (nm, us)" and "t \<in> set us \<union> {snd (nm_init_h nm)}"
    for nm us t
  proof -
    from that(1) obtain subs where f: "nm_fold_h c (bh_processors b') Map.empty = Returned (subs, us)"
      and nm: "nm = \<lparr>nh_processors = subs, nh_queue = bh_notifications b'\<rparr>"
      by (auto simp: nm_new_h_def map_outcome_to_Returned_iff)
    have "(\<Union>np \<in> set (bh_processors b'). np_signals np) \<subseteq> {?q}" using w' by (auto simp: wired_def)
    show ?thesis
    proof (cases "t \<in> set us")
      case True
      with nm_fold_tasks [OF f, of t] \<open>(\<Union>np \<in> set (bh_processors b'). np_signals np) \<subseteq> {?q}\<close> show ?thesis
        by (blast dest: subset_trans)
    next
      case False
      with that(2) w' show ?thesis by (simp add: nm nm_init_h_def wired_def)
    qed
  qed
  let ?ec = "\<lparr>ec_signals = ?q, ec_notifications = ?nq, ec_store = store_arcs A2\<rparr>"
  from assms(4) obtain us table where
    us: "(if bh_processors b' \<noteq> [] then map_outcome_to (\<lambda>(nm, ts). Returned (ts @ [snd (nm_init_h nm)]))
       (nm_new_h c (bh_processors b') (bh_notifications b')) else Returned []) = Returned us"
    and table: "manager_new (bh_machines b') = Returned table"
    and ec: "ec = ?ec" and ts: "ts = us @ [Dispatch_task ?q table ?ec]"
    using w' b'(4)
    by (auto simp: build_inner_h_def cmd_simps y b'(1) sm_manager_new_h_def state_store_h_def wired_def
        sm_manager_init_h_def ctx_builder_h_def split: outcome.splits)
  have "\<forall>t \<in> set us. task_signals t \<subseteq> {?q} \<and> task_notifications t \<subseteq> {?nq} \<and> task_stores t \<subseteq> {store_arcs A2}"
  proof (cases "bh_processors b' = []")
    case False
    with us obtain m us' where m: "nm_new_h c (bh_processors b') (bh_notifications b') = Returned (m, us')"
      and us': "us = us' @ [snd (nm_init_h m)]"
      by (auto simp: map_outcome_to_Returned_iff)
    then have "\<forall>t \<in> set us. t \<in> set us' \<union> {snd (nm_init_h m)}" by simp
    with nm [OF m] show ?thesis by blast
  qed (use us in simp)
  then have "\<forall>t \<in> set ts. task_signals t \<subseteq> {?q} \<and> task_notifications t \<subseteq> {?nq} \<and> task_stores t \<subseteq> {store_arcs A2}"
    by (simp add: ts)
  moreover have "\<exists>chn d. Ledger_task chn (ledger_arcs A2) \<in> set ts \<and> Tick_task d (ledger_arcs A2) ?q \<in> set ts"
    if some: "bh_timeout_topic b \<noteq> None"
  proof -
    from some obtain t where t: "bh_timeout_topic b = Some t" by blast
    then have "bh_processors b' \<noteq> []"
      using y b'(1) by (auto simp: build_timeout_manager_h_def timeout_manager_new_h_def push_np_h_def cmd_simps)
    with us obtain m us' where m: "nm_new_h c (bh_processors b') (bh_notifications b') = Returned (m, us')"
      and us': "us = us' @ [snd (nm_init_h m)]"
      by (auto simp: map_outcome_to_Returned_iff)
    from timeout_tasks [OF y [unfolded b'(1)] t m] w show ?thesis by (auto simp: us' ts wired_def)
  qed
  ultimately show ?thesis
    using build_inner_of [OF assms(4)] ec by (simp add: sm_context_clone_def empty_context_init_def)
qed

theorem one_world_witness:
  "\<exists>(b :: (nat, nat, nat, unit, unit) builder_h) ec ts A.
    builder_steps [With_timeout_manager (), With_ctx_np (\<lambda>h. User_h (Returned ()) [()])]
      \<lparr>bh_signals = 3, bh_notifications = 4, bh_machines = [], bh_processors = [], bh_timeout_topic = None,
        bh_tick_rate = None, bh_outbound_tx = None, bh_ingress_channel = None\<rparr> = Returned b \<and>
    build_inner_h 0 b \<lparr>signal_arcs = 9, notification_arcs = 9, store_arcs = 7, ledger_arcs = 8\<rparr> = (Returned (ec, ts), A) \<and>
    ec_signals ec = 3 \<and> ec_store ec = 7 \<and> Tick_task default_tick_rate 8 3 \<in> set ts"
proof -
  let ?b0 = "\<lparr>bh_signals = 3, bh_notifications = 4, bh_machines = [], bh_processors = [], bh_timeout_topic = None,
    bh_tick_rate = None, bh_outbound_tx = None, bh_ingress_channel = None\<rparr> :: (nat, nat, nat, unit, unit) builder_h"
  let ?calls = "[With_timeout_manager (), With_ctx_np (\<lambda>h. User_h (Returned ()) [()])] :: (nat, nat, nat, unit, unit) builder_call list"
  let ?A0 = "\<lparr>signal_arcs = 3, notification_arcs = 4, store_arcs = 0, ledger_arcs = 0\<rparr>"
  let ?A2 = "\<lparr>signal_arcs = 9, notification_arcs = 9, store_arcs = 7, ledger_arcs = 8\<rparr>"
  have b0: "builder_default_h ?A0 = (Returned ?b0, ?A0\<lparr>signal_arcs := 4, notification_arcs := 5\<rparr>)"
    by (simp add: builder_default_h_def signal_queue_h_def notification_queue_h_def cmd_simps)
  obtain b where b: "builder_steps ?calls ?b0 = Returned b" and b': "b = ?b0\<lparr>bh_timeout_topic := Some (), bh_processors := [User_h (Returned ()) [()]]\<rparr>"
    by (simp add: push_ctx_np_h_def)
  have "\<exists>ec ts A. build_inner_h 0 b ?A2 = (Returned (ec, ts), A) \<and> Tick_task default_tick_rate 8 3 \<in> set ts"
    by (simp add: b' build_inner_h_def build_timeout_manager_h_def timeout_manager_new_h_def push_np_h_def cmd_simps
        nm_new_h_def timeout_spawn_defs Let_def sm_manager_new_h_def state_store_h_def manager_new_eq default_tick_rate_def
        duration_nanos_from_millis)
  then obtain ec ts A where r: "build_inner_h 0 b ?A2 = (Returned (ec, ts), A)" "Tick_task default_tick_rate 8 3 \<in> set ts" by blast
  have "\<forall>x \<in> set ?calls. call_own x" by simp
  from conjunct1 [OF one_world [OF disjI1 [OF b0] b this r(1), of "\<lparr>kind = 0, uuid = 1\<rparr>"]]
  have "ec_signals ec = 3" "ec_store ec = 7" by simp_all
  with b r show ?thesis by blast
qed

end
