(* ===== verification/Rex_Sections.thy ===== *)
theory Rex_Sections
  imports Rex_Threads
begin

text \<open>
  Critical sections. A part of the shared state belongs to a lock: threads change it only while
  they hold the lock, and each of their holds makes of it what one whole operation does. Then,
  however the threads overlap, the part is what those operations made of it one after the other,
  in the order of the holds. What threads append to a log, with or without the lock, is an
  interleaving of what each appends.
\<close>

section \<open>The holds of one thread\<close>

text \<open>
  \<open>m\<close> is \<open>None\<close> outside the lock, and inside the part at the begin of the hold and the part now;
  \<open>d\<close> lists the operations the thread has done and \<open>own\<close> what it appended to the log; \<open>Q\<close> has to
  hold of both at the end. A hold that leaves the part alone need not be an operation. \<open>V\<close> holds
  of the states that come up.
\<close>

definition turned :: "('e \<Rightarrow> 'v \<Rightarrow> 'v \<Rightarrow> bool) \<Rightarrow> 'v \<Rightarrow> 'e list \<Rightarrow> 'v \<Rightarrow> bool" where
  "turned G v ds v' \<longleftrightarrow> (ds = [] \<and> v' = v) \<or> (\<exists>e. ds = [e] \<and> G e v v')"

lemma turnedI: "turned G v [] v" "G e v v' \<Longrightarrow> turned G v [e] v'"
  by (simp_all add: turned_def)

primrec sections ::
  "('w \<Rightarrow> bool) \<Rightarrow> 'l \<Rightarrow> ('w \<Rightarrow> 'v) \<Rightarrow> ('w \<Rightarrow> 'o list) \<Rightarrow> ('e \<Rightarrow> 'v \<Rightarrow> 'v \<Rightarrow> bool) \<Rightarrow>
   ('e list \<Rightarrow> 'o list \<Rightarrow> bool) \<Rightarrow> ('l, 'w, 'a) thread \<Rightarrow> ('v \<times> 'v) option \<Rightarrow> 'e list \<Rightarrow> 'o list \<Rightarrow> bool" where
  "sections V l get lg G Q (Halt x) m d own \<longleftrightarrow> m = None \<and> Q d own"
| "sections V l get lg G Q (Lock l' t) m d own \<longleftrightarrow>
     (if l' = l then m = None \<and> (\<forall>v. sections V l get lg G Q t (Some (v, v)) d own)
      else sections V l get lg G Q t m d own)"
| "sections V l get lg G Q (Unlock l' t) m d own \<longleftrightarrow>
     (if l' = l then \<exists>v v' ds. m = Some (v, v') \<and> turned G v ds v' \<and> sections V l get lg G Q t None (d @ ds) own
      else sections V l get lg G Q t m d own)"
| "sections V l get lg G Q (Access g k) m d own \<longleftrightarrow>
     (\<forall>w. V w \<longrightarrow> (\<forall>v v'. m = Some (v, v') \<longrightarrow> get w = v') \<longrightarrow>
       (\<exists>os. lg (g w) = lg w @ os \<and> (m = None \<longrightarrow> get (g w) = get w) \<and>
          sections V l get lg G Q (k w) (map_option (\<lambda>(v, v'). (v, get (g w))) m) d (own @ os)))"

lemma sections_access:
  assumes "sections V l get lg G Q (Access g k) m d own" and "V w" and "\<forall>v v'. m = Some (v, v') \<longrightarrow> get w = v'"
  obtains os where "lg (g w) = lg w @ os" and "m = None \<longrightarrow> get (g w) = get w"
    and "sections V l get lg G Q (k w) (map_option (\<lambda>(v, v'). (v, get (g w))) m) d (own @ os)"
  using assms by simp blast

lemma sections_accessI:
  assumes "\<And>w. V w \<Longrightarrow> \<forall>v v'. m = Some (v, v') \<longrightarrow> get w = v' \<Longrightarrow>
      \<exists>os. lg (g w) = lg w @ os \<and> (m = None \<longrightarrow> get (g w) = get w) \<and>
        sections V l get lg G Q (k w) (map_option (\<lambda>(v, v'). (v, get (g w))) m) d (own @ os)"
  shows "sections V l get lg G Q (Access g k) m d own"
  using assms by simp

lemma sections_mono:
  assumes "sections V l get lg G Q t m d own" and "\<And>d own. Q d own \<Longrightarrow> Q' d own"
  shows "sections V l get lg G Q' t m d own"
  using assms(1)
proof (induction t arbitrary: m d own)
  case (Unlock l' t)
  then show ?case by (simp split: if_splits) blast
next
  case (Access g k)
  show ?case
  proof (rule sections_accessI)
    fix w
    assume "V w" and "\<forall>v v'. m = Some (v, v') \<longrightarrow> get w = v'"
    then show "\<exists>os. lg (g w) = lg w @ os \<and> (m = None \<longrightarrow> get (g w) = get w) \<and>
        sections V l get lg G Q' (k w) (map_option (\<lambda>(v, v'). (v, get (g w))) m) d (own @ os)"
      by (rule sections_access [OF Access.prems]) (use Access.IH in blast)
  qed
qed (auto simp: assms(2) split: if_splits)

lemma sections_andthen:
  assumes "sections V l get lg G (\<lambda>d own. \<forall>x. sections V l get lg G Q (f x) None d own) t m d own"
  shows "sections V l get lg G Q (andthen t f) m d own"
  using assms
proof (induction t arbitrary: m d own)
  case (Unlock l' t)
  then show ?case by (simp add: andthen.simps split: if_splits) blast
next
  case (Access g k)
  show ?case
    unfolding andthen.simps
  proof (rule sections_accessI)
    fix w
    assume "V w" and "\<forall>v v'. m = Some (v, v') \<longrightarrow> get w = v'"
    then show "\<exists>os. lg (g w) = lg w @ os \<and> (m = None \<longrightarrow> get (g w) = get w) \<and>
        sections V l get lg G Q (andthen (k w) f) (map_option (\<lambda>(v, v'). (v, get (g w))) m) d (own @ os)"
      by (rule sections_access [OF Access.prems]) (use Access.IH in blast)
  qed
qed (auto simp: andthen.simps split: if_splits)

lemma sections_bindt:
  assumes "sections V l get lg G (\<lambda>d own. Q d own \<and> (\<forall>x. sections V l get lg G Q (f x) None d own)) t m d own"
  shows "sections V l get lg G Q (bindt t f) m d own"
  unfolding bindt_def
  by (rule sections_andthen, rule sections_mono [OF assms]) (auto split: outcome.split)

text \<open>A thread that leaves the part alone, whatever it appends.\<close>

lemma sections_bystander:
  assumes "guarantees (\<lambda>w w'. get w' = get w \<and> (\<exists>os. lg w' = lg w @ os)) t"
    and "tidy rank [] t H" and "distinct H" and "l \<in> set H \<Longrightarrow> \<exists>v. m = Some (v, v)" and "l \<notin> set H \<Longrightarrow> m = None"
  shows "sections V l get lg G (\<lambda>d' _. d' = d) t m d own"
  using assms
proof (induction t arbitrary: H m own)
  case (Lock l' t)
  then have "distinct (l' # H)" "tidy rank [] t (l' # H)" by auto
  with Lock.IH [of "l' # H"] Lock.prems show ?case by auto
next
  case (Unlock l' t)
  from Unlock.prems(2,3) obtain H' where H': "H = l' # H'" "tidy rank [] t H'" "distinct H'" "l' \<notin> set H'" by auto
  show ?case
  proof (cases "l' = l")
    case True
    with Unlock.prems(4) H'(1) obtain v where "m = Some (v, v)" by auto
    with True H' Unlock.prems(1) Unlock.IH [of H' None] show ?thesis by (auto intro!: exI [of _ "[]"] turnedI)
  next
    case False
    with H' Unlock.prems Unlock.IH [of H' m] show ?thesis by auto
  qed
next
  case (Access g k H m own)
  show ?case
  proof (rule sections_accessI)
    fix w
    assume w: "V w" "\<forall>v v'. m = Some (v, v') \<longrightarrow> get w = v'"
    from Access.prems(1) obtain os where os: "lg (g w) = lg w @ os" "get (g w) = get w" by auto
    have "map_option (\<lambda>(v, v'). (v, get (g w))) m = m"
      using w(2) os(2) Access.prems(4,5) by (cases m) auto
    moreover have "sections V l get lg G (\<lambda>d' _. d' = d) (k w) m d (own @ os)"
      using Access.prems by (intro Access.IH [of _ H]) auto
    ultimately show "\<exists>os. lg (g w) = lg w @ os \<and> (m = None \<longrightarrow> get (g w) = get w) \<and>
        sections V l get lg G (\<lambda>d' _. d' = d) (k w) (map_option (\<lambda>(v, v'). (v, get (g w))) m) d (own @ os)"
      using os by auto
  qed
qed auto

text \<open>Without the log.\<close>

lemma sections_no_log:
  assumes "sections V l get lg G Q t m d own" and "\<And>d own. Q d own \<Longrightarrow> Q' d"
  shows "sections V l get (\<lambda>_. []) G (\<lambda>d _. Q' d) t m d []"
  using assms(1)
proof (induction t arbitrary: m d own)
  case (Unlock l' t)
  then show ?case by (simp split: if_splits) blast
next
  case (Access g k)
  show ?case
  proof (rule sections_accessI, goal_cases)
    case (1 w)
    then show ?case
      by (rule sections_access [OF Access.prems]) (drule Access.IH [OF rangeI], simp)
  qed
qed (auto simp: assms(2) split: if_splits)

section \<open>Inside a hold\<close>

text \<open>
  \<open>inside V l get lg Z t v own\<close>: from the part \<open>v\<close>, and with \<open>own\<close> appended so far, \<open>t\<close> ends with
  an outcome, a part and a log of which \<open>Z\<close> holds.
\<close>

primrec inside ::
  "('w \<Rightarrow> bool) \<Rightarrow> 'l \<Rightarrow> ('w \<Rightarrow> 'v) \<Rightarrow> ('w \<Rightarrow> 'o list) \<Rightarrow> ('a outcome \<Rightarrow> 'v \<Rightarrow> 'o list \<Rightarrow> bool) \<Rightarrow>
   ('l, 'w, 'a) thread \<Rightarrow> 'v \<Rightarrow> 'o list \<Rightarrow> bool" where
  "inside V l get lg Z (Halt x) v own \<longleftrightarrow> Z x v own"
| "inside V l get lg Z (Lock l' t) v own \<longleftrightarrow> l' \<noteq> l \<and> inside V l get lg Z t v own"
| "inside V l get lg Z (Unlock l' t) v own \<longleftrightarrow> l' \<noteq> l \<and> inside V l get lg Z t v own"
| "inside V l get lg Z (Access g k) v own \<longleftrightarrow>
     (\<forall>w. V w \<longrightarrow> get w = v \<longrightarrow> (\<exists>os. lg (g w) = lg w @ os \<and> inside V l get lg Z (k w) (get (g w)) (own @ os)))"

lemma inside_sections:
  assumes "inside V l get lg Z t v own" and "\<And>x v' own'. Z x v' own' \<Longrightarrow> sections V l get lg G Q (f x) (Some (v0, v')) d own'"
  shows "sections V l get lg G Q (andthen t f) (Some (v0, v)) d own"
  using assms(1)
proof (induction t arbitrary: v own)
  case (Access g k)
  then show ?case by (simp add: andthen.simps) blast
qed (simp_all add: andthen.simps assms(2))

lemma inside_mono:
  assumes "inside V l get lg Z t v own" and "\<And>x v own. Z x v own \<Longrightarrow> Z' x v own"
  shows "inside V l get lg Z' t v own"
  using assms(1)
proof (induction t arbitrary: v own)
  case (Access g k)
  then show ?case by simp blast
qed (simp_all add: assms(2))

lemma inside_andthen:
  assumes "inside V l get lg (\<lambda>x v own. inside V l get lg Z (f x) v own) t v own"
  shows "inside V l get lg Z (andthen t f) v own"
  using assms
proof (induction t arbitrary: v own)
  case (Access g k)
  then show ?case by (simp add: andthen.simps) blast
qed (simp_all add: andthen.simps)

lemma inside_bindt:
  assumes "inside V l get lg (\<lambda>x v own. case x of Returned y \<Rightarrow> inside V l get lg Z (f y) v own | Panicked p \<Rightarrow> Z (Panicked p) v own) t v own"
  shows "inside V l get lg Z (bindt t f) v own"
  unfolding bindt_def
  by (rule inside_andthen, rule inside_mono [OF assms]) (auto split: outcome.splits)

lemma inside_with_lock:
  assumes "l' \<noteq> l" and "inside V l get lg Z t v own"
  shows "inside V l get lg Z (with_lock l' t) v own"
  unfolding with_lock_def
  by (simp add: assms(1)) (rule inside_andthen, rule inside_mono [OF assms(2)], simp add: assms(1))

lemma inside_atomic:
  assumes "\<And>w. V w \<Longrightarrow> get w = v \<Longrightarrow> \<exists>os. lg (snd (m w)) = lg w @ os \<and> Z (fst (m w)) (get (snd (m w))) (own @ os)"
  shows "inside V l get lg Z (atomic m) v own"
  using assms by (simp add: atomic_def)

text \<open>A hold is an operation.\<close>

lemma sections_with_lock:
  assumes "\<And>v. inside V l get lg (\<lambda>x v' own'. \<exists>e. G e v v' \<and> sections V l get lg G Q (f x) None (d @ [e]) own') t v own"
  shows "sections V l get lg G Q (andthen (with_lock l t) f) None d own"
  unfolding with_lock_def
  by (simp add: andthen.simps andthen_assoc)
    (rule allI, rule inside_sections [OF assms], auto simp: andthen.simps intro: turnedI)

section \<open>All threads together\<close>

inductive history :: "('e \<Rightarrow> 'v \<Rightarrow> 'v \<Rightarrow> bool) \<Rightarrow> 'v \<Rightarrow> 'e list \<Rightarrow> 'v \<Rightarrow> bool"
  for G :: "'e \<Rightarrow> 'v \<Rightarrow> 'v \<Rightarrow> bool" and v0 :: 'v where
  history_nil: "history G v0 [] v0"
| history_snoc: "history G v0 (es @ [e]) v'" if "history G v0 es v" and "G e v v'"

abbreviation by_thread :: "nat \<Rightarrow> (nat \<times> 'x) list \<Rightarrow> 'x list" where
  "by_thread i xs \<equiv> map snd (filter (\<lambda>x. fst x = i) xs)"

lemma by_thread_pairs: "by_thread j (map (Pair i) xs) = (if j = i then xs else [])"
  by (induction xs) auto

definition coherent ::
  "('w \<Rightarrow> bool) \<Rightarrow> 'l \<Rightarrow> ('w \<Rightarrow> 'v) \<Rightarrow> ('w \<Rightarrow> 'o list) \<Rightarrow> ('e \<Rightarrow> 'v \<Rightarrow> 'v \<Rightarrow> bool) \<Rightarrow>
   (nat \<Rightarrow> 'e list \<Rightarrow> 'o list \<Rightarrow> bool) \<Rightarrow> 'w \<Rightarrow> ('l, 'w, 'a) pool \<Rightarrow> (nat \<times> 'e) list \<Rightarrow> (nat \<times> 'o) list \<Rightarrow>
   (nat \<Rightarrow> ('v \<times> 'v) option) \<Rightarrow> 'v \<Rightarrow> bool" where
  "coherent V l get lg G Q w0 p es os M v \<longleftrightarrow>
     (\<forall>i < length (threads p). sections V l get lg G (Q i) (threads p ! i) (M i) (by_thread i es) (by_thread i os)) \<and>
     (\<forall>i < length (threads p). M i \<noteq> None \<longleftrightarrow> owner p l = Some i) \<and>
     (\<forall>i. owner p l = Some i \<longrightarrow> i < length (threads p)) \<and>
     (\<forall>x \<in> set es. fst x < length (threads p)) \<and> (\<forall>x \<in> set os. fst x < length (threads p)) \<and>
     history G (get w0) (map snd es) v \<and> lg (shared p) = lg w0 @ map snd os \<and>
     (owner p l = None \<longrightarrow> get (shared p) = v) \<and> (\<forall>i. owner p l = Some i \<longrightarrow> M i = Some (v, get (shared p)))"

lemma coherentD:
  assumes "coherent V l get lg G Q w0 p es os M v" and "i < length (threads p)"
  shows "sections V l get lg G (Q i) (threads p ! i) (M i) (by_thread i es) (by_thread i os)"
    and "M i \<noteq> None \<longleftrightarrow> owner p l = Some i"
  using assms by (simp_all add: coherent_def)

lemma coherent_step:
  assumes "coherent V l get lg G Q w0 p es os M v" and "thread_step p i p'" and "V (shared p)"
  shows "\<exists>es' os' M' v'. coherent V l get lg G Q w0 p' es' os' M' v'"
  using assms(2)
proof cases
  case (takes l' t)
  show ?thesis
  proof (cases "l' = l")
    case True
    then have none: "M j = None" if "j < length (threads p)" for j
      using coherentD(2) [OF assms(1) that] takes(4) by (cases "M j") auto
    have v: "get (shared p) = v" using assms(1) takes True by (simp add: coherent_def)
    have "sections V l get lg G (Q i) t (Some (v, v)) (by_thread i es) (by_thread i os)"
      using coherentD(1) [OF assms(1) takes(2)] takes(3) True by simp
    with assms(1) takes True none v show ?thesis
      by (intro exI [of _ es] exI [of _ os] exI [of _ "M(i := Some (v, v))"] exI [of _ v])
        (auto simp: coherent_def nth_list_update)
  next
    case False
    then have "sections V l get lg G (Q i) t (M i) (by_thread i es) (by_thread i os)"
      using coherentD(1) [OF assms(1) takes(2)] takes(3) by simp
    with False assms(1) takes show ?thesis
      by (intro exI [of _ es] exI [of _ os] exI [of _ M] exI [of _ v])
        (auto simp: coherent_def nth_list_update)
  qed
next
  case (gives l' t)
  show ?thesis
  proof (cases "l' = l")
    case True
    have S: "sections V l get lg G (Q i) (Unlock l t) (M i) (by_thread i es) (by_thread i os)"
      using coherentD(1) [OF assms(1) gives(2)] gives(3) True by simp
    then obtain v0 v' where "M i = Some (v0, v')" by auto
    with coherentD(2) [OF assms(1) gives(2)] have o: "owner p l = Some i" by simp
    with assms(1) have Mi: "M i = Some (v, get (shared p))" by (simp add: coherent_def)
    have others: "M j = None" if "j < length (threads p)" "j \<noteq> i" for j
      using coherentD(2) [OF assms(1) that(1)] that(2) o by (cases "M j") auto
    from S Mi obtain ds where ds: "turned G v ds (get (shared p))"
      "sections V l get lg G (Q i) t None (by_thread i es @ ds) (by_thread i os)" by auto
    have "history G (get w0) (map snd (es @ map (Pair i) ds)) (get (shared p))"
      using ds(1) assms(1) by (auto simp: turned_def coherent_def intro: history.intros)
    with assms(1) gives True others ds show ?thesis
      by (intro exI [of _ "es @ map (Pair i) ds"] exI [of _ os] exI [of _ "M(i := None)"] exI [of _ "get (shared p)"])
        (auto simp: coherent_def nth_list_update by_thread_pairs)
  next
    case False
    then have "sections V l get lg G (Q i) t (M i) (by_thread i es) (by_thread i os)"
      using coherentD(1) [OF assms(1) gives(2)] gives(3) by simp
    with False assms(1) gives show ?thesis
      by (intro exI [of _ es] exI [of _ os] exI [of _ M] exI [of _ v])
        (auto simp: coherent_def nth_list_update)
  qed
next
  case (accesses g k)
  let ?w = "shared p"
  have "sections V l get lg G (Q i) (Access g k) (M i) (by_thread i es) (by_thread i os)"
    using assms(1) accesses by (force simp: coherent_def)
  moreover have "\<forall>a b. M i = Some (a, b) \<longrightarrow> get ?w = b"
    using assms(1) accesses(2) by (auto simp: coherent_def)
  ultimately obtain us where us: "lg (g ?w) = lg ?w @ us" "M i = None \<longrightarrow> get (g ?w) = get ?w"
    "sections V l get lg G (Q i) (k ?w) (map_option (\<lambda>(v, v'). (v, get (g ?w))) (M i)) (by_thread i es) (by_thread i os @ us)"
    using assms(3) by auto
  let ?M = "M(i := map_option (\<lambda>(v, v'). (v, get (g ?w))) (M i))"
  have other: "owner p l \<noteq> Some i \<Longrightarrow> get (g ?w) = get ?w"
    using us(2) coherentD(2) [OF assms(1) accesses(2)] by (cases "M i") simp_all
  have "owner p l = None \<longrightarrow> get (g ?w) = v" "\<forall>j. owner p l = Some j \<longrightarrow> ?M j = Some (v, get (g ?w))"
    using assms(1) other by (simp_all add: coherent_def)
  moreover have "\<forall>j < length (threads p). ?M j \<noteq> None \<longleftrightarrow> owner p l = Some j"
    using coherentD(2) [OF assms(1)] accesses(2) by (simp add: fun_upd_def)
  moreover have "\<forall>j < length (threads p). sections V l get lg G (Q j) ((threads p)[i := k ?w] ! j) (?M j) (by_thread j es)
      (by_thread j (os @ map (Pair i) us))"
    using coherentD(1) [OF assms(1)] us(3) by (simp add: nth_list_update by_thread_pairs)
  moreover have "\<forall>j. owner p l = Some j \<longrightarrow> j < length (threads p)" "\<forall>x \<in> set es. fst x < length (threads p)"
    "\<forall>x \<in> set (os @ map (Pair i) us). fst x < length (threads p)" "history G (get w0) (map snd es) v"
    "lg (g ?w) = lg w0 @ map snd (os @ map (Pair i) us)"
    using assms(1) accesses(2) us(1) by (auto simp: coherent_def comp_def)
  ultimately have "coherent V l get lg G Q w0 p' es (os @ map (Pair i) us) ?M v"
    unfolding accesses(1) coherent_def by (simp del: fun_upd_apply)
  then show ?thesis by blast
qed

text \<open>
  The interface: a lock, the part that belongs to it, a log, the operations, and threads that may
  start at any time, change the part only as a whole, and do the operations that \<open>S\<close> allows.
\<close>

locale critical_sections =
  fixes l :: 'l
    and get :: "'w \<Rightarrow> 'v"
    and lg :: "'w \<Rightarrow> 'o list"
    and G :: "'e \<Rightarrow> 'v \<Rightarrow> 'v \<Rightarrow> bool"
    and P :: "('l, 'w, 'a) thread \<Rightarrow> bool"
    and S :: "'e list \<Rightarrow> bool"
  assumes in_sections: "P t \<Longrightarrow> sections V l get lg G (\<lambda>d _. S d) t None [] []"
begin

lemma coherent_reaches:
  assumes "reaches P (pool_new ts w0) p"
    and "\<And>i. i < length ts \<Longrightarrow> sections V l get lg G (Q i) (ts ! i) None [] []"
    and "\<And>p. reaches P (pool_new ts w0) p \<Longrightarrow> V (shared p)"
  shows "\<exists>es os M v. coherent V l get lg G (\<lambda>i. if i < length ts then Q i else (\<lambda>d _. S d)) w0 p es os M v \<and>
    length ts \<le> length (threads p)"
  using assms(1)
proof (induction rule: reaches.induct)
  case reaches_refl
  show ?case
    using assms(2)
    by (intro exI [of _ "[]"] exI [of _ "\<lambda>_. None"] exI [of _ "get w0"])
      (simp add: coherent_def pool_new_def history_nil)
next
  case (reaches_step s' i s'')
  then obtain es os M v where C: "coherent V l get lg G (\<lambda>i. if i < length ts then Q i else (\<lambda>d _. S d)) w0 s' es os M v"
    and len: "length ts \<le> length (threads s')" by blast
  have "length (threads s'') = length (threads s')"
    using reaches_step.hyps(2) by cases simp_all
  moreover have "V (shared s')" by (rule assms(3)) (rule reaches_step.hyps(1))
  ultimately show ?case using coherent_step [OF C reaches_step.hyps(2)] len by simp
next
  case (reaches_spawn s' t)
  then obtain es os M v where C: "coherent V l get lg G (\<lambda>i. if i < length ts then Q i else (\<lambda>d _. S d)) w0 s' es os M v"
    and len: "length ts \<le> length (threads s')" by blast
  let ?n = "length (threads s')"
  have "filter (\<lambda>x. fst x = ?n) es = []" "filter (\<lambda>x. fst x = ?n) os = []"
    using C by (auto simp: coherent_def filter_empty_conv)
  moreover have "sections V l get lg G (\<lambda>d _. S d) t None [] []" by (rule in_sections [OF reaches_spawn.hyps(2)])
  ultimately have "coherent V l get lg G (\<lambda>i. if i < length ts then Q i else (\<lambda>d _. S d)) w0
      (s'\<lparr>threads := threads s' @ [t]\<rparr>) es os (M(?n := None)) v"
    using C len by (auto simp: coherent_def nth_append less_Suc_eq)
  with len show ?case by (intro exI conjI) (assumption, simp)
qed

text \<open>Whenever the lock is free the part is what whole operations made of it.\<close>

lemma free_history:
  assumes "reaches P (pool_new ts w0) p"
    and "\<And>i. i < length ts \<Longrightarrow> sections (\<lambda>w. \<exists>p. reaches P (pool_new ts w0) p \<and> shared p = w) l get lg G (Q i) (ts ! i) None [] []"
  shows "\<exists>es os v. history G (get w0) (map snd es) v \<and> (owner p l = None \<longrightarrow> get (shared p) = v) \<and>
    lg (shared p) = lg w0 @ map snd os \<and>
    (\<forall>x \<in> set es. fst x < length (threads p)) \<and> length ts \<le> length (threads p) \<and>
    (\<forall>i < length ts. halted (threads p ! i) \<longrightarrow> Q i (by_thread i es) (by_thread i os)) \<and>
    (\<forall>i. length ts \<le> i \<longrightarrow> i < length (threads p) \<longrightarrow> halted (threads p ! i) \<longrightarrow> S (by_thread i es)) \<and>
    (all_halted p \<longrightarrow> owner p l = None)"
proof -
  let ?V = "\<lambda>w. \<exists>p. reaches P (pool_new ts w0) p \<and> shared p = w"
  from coherent_reaches [OF assms(1), of ?V Q] assms(2) obtain es os M v where
    C: "coherent ?V l get lg G (\<lambda>i. if i < length ts then Q i else (\<lambda>d _. S d)) w0 p es os M v"
    and len: "length ts \<le> length (threads p)" by blast
  have ends: "(if i < length ts then Q i else (\<lambda>d _. S d)) (by_thread i es) (by_thread i os)"
    if "i < length (threads p)" "halted (threads p ! i)" for i
  proof -
    from that(2) obtain x where "threads p ! i = Halt x" by (cases "threads p ! i") auto
    with coherentD(1) [OF C that(1)] show ?thesis by simp
  qed
  have "Q i (by_thread i es) (by_thread i os)" if "i < length ts" "halted (threads p ! i)" for i
    using ends [of i] that len by simp
  moreover have "S (by_thread i es)" if "length ts \<le> i" "i < length (threads p)" "halted (threads p ! i)" for i
    using ends [of i] that by simp
  moreover have "owner p l = None" if "all_halted p"
  proof (rule ccontr)
    assume "owner p l \<noteq> None"
    then obtain i where i: "owner p l = Some i" by blast
    with C have n: "i < length (threads p)" by (simp add: coherent_def)
    from coherentD(2) [OF C n] i have "M i \<noteq> None" by simp
    from that n have "halted (threads p ! i)" by (simp add: all_halted_def)
    then obtain x where x: "threads p ! i = Halt x" by (cases "threads p ! i") auto
    from coherentD(1) [OF C n] \<open>M i \<noteq> None\<close> show False by (simp add: x)
  qed
  moreover have "history G (get w0) (map snd es) v" "owner p l = None \<longrightarrow> get (shared p) = v"
    "lg (shared p) = lg w0 @ map snd os" "\<forall>x \<in> set es. fst x < length (threads p)" using C by (simp_all add: coherent_def)
  moreover note len
  ultimately show ?thesis by (intro exI conjI) (assumption | blast)+
qed

end

end
