(* ===== verification/Rex_Ledger_Turns.thy ===== *)
theory Rex_Ledger_Turns
  imports Rex_Sections Rex_Overlap
begin

text \<open>
  The ledger of a timeout manager belongs to two tasks, one that handles requests and one that
  ticks. Here their turns overlap with each other and with all other threads: each hold of the
  ledger's lock is one whole operation, so the ledger is what those operations make of it in the
  order of the holds, and each tick signals what it would signal there.
\<close>

section \<open>Whole operations\<close>

text \<open>An event of the ledger with the signals that it puts in front.\<close>

definition ledger_op ::
  "('k, 's, 'i, 'r, 'm, 't, 'z) rex_scheme \<Rightarrow> ('k, 'r) timer_event \<times> ('k, 'i) signal list \<Rightarrow>
   ('k, 'r) ledger \<Rightarrow> ('k, 'r) ledger \<Rightarrow> bool" where
  "ledger_op R e L L' \<longleftrightarrow> timer_event_ok (fst e) \<and> L' = fst (timer_step R (fst e) (L, deque_new)) \<and>
     snd e = front_values (snd (timer_step R (fst e) (L, deque_new)))"

lemma timer_step_queue:
  "fst (timer_step R e (L, q)) = fst (timer_step R e (L, deque_new))"
  "front_values (snd (timer_step R e (L, q))) = front_values q @ front_values (snd (timer_step R e (L, deque_new)))"
  by (cases e; simp add: tick_ledger tick_queue)+

text \<open>A run of operations: the ledger, and the signals each puts in front.\<close>

lemma history_run:
  assumes "history (ledger_op R) L es L'"
  shows "(\<forall>e \<in> set es. timer_event_ok (fst e)) \<and> fst (run_ops (timer_step R) (map fst es) (L, q)) = L' \<and>
    front_values (snd (run_ops (timer_step R) (map fst es) (L, q))) = front_values q @ concat (map snd es)"
  using assms
proof induction
  case (history_snoc es L1 e L2)
  obtain L3 q3 where r: "run_ops (timer_step R) (map fst es) (L, q) = (L3, q3)" by fastforce
  with history_snoc timer_step_queue [of R "fst e" L1 q3] show ?case
    by (auto simp: ledger_op_def run_ops_append)
qed simp

section \<open>The turns\<close>

text \<open>A request that a task took from its channel, or a tick with the order of its hash sets.\<close>

datatype ('k, 'r) ledger_turn =
    Request_taken "('k, 'r operation) unary_request"
  | Tick_of "'k state_id hash_order"

primrec ledger_turn_t ::
  "('k, 's, 'i, 'r, 'm, 't, 'p, 'q) ingress \<Rightarrow> channel \<Rightarrow> ('k, 'r) ledger_turn \<Rightarrow>
   ('k, 's, 'i, 'r, 'm, 'u, 'p, 'q, unit) sys_thread" where
  "ledger_turn_t I c (Request_taken req) = operate_t c req"
| "ledger_turn_t I c (Tick_of it) = tick_t I c it"

primrec ledger_turn_ok :: "('k, 'r) ledger_turn \<Rightarrow> bool" where
  "ledger_turn_ok (Request_taken req) = True"
| "ledger_turn_ok (Tick_of it) = hash_order_ok it"

text \<open>What a turn is as an event, when the clock can show the instants \<open>T\<close>.\<close>

primrec turn_event :: "instant set \<Rightarrow> ('k, 'r) ledger_turn \<Rightarrow> ('k, 'r) timer_event \<Rightarrow> bool" where
  "turn_event T (Request_taken req) e \<longleftrightarrow> e = Operate (req_id req) (req_op req)"
| "turn_event T (Tick_of it) e \<longleftrightarrow> (\<exists>t \<in> T. e = Tick it t)"

text \<open>A task does its turns one after the other.\<close>

definition ledger_task_t ::
  "('k, 's, 'i, 'r, 'm, 't, 'p, 'q) ingress \<Rightarrow> channel \<Rightarrow> ('k, 'r) ledger_turn list \<Rightarrow>
   ('k, 's, 'i, 'r, 'm, 'u, 'p, 'q, unit) sys_thread" where
  "ledger_task_t I c us = each_t (ledger_turn_t I c) us"

abbreviation sys_front :: "('k, 's, 'i, 'r, 'm, 'u, 'p, 'q) system \<Rightarrow> ('k, 'i) signal list" where
  "sys_front s \<equiv> front_values (signal_queue (sys_world s))"

abbreviation clock_in :: "(('k, 's, 'i, 'r, 'm, 'u, 'p, 'q) system \<Rightarrow> bool) \<Rightarrow> instant set" where
  "clock_in V \<equiv> {now (sys_world s) | s. V s}"

section \<open>One turn\<close>

lemma on_world_push:
  "on_world (push_signal_t p) = Lock Signal_mutex (Access (sys_world_update (push_world_signal p))
     (\<lambda>_. Unlock Signal_mutex (returns ())))"
  by (simp add: on_world_def push_signal_t_def with_lock_def atomic_def andthen.simps cmd_simps)

lemma push_input_inside:
  assumes "Z (Returned ()) v (own @ (case x of None \<Rightarrow> [] | Some y \<Rightarrow> [\<lparr>sig_id = i, sig_input = y\<rparr>]))"
  shows "inside V (Ledger_mutex c) (\<lambda>s. ledgers s c) sys_front Z (push_input_t i x) v own"
  using assms by (cases x) (simp_all add: push_input_t_def on_world_push)

lemma push_input_sections:
  assumes "sections V (Ledger_mutex c) (\<lambda>s. ledgers s c) sys_front G Q (f (Returned ())) None d
    (own @ (case x of None \<Rightarrow> [] | Some y \<Rightarrow> [\<lparr>sig_id = i, sig_input = y\<rparr>]))"
  shows "sections V (Ledger_mutex c) (\<lambda>s. ledgers s c) sys_front G Q (andthen (push_input_t i x) f) None d own"
  using assms by (cases x) (simp_all add: push_input_t_def on_world_push andthen.simps)

lemma release_timers_inside:
  assumes "Z (Returned ()) (fst (release_timers I t is (v, deque_new))) (own @ timeout_signals I t is)"
  shows "inside V (Ledger_mutex c) (\<lambda>s. ledgers s c) sys_front Z (each_t (release_timer_t I c t) is) v own"
  using assms
proof (induction "is" arbitrary: v own)
  case Nil
  then show ?case by (simp add: timeout_signals_def List.map_filter_simps)
next
  case (Cons i "is")
  let ?v = "v\<lparr>timer_ids := (timer_ids v)(i := None)\<rparr>"
  let ?os = "case timeout_input I (kind i) t of None \<Rightarrow> [] | Some y \<Rightarrow> [\<lparr>sig_id = i, sig_input = y\<rparr>]"
  have "inside V (Ledger_mutex c) (\<lambda>s. ledgers s c) sys_front Z (each_t (release_timer_t I c t) is) ?v (own @ ?os)"
    using Cons.prems release_timers_ledger [of I t "is" ?v]
    by (intro Cons.IH) (auto simp: timeout_signals_def List.map_filter_simps split: option.splits)
  then show ?case
    by (auto simp: release_timer_t_def [of I c t i] seqt_def on_ledger_def cmd_simps
        intro!: inside_bindt inside_atomic push_input_inside)
qed

lemma release_items_sections:
  assumes "sections V (Ledger_mutex c) (\<lambda>s. ledgers s c) sys_front G Q (f (Returned ())) None d (own @ item_signals I xs)"
  shows "sections V (Ledger_mutex c) (\<lambda>s. ledgers s c) sys_front G Q (andthen (each_t (release_item_t I) xs) f) None d own"
  using assms
proof (induction xs arbitrary: own)
  case Nil
  then show ?case by (simp add: item_signals_def List.map_filter_simps andthen.simps)
next
  case (Cons p xs)
  obtain i x where p: "p = (i, x)" by (cases p)
  let ?os = "case return_item I (kind i) x of None \<Rightarrow> [] | Some y \<Rightarrow> [\<lparr>sig_id = i, sig_input = y\<rparr>]"
  have "sections V (Ledger_mutex c) (\<lambda>s. ledgers s c) sys_front G Q (andthen (each_t (release_item_t I) xs) f) None d (own @ ?os)"
    using Cons.prems by (intro Cons.IH) (auto simp: p item_signals_def List.map_filter_simps split: option.splits)
  then show ?case
    by (simp add: p release_item_t_def [of I "(i, x)"] seqt_def bindt_def andthen_assoc push_input_sections)
qed

lemma operate_sections:
  assumes "sections V (Ledger_mutex c) (\<lambda>s. ledgers s c) sys_front (ledger_op I) Q (f (Returned ())) None
    (d @ [(Operate (req_id req) (req_op req), [])]) own"
  shows "sections V (Ledger_mutex c) (\<lambda>s. ledgers s c) sys_front (ledger_op I) Q (andthen (operate_t c req) f) None d own"
  unfolding operate_t_def
  by (intro sections_with_lock inside_atomic)
    (use assms in \<open>auto simp: on_ledger_def cmd_simps ledger_op_def
      intro!: exI [of _ "Operate (req_id req) (req_op req)"]\<close>)

lemma andthen_bindt:
  "andthen (bindt t F) f = andthen t (\<lambda>x. andthen (case x of Returned v \<Rightarrow> F v | Panicked p \<Rightarrow> Halt (Panicked p)) f)"
  by (simp add: bindt_def andthen_assoc)

lemma andthen_read: "andthen (atomic (gets h)) f = Access (\<lambda>w. w) (\<lambda>w. f (Returned (h w)))"
  by (simp add: atomic_def andthen.simps cmd_simps)

lemma tick_inside:
  assumes "Z (Returned (due_items t v)) (fst (tick I it t (v, deque_new))) (own @ timeout_signals I t (due_ids it t v))"
  shows "inside V (Ledger_mutex c) (\<lambda>s. ledgers s c) sys_front Z (bindt (atomic (take_timers c it t))
     (\<lambda>is. seqt (each_t (release_timer_t I c t) is) (atomic (take_retained c t)))) v own"
proof -
  let ?v = "v\<lparr>timers := snd (bt_split_off t (timers v))\<rparr>"
  let ?v1 = "fst (release_timers I t (due_ids it t v) (?v, deque_new))"
  have last: "due_items t ?v1 = due_items t v"
    "fst (tick I it t (v, deque_new)) = ?v1\<lparr>retainer := snd (bt_split_off t (retainer ?v1))\<rparr>"
    by (simp_all add: release_timers_ledger tick_ledger due_items_def)
  have "inside V (Ledger_mutex c) (\<lambda>s. ledgers s c) sys_front Z
      (seqt (each_t (release_timer_t I c t) (due_ids it t v)) (atomic (take_retained c t))) ?v own"
    unfolding seqt_def
    by (intro inside_bindt release_timers_inside)
      (use assms last in \<open>auto simp: take_retained_def on_ledger_def cmd_simps intro!: inside_atomic\<close>)
  then show ?thesis
    by (auto simp: take_timers_def on_ledger_def cmd_simps intro!: inside_bindt inside_atomic)
qed

lemma tick_sections:
  assumes "hash_order_ok it"
    and "\<And>t out. t \<in> clock_in V \<Longrightarrow> sections V (Ledger_mutex c) (\<lambda>s. ledgers s c) sys_front (ledger_op I) Q (f (Returned ())) None
      (d @ [(Tick it t, out)]) (own @ out)"
  shows "sections V (Ledger_mutex c) (\<lambda>s. ledgers s c) sys_front (ledger_op I) Q (andthen (tick_t I c it) f) None d own"
proof -
  let ?S = "\<lambda>t. sections V (Ledger_mutex c) (\<lambda>s. ledgers s c) sys_front (ledger_op I) Q t None"
  have items: "?S (andthen (each_t (release_item_t I) (due_items t L)) f)
      (d @ [(Tick it t, front_values (snd (tick I it t (L, deque_new))))]) (own @ timeout_signals I t (due_ids it t L))"
    if "t \<in> clock_in V" for t L
    using assms(2) [OF that, of "front_values (snd (tick I it t (L, deque_new)))"]
    by (intro release_items_sections) (simp add: tick_queue)
  have op: "ledger_op I (Tick it t, front_values (snd (tick I it t (L, deque_new)))) L (fst (tick I it t (L, deque_new)))" for t L
    using assms(1) by (simp add: ledger_op_def)
  have "?S (andthen (with_lock (Ledger_mutex c) (bindt (atomic (take_timers c it t))
       (\<lambda>is. seqt (each_t (release_timer_t I c t) is) (atomic (take_retained c t)))))
     (\<lambda>x. andthen (case x of Returned items \<Rightarrow> each_t (release_item_t I) items | Panicked p \<Rightarrow> Halt (Panicked p)) f)) d own"
    if "t \<in> clock_in V" for t
    by (intro sections_with_lock tick_inside)
      (use op items [OF that] in \<open>simp, blast\<close>)
  then show ?thesis
    by (auto simp: tick_t_def andthen_bindt andthen_read)
qed

lemma task_sections:
  assumes "\<forall>u \<in> set us. ledger_turn_ok u"
  shows "sections V (Ledger_mutex c) (\<lambda>s. ledgers s c) sys_front (ledger_op I)
    (\<lambda>d' own'. \<exists>es. d' = d @ es \<and> own' = own @ concat (map snd es) \<and>
       list_all2 (\<lambda>u e. turn_event (clock_in V) u (fst e)) us es)
    (ledger_task_t I c us) None d own"
  using assms unfolding ledger_task_t_def
proof (induction us arbitrary: d own)
  case Nil
  then show ?case by simp
next
  case (Cons u us)
  let ?Q = "\<lambda>d own us d' own'. \<exists>es. d' = d @ es \<and> own' = own @ concat (map snd es) \<and>
       list_all2 (\<lambda>u e. turn_event (clock_in V) u (fst e)) us es"
  have rest: "sections V (Ledger_mutex c) (\<lambda>s. ledgers s c) sys_front (ledger_op I) (?Q d own (u # us))
      (each_t (ledger_turn_t I c) us) None (d @ [e]) (own @ snd e)"
    if "turn_event (clock_in V) u (fst e)" for e
  proof (rule sections_mono)
    show "sections V (Ledger_mutex c) (\<lambda>s. ledgers s c) sys_front (ledger_op I) (?Q (d @ [e]) (own @ snd e) us)
        (each_t (ledger_turn_t I c) us) None (d @ [e]) (own @ snd e)"
      using Cons.prems by (intro Cons.IH) simp
    fix d' own'
    assume "?Q (d @ [e]) (own @ snd e) us d' own'"
    then obtain es where es: "d' = d @ e # es" "own' = own @ concat (map snd (e # es))"
      "list_all2 (\<lambda>u e. turn_event (clock_in V) u (fst e)) us es" by auto
    with that show "?Q d own (u # us) d' own'" by (intro exI [of _ "e # es"]) simp
  qed
  show ?case
  proof (cases u)
    case (Request_taken req)
    with rest [of "(Operate (req_id req) (req_op req), [])"] show ?thesis
      by (simp add: seqt_def bindt_def operate_sections)
  next
    case (Tick_of it)
    have "sections V (Ledger_mutex c) (\<lambda>s. ledgers s c) sys_front (ledger_op I) (?Q d own (u # us))
        (each_t (ledger_turn_t I c) us) None (d @ [(Tick it t, out)]) (own @ out)" if "t \<in> clock_in V" for t out
      using rest [of "(Tick it t, out)"] that Tick_of by simp
    with Tick_of Cons.prems show ?thesis
      by (simp only: each_t.simps ledger_turn_t.simps seqt_def bindt_def list.set ball_simps ledger_turn_ok.simps)
        (rule tick_sections, simp_all)
  qed
qed

section \<open>The other threads\<close>

abbreviation same_ledger ::
  "channel \<Rightarrow> ('k, 's, 'i, 'r, 'm, 'u, 'p, 'q) system \<Rightarrow> ('k, 's, 'i, 'r, 'm, 'u, 'p, 'q) system \<Rightarrow> bool" where
  "same_ledger c s s' \<equiv> ledgers s' c = ledgers s c"

lemma guarantees_any: "guarantees (\<lambda>_ _. True) t"
  by (induction t) simp_all

lemma same_on_world [guarantee_rules]: "guarantees (same_ledger c) (on_world t)"
  unfolding on_world_def by (rule guarantees_hoist [OF guarantees_any]) simp

lemma same_atomic [guarantee_rules]:
  "guarantees (same_ledger c) (atomic poll_signal)"
  "guarantees (same_ledger c) (atomic poll_notification)"
  "guarantees (same_ledger c) (finishing x)"
  "guarantees (same_ledger c) (send_t m c')"
  "guarantees (same_ledger c) (atomic (recv_channel c'))"
  "guarantees (same_ledger c) (atomic (recv_packet c'))"
  "guarantees (same_ledger c) (inbound_end c' y)"
  "guarantees (same_ledger c) (clock_t t)"
  "guarantees (same_ledger c) (packet_arrived_t c' p)"
  "guarantees (same_ledger c) (push_input_t i z)"
  "guarantees (same_ledger c) (atomic (gets h))"
  "guarantees (same_ledger c) (atomic (modifies (\<lambda>s. s\<lparr>outbox := h' s\<rparr>)))"
  unfolding finishing_def send_t_def inbound_end_def clock_t_def packet_arrived_t_def push_input_t_def
  by (auto intro!: guarantee_rules guarantees_atomic simp: poll_signal_def poll_notification_def recv_channel_def
      recv_packet_def cmd_simps split: prod.split poll.split outcome.split list.split)

lemma same_other_ledger [guarantee_rules]:
  assumes "c' \<noteq> c"
  shows "guarantees (same_ledger c) (atomic (on_ledger c' f))"
    and "guarantees (same_ledger c) (atomic (take_timers c' it t))"
    and "guarantees (same_ledger c) (atomic (take_retained c' t))"
  using assms by (auto intro!: guarantees_atomic simp: on_ledger_def take_timers_def take_retained_def cmd_simps)

lemma crate_thread_same:
  assumes "crate_thread R I procs t"
  obtains "guarantees (same_ledger c) t" | np where "t = received_t I np c" | it where "t = tick_t I c it" "hash_order_ok it"
  using assms
proof cases
  case 1
  have "guarantees (same_ledger c) t"
    unfolding 1 manager_turn_t_def by (intro guarantee_rules guarantees_andthen)
  then show thesis by (rule that)
next
  case (2 subs)
  have "guarantees (same_ledger c) t" unfolding 2 nm_turn_t_def by (intro guarantee_rules)
  then show thesis by (rule that)
next
  case (3 np c')
  show thesis
  proof (cases "c' = c")
    case False
    then have "guarantees (same_ledger c) t"
      unfolding 3 received_t_def operate_t_def by (cases np) (auto intro!: guarantee_rules)
    then show thesis by (rule that)
  qed (use 3 that in blast)
next
  case (4 pr c' ic)
  have "guarantees (same_ledger c) t"
    unfolding 4 read_packet_t_def by (auto intro!: guarantee_rules guarantees_andthen split: sum.split option.split)
  then show thesis by (rule that)
next
  case (5 it c')
  show thesis
  proof (cases "c' = c")
    case False
    then have "guarantees (same_ledger c) t"
      unfolding 5 tick_t_def release_timer_t_def release_item_t_def by (auto intro!: guarantee_rules)
    then show thesis by (rule that)
  qed (use 5 that in blast)
qed (auto intro: that guarantee_rules)

text \<open>A turn of the task that handles requests, with the receive.\<close>

lemma received_sections:
  "sections V (Ledger_mutex c) (\<lambda>s. ledgers s c) sys_front (ledger_op I) (\<lambda>_ _. True) (received_t I np c) None d own"
proof -
  have "sections V (Ledger_mutex c) (\<lambda>s. ledgers s c) sys_front (ledger_op I) (\<lambda>_ _. True) (operate_t c req) None d own" for req
    using operate_sections [of V c I "\<lambda>_ _. True" Halt d req own] by (simp add: andthen_Halt)
  then show ?thesis
    by (auto simp: received_t_def bindt_def atomic_def andthen.simps recv_channel_def cmd_simps
        split: prod.split boxed_np.split option.split)
qed

lemma guarantees_both:
  "guarantees G t \<Longrightarrow> guarantees G' t \<Longrightarrow> guarantees (\<lambda>w w'. G w w' \<and> G' w w') t"
  by (induction t) simp_all

text \<open>Threads of the crate that leave the ledger of \<open>c\<close> alone, and those that do not poll the signals.\<close>

definition beside_ledger where
  "beside_ledger R I procs c t \<longleftrightarrow> crate_thread R I procs t \<and> guarantees (same_ledger c) t"

definition beside_signals where
  "beside_signals R I procs c t \<longleftrightarrow> beside_ledger R I procs c t \<and>
     guarantees (\<lambda>s s'. \<exists>os. sys_front s' = sys_front s @ os) t"

context context_machines
begin

lemma beside_sections:
  assumes "beside_ledger R I procs c t" and "guarantees (\<lambda>s s'. \<exists>os. lg s' = lg s @ os) t"
  shows "sections V (Ledger_mutex c) (\<lambda>s. ledgers s c) lg G (\<lambda>d' _. d' = d) t None d own"
proof (rule sections_bystander)
  show "guarantees (\<lambda>w w'. ledgers w' c = ledgers w c \<and> (\<exists>os. lg w' = lg w @ os)) t"
    using assms by (auto simp: beside_ledger_def intro: guarantees_both)
  show "tidy lock_rank [] t []"
    using assms(1) by (auto simp: beside_ledger_def intro: crate_thread_tidy process_tidy)
qed simp_all

lemma crate_thread_sections:
  assumes "crate_thread R I procs t"
  shows "sections V (Ledger_mutex c) (\<lambda>s. ledgers s c) (\<lambda>_. []) (ledger_op I) (\<lambda>_ _. True) t None [] []"
  using assms
proof (cases rule: crate_thread_same [of R I procs t c])
  case 1
  with assms have "beside_ledger R I procs c t" by (simp add: beside_ledger_def)
  then show ?thesis
    by (rule sections_mono [OF beside_sections]) (simp_all add: guarantees_any)
next
  case (2 np)
  show ?thesis unfolding 2 by (rule sections_no_log [OF received_sections]) simp
next
  case (3 it)
  show ?thesis
    unfolding 3
    by (rule sections_no_log [where Q = "\<lambda>_ _. True"])
      (use tick_sections [OF 3(2), of V c I "\<lambda>_ _. True" Halt "[]" "[]"] in \<open>simp_all add: andthen_Halt\<close>)
qed

end

text \<open>
  The first are all threads but the handlers and ticks of \<open>c\<close> itself, the second all of these but
  the manager's turn.
\<close>

lemma beside_ledger_all:
  assumes "crate_thread R I procs t" and "\<And>np. t \<noteq> received_t I np c" and "\<And>it. t \<noteq> tick_t I c it"
  shows "beside_ledger R I procs c t"
  using assms by (cases rule: crate_thread_same [of R I procs t c]) (use assms(1) in \<open>auto simp: beside_ledger_def\<close>)

lemma grows_front: "grows q q' \<Longrightarrow> \<exists>os. front_values q' = front_values q @ os"
proof -
  have "\<exists>os. front_values (run_ops run_push ps q) = front_values q @ os" for ps
  proof (induction ps arbitrary: q)
    case (Cons p ps)
    from Cons.IH [of "run_push p q"] show ?case by (cases p) auto
  qed simp
  then show "grows q q' \<Longrightarrow> \<exists>os. front_values q' = front_values q @ os" by (auto simp: grows_def)
qed

abbreviation front_grows where
  "front_grows s s' \<equiv> \<exists>os. sys_front s' = sys_front s @ os"

lemma front_on_world: "guarantees extends t \<Longrightarrow> guarantees front_grows (on_world t)"
  unfolding on_world_def
  by (erule guarantees_hoist) (use grows_front in \<open>fastforce simp: extends_def\<close>)

lemma front_frame:
  assumes "\<And>s. signal_queue (sys_world (snd (m s))) = signal_queue (sys_world s)"
  shows "guarantees front_grows (atomic m)"
  using assms by (intro guarantees_atomic) simp

lemma front_atomic [guarantee_rules]:
  "guarantees front_grows (atomic poll_notification)"
  "guarantees front_grows (send_t m c')"
  "guarantees front_grows (atomic (recv_channel c'))"
  "guarantees front_grows (atomic (recv_packet c'))"
  "guarantees front_grows (inbound_end c' y)"
  "guarantees front_grows (clock_t t)"
  "guarantees front_grows (packet_arrived_t c' p)"
  "guarantees front_grows (push_input_t i z)"
  "guarantees front_grows (atomic (gets h))"
  "guarantees front_grows (atomic (modifies (\<lambda>s. s\<lparr>outbox := h' s\<rparr>)))"
  "guarantees front_grows (atomic (on_ledger c' f))"
  "guarantees front_grows (atomic (take_timers c' it t))"
  "guarantees front_grows (atomic (take_retained c' t))"
  unfolding send_t_def inbound_end_def clock_t_def packet_arrived_t_def push_input_t_def
  by (auto intro!: guarantee_rules front_on_world front_frame simp: poll_notification_def recv_channel_def
      recv_packet_def on_ledger_def take_timers_def take_retained_def cmd_simps split: prod.split poll.split list.split)

context context_machines
begin

lemma beside_signals_all:
  assumes "beside_ledger R I procs c t" and "t \<noteq> manager_turn_t procs"
  shows "beside_signals R I procs c t"
proof -
  have "crate_thread R I procs t" using assms(1) by (simp add: beside_ledger_def)
  then have "guarantees front_grows t"
  proof cases
    case (2 subs)
    show ?thesis unfolding 2 nm_turn_t_def by (intro guarantee_rules)
  next
    case (3 np c')
    show ?thesis unfolding 3 received_t_def operate_t_def by (cases np) (auto intro!: guarantee_rules)
  next
    case (4 pr c' ic)
    show ?thesis
      unfolding 4 read_packet_t_def
      by (auto intro!: guarantee_rules guarantees_andthen front_on_world split: sum.split option.split)
  next
    case (5 it c')
    show ?thesis unfolding 5 tick_t_def release_timer_t_def release_item_t_def by (auto intro!: guarantee_rules)
  next
    case (6 k process i x)
    then show ?thesis by (auto intro: front_on_world process_pushes)
  qed (use assms(2) in \<open>auto intro!: front_on_world guarantee_rules\<close>)
  with assms(1) show ?thesis by (simp add: beside_signals_def)
qed

end

sublocale context_machines \<subseteq> whole: critical_sections "Ledger_mutex c" "\<lambda>s. ledgers s c" "\<lambda>_. [] :: unit list"
    "ledger_op I" "crate_thread R I procs" "\<lambda>_. True" for R I c
  by unfold_locales (rule crate_thread_sections)

sublocale context_machines \<subseteq> beside: critical_sections "Ledger_mutex c" "\<lambda>s. ledgers s c" "\<lambda>_. [] :: unit list"
    "ledger_op I" "beside_ledger R I procs c" "\<lambda>d. d = []" for R I c
  by unfold_locales (rule beside_sections, assumption, simp add: guarantees_any)

sublocale context_machines \<subseteq> signalling: critical_sections "Ledger_mutex c" "\<lambda>s. ledgers s c" sys_front
    "ledger_op I" "beside_signals R I procs c" "\<lambda>d. d = []" for R I c
  by unfold_locales (rule beside_sections, auto simp: beside_signals_def)

context context_machines
begin

lemmas whole_sections = whole.critical_sections_axioms
lemmas beside_ledger_sections = beside.critical_sections_axioms
lemmas beside_signals_sections = signalling.critical_sections_axioms

end

section \<open>Tasks of one ledger\<close>

abbreviation ledger_pool where
  "ledger_pool I c uss s \<equiv> pool_new (map (ledger_task_t I c) uss) s"

text \<open>The instants that the clock shows in the course of the runs from a pool.\<close>

definition clock_shows ::
  "(('k, 's, 'i, 'r, 'm, 'u, 'p, 'q, unit) sys_thread \<Rightarrow> bool) \<Rightarrow>
   (lock, ('k, 's, 'i, 'r, 'm, 'u, 'p, 'q) system, unit) pool \<Rightarrow> instant set" where
  "clock_shows P p0 = {now (sys_world (shared p)) | p. reaches P p0 p}"

lemma clock_in_shows: "clock_in (\<lambda>s. \<exists>p. reaches P p0 p \<and> shared p = s) = clock_shows P p0"
  by (auto simp: clock_shows_def)

text \<open>
  All are done: the operations in the order of the holds, labelled with their tasks, are those of
  each task in its order and no others.
\<close>

lemma tasks_history:
  assumes "critical_sections (Ledger_mutex c) (\<lambda>s. ledgers s c) lg (ledger_op I) P (\<lambda>d. d = [])"
    and "\<And>V us. \<forall>u \<in> set us. ledger_turn_ok u \<Longrightarrow>
       sections V (Ledger_mutex c) (\<lambda>s. ledgers s c) lg (ledger_op I)
         (\<lambda>d' own'. list_all2 (\<lambda>u e. turn_event (clock_in V) u (fst e)) us d' \<and> Y d' own')
         (ledger_task_t I c us) None [] []"
    and "\<forall>us \<in> set uss. \<forall>u \<in> set us. ledger_turn_ok u"
    and "reaches P (ledger_pool I c uss s0) p" and "all_halted p"
  obtains es os where "history (ledger_op I) (ledgers s0 c) (map snd es) (ledgers (shared p) c)"
    and "\<forall>x \<in> set es. fst x < length uss" and "lg (shared p) = lg s0 @ map snd os"
    and "\<forall>k < length uss. list_all2 (turn_event (clock_shows P (ledger_pool I c uss s0))) (uss ! k) (map fst (by_thread k es))"
    and "\<forall>k < length uss. Y (by_thread k es) (by_thread k os)"
proof -
  let ?V = "\<lambda>s. \<exists>p. reaches P (ledger_pool I c uss s0) p \<and> shared p = s"
  let ?Q = "\<lambda>k d' own'. list_all2 (\<lambda>u e. turn_event (clock_in ?V) u (fst e)) (uss ! k) d' \<and> Y d' own'"
  have "sections ?V (Ledger_mutex c) (\<lambda>s. ledgers s c) lg (ledger_op I) (?Q i)
      (map (ledger_task_t I c) uss ! i) None [] []" if "i < length uss" for i
    unfolding nth_map [OF that] by (rule assms(2)) (use assms(3) nth_mem [OF that] in blast)
  from critical_sections.free_history [OF assms(1,4), of ?Q] this obtain es os v where
    H: "history (ledger_op I) (ledgers s0 c) (map snd es) v" "owner p (Ledger_mutex c) = None \<longrightarrow> ledgers (shared p) c = v"
    "lg (shared p) = lg s0 @ map snd os" "\<forall>x \<in> set es. fst x < length (threads p)" "length uss \<le> length (threads p)"
    and Q: "\<forall>i < length uss. halted (threads p ! i) \<longrightarrow> ?Q i (by_thread i es) (by_thread i os)"
    and S: "\<forall>i. length uss \<le> i \<longrightarrow> i < length (threads p) \<longrightarrow> halted (threads p ! i) \<longrightarrow> by_thread i es = []"
    and free: "all_halted p \<longrightarrow> owner p (Ledger_mutex c) = None" by auto
  have ended: "halted (threads p ! i)" if "i < length (threads p)" for i
    using assms(5) that by (simp add: all_halted_def)
  show thesis
  proof (rule that)
    show "history (ledger_op I) (ledgers s0 c) (map snd es) (ledgers (shared p) c)"
      using H(1,2) free assms(5) by simp
    show "\<forall>x \<in> set es. fst x < length uss"
    proof (rule ballI, rule ccontr)
      fix x
      assume x: "x \<in> set es" and n: "\<not> fst x < length uss"
      with H(4) S ended have "by_thread (fst x) es = []" by simp
      with x show False by (auto simp: filter_empty_conv)
    qed
    show "lg (shared p) = lg s0 @ map snd os" by (rule H(3))
    show "\<forall>k < length uss. list_all2 (turn_event (clock_shows P (ledger_pool I c uss s0))) (uss ! k) (map fst (by_thread k es))"
      using Q ended H(5) by (simp add: clock_in_shows list_all2_map2)
    show "\<forall>k < length uss. Y (by_thread k es) (by_thread k os)"
      using Q ended H(5) by simp
  qed
qed

section \<open>Properties\<close>

text \<open>
  C16. Whatever overlaps, a ledger whose lock is free is consistent: start turns of all tasks,
  machines and calls of a context at any moment and in any number of threads, several handlers
  and ticks of one timeout manager among them, and let them overlap in any order. Whenever no
  thread holds the lock of a ledger, an id is in the bucket of an instant exactly when that
  instant is its deadline, and the ledger is what some whole requests and ticks, one after the
  other, make of an empty one, in the ledger and in the map of deadlines alike.
\<close>

theorem free_ledger_is_consistent:
  assumes "context_machines sms procs" and "reaches (crate_thread R I procs) (pool_new [] (spawned w)) p"
    and "owner p (Ledger_mutex c) = None"
  shows "(timer_ids (ledgers (shared p) c) i = Some t \<longleftrightarrow>
      (\<exists>S. map_of (timers (ledgers (shared p) c)) t = Some S \<and> i \<in> S)) \<and>
    (\<exists>es. (\<forall>e \<in> set es. timer_event_ok e) \<and>
       fst (run_ops (timer_step I) es (ledger_new, q)) = ledgers (shared p) c \<and>
       timer_ids (ledgers (shared p) c) = fst (run_ops timer_abs_step es (Map.empty, [])))"
proof -
  from critical_sections.free_history [OF context_machines.whole_sections [OF assms(1), where c = c] assms(2), where Q = "\<lambda>_ _ _. True"] assms(3)
  obtain es :: "(nat \<times> ('a, 'f) timer_event \<times> ('a, 'b) signal list) list"
    where "history (ledger_op I) ledger_new (map snd es) (ledgers (shared p) c)"
    by (auto simp: spawned_def)
  note run = history_run [OF this, of q]
  let ?es = "map fst (map snd es)"
  obtain L q' where Lq: "run_ops (timer_step I) ?es (ledger_new, q) = (L, q')" by fastforce
  obtain D H where DH: "run_ops timer_abs_step ?es (Map.empty, []) = (D, H)" by fastforce
  have ok: "\<forall>e \<in> set ?es. timer_event_ok e" using run by auto
  then have "ledger_wf L \<and> timer_rel L (D, H)"
    using timer_service.run_rel [of "(ledger_new, q)" "(Map.empty, [])" ?es I] Lq DH
    by (simp add: ledger_new_wf timer_rel_new)
  moreover have "ledgers (shared p) c = L" using run Lq by simp
  ultimately show ?thesis
    using ok Lq DH ledger_wfD(4) [of L i t] by (intro conjI exI [of _ ?es]) (simp_all add: timer_rel_def)
qed

theorem free_ledger_is_consistent_witness:
  "timer_ids (ledgers sample_end 0) ping_2 = Some 5 \<longleftrightarrow>
    (\<exists>S. map_of (timers (ledgers sample_end 0)) 5 = Some S \<and> ping_2 \<in> S)"
proof -
  obtain es where "sys_run game_ingress duel_program sample_start es sample_end"
    using sample_run by blast
  with run_overlaps [of duel_program "game_procs (\<lambda>_. 0)" game_ingress sample_start es sample_end game_rex]
    game_ctx.context_machines_axioms [of "\<lambda>_. 0"]
  obtain p where p: "reaches (crate_thread game_rex game_ingress (game_procs (\<lambda>_. 0)))
      (pool_new [] (spawned (world_new 0 no_user))) p" "owner p = Map.empty" "shared p = sample_end"
    by (auto simp: sample_start_def)
  from free_ledger_is_consistent [OF game_ctx.context_machines_axioms p(1), of 0 ping_2 5 deque_new] p(2,3)
  show ?thesis by simp
qed

text \<open>
  C14. Handlers and ticks of one ledger that overlap are as if one came after the other: let any
  number of tasks each handle requests and tick, and let them overlap with each other and with
  all threads of the system that do not use this ledger, the manager and the machines among
  them. When all are done, the ledger is the one that results from the same requests and ticks
  in some order; in it each task's come in the task's order, nothing else comes, and each tick
  is at an instant that the clock showed.
\<close>

theorem overlapping_ledger_tasks:
  assumes "context_machines sms procs" and "\<forall>us \<in> set uss. \<forall>u \<in> set us. ledger_turn_ok u"
    and "reaches (beside_ledger R I procs c) (ledger_pool I c uss s0) p" and "all_halted p"
  shows "\<exists>es. ledgers (shared p) c = fst (run_ops (timer_step I) (map snd es) (ledgers s0 c, q)) \<and>
    (\<forall>x \<in> set es. fst x < length uss) \<and>
    (\<forall>k < length uss. list_all2 (turn_event (clock_shows (beside_ledger R I procs c) (ledger_pool I c uss s0)))
       (uss ! k) (by_thread k es))"
proof -
  have "sections V (Ledger_mutex c) (\<lambda>s. ledgers s c) (\<lambda>_. [] :: unit list) (ledger_op I)
      (\<lambda>d' own'. list_all2 (\<lambda>u e. turn_event (clock_in V) u (fst e)) us d' \<and> True) (ledger_task_t I c us) None [] []"
    if "\<forall>u \<in> set us. ledger_turn_ok u" for V us
    by (rule sections_no_log [OF task_sections [OF that]]) auto
  then obtain es where es: "history (ledger_op I) (ledgers s0 c) (map snd es) (ledgers (shared p) c)"
    "\<forall>x \<in> set es. fst x < length uss"
    "\<forall>k < length uss. list_all2 (turn_event (clock_shows (beside_ledger R I procs c) (ledger_pool I c uss s0)))
       (uss ! k) (map fst (by_thread k es))"
    by (rule tasks_history [OF context_machines.beside_ledger_sections [OF assms(1)] _ assms(2-4),
          where Y = "\<lambda>_ _. True"]) auto
  obtain fs where fs: "map snd fs = map fst (map snd es)" "\<forall>x \<in> set fs. fst x < length uss"
    "\<And>k. by_thread k fs = map fst (by_thread k es)"
  proof (rule that)
    show "map snd (map (\<lambda>(k, e). (k, fst e)) es) = map fst (map snd es)" by (induction es) auto
    show "\<forall>x \<in> set (map (\<lambda>(k, e). (k, fst e)) es). fst x < length uss" using es(2) by auto
    show "by_thread k (map (\<lambda>(k, e). (k, fst e)) es) = map fst (by_thread k es)" for k by (induction es) auto
  qed
  show ?thesis
    by (intro exI [of _ fs]) (use es(3) history_run [OF es(1), of q] in \<open>simp add: fs del: map_map\<close>)
qed

text \<open>Tasks start and all come to their end.\<close>

lemma ledger_pool_ends:
  assumes "\<forall>us \<in> set uss. \<forall>u \<in> set us. ledger_turn_ok u"
  shows "\<exists>p. reaches P (ledger_pool I c uss s) p \<and> all_halted p"
proof -
  have "tidy lock_rank [] (ledger_turn_t I c u) []" for u
    by (cases u) (auto simp: operate_t_def tidy_tick intro!: tidy_rules)
  then have task: "tidy lock_rank [] (ledger_task_t I c us) []" for us
    unfolding ledger_task_t_def by (intro tidy_rules)
  let ?P = "\<lambda>t. t \<in> set (map (ledger_task_t I c) uss)"
  have P: "ordered_threads lock_rank ?P"
    by unfold_locales (auto simp: task)
  have "reaches ?P (pool_new [] s) (ledger_pool I c uss s)" by (rule reaches_pool) simp
  from ordered_threads.always_ends [OF P this] show ?thesis by (rule inevitably_reaches)
qed

definition duel_turns :: "(game, packet) ledger_turn list list" where
  "duel_turns = [[Request_taken \<lparr>req_id = ping_2, req_op = Set 5\<rparr>, Request_taken \<lparr>req_id = ping_2, req_op = Cancel\<rparr>],
    [Tick_of sorted_list_of_set]]"

lemma duel_turns_ok: "\<forall>us \<in> set duel_turns. \<forall>u \<in> set us. ledger_turn_ok u"
  by (simp add: duel_turns_def sorted_hash_order)

lemma duel_turns_length: "0 < length duel_turns" "1 < length duel_turns"
  by (simp_all add: duel_turns_def)

theorem overlapping_ledger_tasks_witness:
  "\<exists>p es. reaches (beside_ledger game_rex game_ingress (game_procs (\<lambda>_. 0)) 0) (ledger_pool game_ingress 0 duel_turns sample_start) p \<and>
    all_halted p \<and> ledgers (shared p) 0 = fst (run_ops (timer_step game_ingress) (map snd es) (ledger_new, deque_new)) \<and>
    by_thread 0 es = [Operate ping_2 (Set 5), Operate ping_2 Cancel]"
proof -
  let ?P = "beside_ledger game_rex game_ingress (game_procs (\<lambda>_. 0)) 0"
  from ledger_pool_ends [OF duel_turns_ok, of ?P game_ingress 0 sample_start] obtain p where
    p: "reaches ?P (ledger_pool game_ingress 0 duel_turns sample_start) p" "all_halted p" by blast
  from overlapping_ledger_tasks [OF game_ctx.context_machines_axioms duel_turns_ok p, of deque_new] obtain es where
    es: "ledgers (shared p) 0 = fst (run_ops (timer_step game_ingress) (map snd es) (ledgers sample_start 0, deque_new))"
    "\<forall>k < length duel_turns. list_all2 (turn_event (clock_shows ?P (ledger_pool game_ingress 0 duel_turns sample_start)))
       (duel_turns ! k) (by_thread k es)"
    by blast
  from es(2) have "list_all2 (turn_event (clock_shows ?P (ledger_pool game_ingress 0 duel_turns sample_start)))
       (duel_turns ! 0) (by_thread 0 es)" using duel_turns_length by blast
  then have "by_thread 0 es = [Operate ping_2 (Set 5), Operate ping_2 Cancel]"
    by (auto simp: duel_turns_def list_all2_Cons1)
  moreover have "ledgers sample_start 0 = ledger_new" by (simp add: sample_start_def spawned_def)
  ultimately show ?thesis using p es(1) by (intro exI [of _ p] exI [of _ es]) simp
qed

text \<open>
  C15. Each tick signals what is due where it comes in that order: let tasks of one ledger
  overlap with each other and with threads that neither use the ledger nor take signals off the
  queue. When all are done there is one order of the requests and ticks, each task's in the
  task's order, such that the priority lane has grown by an interleaving of what the threads put
  there, and what each task put there is, tick by tick, what the tick at its place in the order
  signals, timers first, then the retained items.
\<close>

theorem overlapping_ticks_signal:
  assumes "context_machines sms procs" and "\<forall>us \<in> set uss. \<forall>u \<in> set us. ledger_turn_ok u"
    and "reaches (beside_signals R I procs c) (ledger_pool I c uss s0) p" and "all_halted p"
  shows "\<exists>es os. history (ledger_op I) (ledgers s0 c) (map snd es) (ledgers (shared p) c) \<and>
    (\<forall>x \<in> set es. fst x < length uss) \<and>
    (\<forall>k < length uss. list_all2 (turn_event (clock_shows (beside_signals R I procs c) (ledger_pool I c uss s0)))
       (uss ! k) (map fst (by_thread k es))) \<and>
    sys_front (shared p) = sys_front s0 @ map snd os \<and>
    (\<forall>k < length uss. by_thread k os = concat (map snd (by_thread k es)))"
proof -
  have "sections V (Ledger_mutex c) (\<lambda>s. ledgers s c) sys_front (ledger_op I)
      (\<lambda>d' own'. list_all2 (\<lambda>u e. turn_event (clock_in V) u (fst e)) us d' \<and> own' = concat (map snd d'))
      (ledger_task_t I c us) None [] []"
    if "\<forall>u \<in> set us. ledger_turn_ok u" for V us
    by (rule sections_mono [OF task_sections [OF that]]) auto
  then show ?thesis
    by (rule tasks_history [OF context_machines.beside_signals_sections [OF assms(1)] _ assms(2-4),
          where Y = "\<lambda>d own. own = concat (map snd d)"]) blast+
qed

theorem overlapping_ticks_signal_witness:
  "\<exists>p es os. reaches (beside_signals game_rex game_ingress (game_procs (\<lambda>_. 0)) 0) (ledger_pool game_ingress 0 duel_turns sample_start) p \<and>
    all_halted p \<and> history (ledger_op game_ingress) ledger_new (map snd es) (ledgers (shared p) 0) \<and>
    sys_front (shared p) = map snd os \<and> by_thread 1 os = concat (map snd (by_thread 1 es))"
proof -
  let ?P = "beside_signals game_rex game_ingress (game_procs (\<lambda>_. 0)) 0"
  from ledger_pool_ends [OF duel_turns_ok, of ?P game_ingress 0 sample_start] obtain p where
    p: "reaches ?P (ledger_pool game_ingress 0 duel_turns sample_start) p" "all_halted p" by blast
  from overlapping_ticks_signal [OF game_ctx.context_machines_axioms duel_turns_ok p] obtain es os where
    es: "history (ledger_op game_ingress) (ledgers sample_start 0) (map snd es) (ledgers (shared p) 0)"
    "sys_front (shared p) = sys_front sample_start @ map snd os"
    "\<forall>k < length duel_turns. by_thread k os = concat (map snd (by_thread k es))"
    by blast
  have "by_thread 1 os = concat (map snd (by_thread 1 es))" using es(3) duel_turns_length by blast
  moreover have "ledgers sample_start 0 = ledger_new" "sys_front sample_start = []"
    by (simp_all add: sample_start_def spawned_def world_new_def)
  ultimately show ?thesis using p es(1,2) by (intro exI [of _ p] exI [of _ es] exI [of _ os]) simp
qed

end
