(* ===== verification/Spec2Isabelle.thy ===== *)
theory Spec2Isabelle
  imports Rex_Schedules Rex_Crowd Rex_Plain Rex_Test_Node Rex_Test_Timeout Rex_Test_Flow Rex_Test_Game Rex_Format
    Rex_Overlap Rex_Calls_Spec Rex_Test_Locks Rex_Wiring
    Rex_Ledger_Turns
begin

text \<open>
  A verification development for \<open>rex\<close>, a Rust crate for hierarchical state machines (sources
  under \<open>src/src/\<close>).

  \<^bold>\<open>The program.\<close> A user declares kinds of state machines and, for each kind, a machine. The
  \<open>StateMachineManager\<close> takes signals (an id and an input) off a two-lane signal queue and calls
  \<open>process\<close> of the machine of the id's kind. Through its context a machine creates trees of
  states in the shared \<open>StateStore\<close>, reads and updates them, signals itself, its parent or other
  machines, and puts messages into the notification queue. The \<open>NotificationManager\<close> copies each
  message to the channels of the processors subscribed to its topic. One processor is the
  \<open>TimeoutManager\<close>, which keeps a ledger of deadlines and, at each tick, signals what is due;
  another is the \<open>IngressAdapter\<close>, which turns inbound packets into signals and notifications
  into outbound packets. \<open>RexBuilder\<close> puts a system together.

  \<^bold>\<open>Theories.\<close>
  \<^item> \<open>Rex_Prelude\<close>: panics (one constructor per panicking site), outcomes, commands (state
    passing with an outcome), vector operations, the collections of rules, and the generic
    locales \<open>invariant_ops\<close>, \<open>simulation_ops\<close> and \<open>cmd_refinement\<close>.
  \<^item> \<open>Rex_Ids\<close>: \<open>lib.rs\<close>. \<open>StateId\<close> is a record; the traits \<open>Kind\<close>, \<open>Rex\<close>, \<open>Timeout\<close>,
    \<open>GetTopic\<close> are records of functions, the argument \<open>K\<close> or \<open>R\<close> of the definitions that call
    them. The locale \<open>lawful_kind\<close> states what the crate's documentation asks of a \<open>Kind\<close>.
    \<open>Rex_Kinds\<close>: the instances of the traits in the crate's tests, all shown lawful.
  \<^item> \<open>Rex_Queue\<close>: \<open>queue.rs\<close>. Lanes, parked receivers, the heap of their flags, the log of wake-ups.
    \<open>Rex_Crowd\<close>: several tasks that read one queue.
  \<^item> \<open>Rex_Node\<close>: \<open>node.rs\<close>, the tree, its zipper and every operation, with the blank node that a
    panic leaves behind. \<open>Rex_Tree\<close>: its laws. \<open>Rex_Plain\<close>: the reference, plain recursion on
    trees without the index.
  \<^item> \<open>Rex_Storage\<close>: \<open>storage.rs\<close> and the store methods of \<open>StateMachineExt\<close>, on a heap of trees
    shared by several ids.
  \<^item> \<open>Rex_Btree\<close>, \<open>Rex_Timeout\<close>: \<open>timeout.rs\<close>, the ledger, its operations, the tick.
    \<open>Rex_Format\<close>: \<open>hms_string\<close> of the same file.
  \<^item> \<open>Rex_Notification\<close>: \<open>notification.rs\<close>, queue, subscriptions, routing to channels.
  \<^item> \<open>Rex_Context\<close>, \<open>Rex_Manager\<close>: \<open>manager.rs\<close>, the methods a machine calls and the dispatch task.
  \<^item> \<open>Rex_Ingress\<close>: \<open>ingress.rs\<close>. \<open>Rex_Builder\<close>: \<open>builder.rs\<close>.
    \<open>Rex_Wiring\<close>: the same with the \<open>Arc\<close> handles, that is which queue, store and ledger each
    part of a system holds, and so why the other theories have one world for all of them.
  \<^item> \<open>Rex_View\<close>: what a command does to the world as a user sees it. \<open>Rex_Sound\<close>: what every command
    keeps of the store. \<open>Rex_Game\<close>: the three machines of the tests in \<open>manager.rs\<close>, run through
    the model of the manager.
  \<^item> \<open>Rex_System\<close>: the tasks that \<open>build\<close> spawns, running together. A step is one stretch of one
    task between two of its awaits: a signal handled, a notification routed, a message received,
    a packet read, a tick; or a push from outside. Any order of steps is a run. A task that found
    its queue empty takes no step until its waker is called. \<open>Rex_Arena\<close>: the system of the
    tests with a timeout manager. \<open>Rex_Quiet\<close>: invariants of every run. \<open>Rex_Routing\<close>: the way of a
    request through notification manager and channel to the ledger.
  \<^item> \<open>Rex_Shows\<close>: the running game seen from some distance, a view of the world and the timers as
    they will be when the requests under way have arrived. \<open>Rex_Moves\<close>: the turns of the manager on
    that view. \<open>Rex_Lost\<close>: from a player's timeout to the end. \<open>Rex_Race\<close>: deadlines, ticks, the
    schedules the tests rely on (\<open>paced\<close>) and the locale \<open>race\<close>. \<open>Rex_Pong_Timeout\<close>,
    \<open>Rex_Ping_Timeout\<close>: the two tests with a timeout manager. \<open>Rex_Schedules\<close>: schedules exist.
  \<^item> \<open>Rex_Test_Node\<close>, \<open>Rex_Test_Timeout\<close>, \<open>Rex_Test_Flow\<close>: the test functions of \<open>node.rs\<close>, of
    \<open>timeout.rs\<close> and \<open>notification.rs\<close>, and of \<open>queue.rs\<close> and \<open>ingress.rs\<close>, as definitions whose
    result is what the assertions look at. \<open>Rex_Siblings\<close>: in every run of the game the first child
    of a node is a ping. \<open>Rex_Test_Game\<close>: with it, the assertions of the tests in \<open>manager.rs\<close>, which
    find the players by their place under the menu.
  \<^item> \<open>Rex_Threads\<close>: threads as terms of locks and accesses to a shared state, pools of them, any
    interleaving; the discipline of lock order and what follows from it. \<open>Rex_Locks\<close>,
    \<open>Rex_Game_Threads\<close>, \<open>Rex_Tasks\<close>: the operations of store and context, the machines of the
    tests, and the turns of all tasks as such threads, with the guards where the code has them.
    \<open>Rex_Overlap\<close>: turns that overlap, and each step of \<open>Rex_System\<close> as its threads
    (\<open>event_threads\<close>). \<open>Rex_Linear\<close>: updates that overlap, with
    their signals. \<open>Rex_Calls\<close>: any calls of the store that overlap;
    \<open>Rex_Calls_Spec\<close>: against the two maps of states and parents. \<open>Rex_Sections\<close>: a part of the
    state that belongs to a lock, and what each hold of the lock makes of it;
    \<open>Rex_Ledger_Turns\<close>: the ledger, its requests and ticks. \<open>Rex_Test_Locks\<close>: the second lock a
    comment in the tests warns of.

  \<^bold>\<open>What the lemmas show.\<close>
  \<^item> Trees: \<open>tree_wf\<close> (exact \<open>descendant_keys\<close>, no id twice) is kept by every operation; under it no
    operation panics on an id of the tree and the operations refine two maps, the state and the
    parent of every id, and give the trees of plain recursion, so that siblings stay in the order
    of their insertion. The zipper is a round trip. The store refines a forest of such maps.
  \<^item> Ledger: the two indices agree (\<open>ledger_wf\<close>), and together they refine one deadline per id and
    a sequence of retained items; a tick releases what is strictly due, earliest first.
  \<^item> Queue: each lane is first in, first out, the front lane goes first; a sole consumer misses no
    wake-up; among several consumers that come, poll and go, each poll or drop of a receiver that
    still waits for its notification costs at most one wake-up (\<open>crowd_inv\<close>), and can cost one.
  \<^item> Routing: what each channel holds after a poll, what becomes of each inbound and outbound packet.
  \<^item> Manager: dispatch by kind, unknown kinds dropped, a panic ends the task. \<open>effect\<close> rules chain
    the calls of a \<open>process\<close> into its meaning; \<open>leads\<close> chains turns into runs. \<open>keeps\<close> rules show
    that the store stays sound whatever the machines do.
  \<^item> The running system: no task sleeps while its queue holds something (\<open>tasks_ok\<close>), from the
    locale \<open>pushing_machines\<close> of machines that only push to the queues; store and ledgers stay
    sound (\<open>kept_by_steps\<close>); routing ends and its result does not depend on the order of turns.
  \<^item> The duel: in every schedule with increasing clock readings in which the tasks catch up between
    ticks, the player that is kept waiting times out and the menu fails all three on its account.
  \<^item> Tests: each of the tests passes whatever the clock reads, whenever the ticks come and
    in whatever order a tick visits a set, as long as a tick comes after the deadline waited for.
  \<^item> Threads: run alone, each thread is the operation of the other theories (\<open>solo\<close>); all of
    them take locks in the order tree or ledger before shard or queue (\<open>tidy\<close>), from which the
    locale \<open>ordered_threads\<close> gives progress and termination of every pool; every access keeps what
    the wake-ups rest on (\<open>guarantees\<close>, locale \<open>guarding_threads\<close>); overlapping updates are as
    updates in some order, and so are overlapping calls of the store, unless an id is used while
    it is being made. Each hold of a ledger's lock is one whole request or tick (\<open>sections\<close>,
    locale \<open>critical_sections\<close>), so overlapping requests and ticks are as those in the order of the
    holds, and each tick signals what is due there.
  \<^item> Builder: when \<open>build\<close> and the \<open>with_\<close> methods succeed, what they wire, when they panic.

  \<^bold>\<open>Bounds and choices of the environment.\<close> The tasks of the crate are endless loops. \<open>manager_run\<close>
  takes one turn for each clock reading of the list it is given and stops at an empty queue; ten
  readings suffice for the game, which needs nine turns. A poll of the notification
  manager drains a finite queue, and the tasks of the ingress handle a finite list of messages:
  both are total functions. A machine may run at any clock reading, a tick at any instant. The order in which a tick iterates
  a \<open>HashSet\<close> is a parameter \<open>it\<close> about which only \<open>hash_order_ok\<close> is assumed: each element
  once. Random ids are the elements of a given sequence. Instants are natural numbers of
  nanoseconds whose seconds, when a duration is added, must stay below \<open>2 ^ 63\<close>; durations have
  64-bit seconds and 32-bit nanoseconds. The packets of the test machines count in 64-bit words,
  and \<open>+=\<close> on them panics on overflow, as in the profile that tests are built with.

  \<^bold>\<open>Code that is not the crate's own.\<close> \<open>BTreeMap\<close> is a sorted association list that
  meets the locale \<open>ordered_map\<close>; \<open>HashMap\<close> and \<open>DashMap\<close> are maps. A tokio unbounded channel is the
  list of its messages with a closed flag. \<open>bs58\<close> and the user's trait implementations are
  parameters; of a user's own processor these are its topics and how its \<open>init\<close> ends. What is
  proved of the tests' machines in a running system leaves the conversions of packets, which their
  kind does not have, unspecified.

  \<^bold>\<open>Not modelled.\<close> Logging and tracing spans; the \<open>JoinSet\<close> that holds the tasks' handles; the
  inside of a lock, a channel or a waker (a shard of a \<open>DashMap\<close> is a lock held for one call); the
  memory ordering of the atomics, all but one of whose accesses are made under the queue's lock.
  For turns that overlap on several threads the wake-ups, the absence of deadlock and the result of
  calls of the store and of the turns on a ledger are shown, not the schedules of the two tests with a timeout manager, whose turns are whole.
\<close>

section \<open>Properties that span components\<close>

text \<open>
  C25. In a system built with a timeout manager, a timeout that a machine sets is routed by the
  notification manager to the timeout manager's channel and recorded in its ledger for now +
  duration; a tick at u then puts the kind's timeout input at the end of the signal queue's
  priority lane when u is after that deadline, and nothing when it is not. The conversions
  between messages and timeout requests are assumed to be inverse and the topic of a timeout
  request to be the one the manager subscribed to.
\<close>

theorem timeout_round_trip:
  assumes "\<And>x. try_timeout R (from_timeout R x) = Some x" and "\<And>x. get_topic R (from_timeout R x) = t"
    and "build_inner c b = Returned sys" and "timeout_topic b = Some t"
    and "notification_processors b = []"
    and "set_timeout R i d w = (Returned (), w')" and "queue_values (notification_queue w) = []"
    and "nm_poll R (nm_new (sys_processors sys)) wk rx (notification_queue w') channels_new = (rx', nq, ch)"
    and "hash_order_ok it"
    and "L = fold (timeout_notified R) (chan_queue ch c) ledger_new"
  shows "timer_ids L i = Some (now w + duration_nanos d) \<and>
    front_values (snd (tick R it u (L, q))) = front_values q @
      (if now w + duration_nanos d < u
       then (case timeout_input R (kind i) u of None \<Rightarrow> [] | Some x \<Rightarrow> [\<lparr>sig_id = i, sig_input = x\<rparr>])
       else [])"
proof -
  let ?m = "from_timeout R \<lparr>req_id = i, req_op = Set (now w + duration_nanos d)\<rparr>"
  have q: "queue_values (notification_queue w') = [?m]"
    using assms(6,7)
    by (auto simp: set_timeout_def priority_notify_def cmd_simps nq_priority_send_def queue_values_def
        request_set_timeout_def from_duration_def instant_add_def split: if_splits)
  have p: "sys_processors sys = [\<lparr>np_channel = c, np_topics = [t]\<rparr>]"
    using assms(3-5)
    by (auto simp: build_inner_def Let_def build_timeout_manager_def with_np_def np_init_def
        map_outcome_to_Returned_iff tm_with_tick_rate_def timeout_manager_new_def split: if_splits)
  have "chan_queue ch c = [?m]"
    using nm_poll_drains [OF assms(8)] fold_route_queue [of channels_new c R "sys_processors sys" "[?m]"]
    by (simp add: q p channels_new_def channels_of_def assms(2))
  then have L: "L = ledger_set_timeout i (now w + duration_nanos d) ledger_new"
    by (simp add: assms(1,10) timeout_notified_def)
  have wf: "ledger_wf L" unfolding L by (rule set_timeout_wf [OF ledger_new_wf])
  have ids: "timer_ids L = [i \<mapsto> now w + duration_nanos d]" and ret: "retainer L = []"
    by (simp_all add: L ledger_set_timeout_def Let_def ledger_new_def)
  have "set (due_ids it u L) = (if now w + duration_nanos d < u then {i} else {})"
    and "distinct (due_ids it u L)"
    using due_ids_spec [OF wf assms(9), of u] by (auto simp: ids split: if_splits)
  then have "due_ids it u L = (if now w + duration_nanos d < u then [i] else [])"
    by (auto intro: distinct_set_single split: if_splits)
  moreover have "due_items u L = []"
    by (simp add: due_items_def ret bt_split_off_def bt_below_def bt_into_values_def)
  ultimately show ?thesis
    by (auto simp: tick_queue ids timeout_signals_def item_signals_def map_filter_simps split: option.splits)
qed

theorem timeout_round_trip_witness:
  "\<exists>rx nq ch. nm_poll game_rex (nm_new [\<lparr>np_channel = 3, np_topics = [()]\<rparr>]) 7 stream
      (nq_priority_send (set_msg ping_2 11000000) deque_new) channels_new = (rx, nq, ch) \<and>
    front_values (snd (tick game_rex sorted_list_of_set 11000001
      (fold (timeout_notified game_rex) (chan_queue ch 3) ledger_new, deque_new))) =
    [\<lparr>sig_id = ping_2, sig_input = Input_Ping (Ping_RecvTimeout 11000001)\<rparr>]"
proof -
  let ?b = "with_timeout_manager () builder_default :: (game, game_input, game_world, nat, unit) rex_builder"
  let ?w = "world_new 0 \<lparr>failures = Map.empty, v4s = (\<lambda>_. 0), v4_next = 0\<rparr> :: game_world"
  let ?w' = "?w\<lparr>notification_queue := nq_priority_send (set_msg ping_2 11000000) deque_new\<rparr>"
  let ?p = "\<lparr>np_channel = 3, np_topics = [()]\<rparr>"
  have b: "build_inner 3 ?b = Returned \<lparr>sys_machines = Map.empty, sys_processors = [?p],
      sys_subscriptions = Some (nm_new [?p])\<rparr>"
    by (simp add: build_inner_def Let_def with_timeout_manager_def builder_default_def
        build_timeout_manager_def with_np_def np_init_def tm_with_tick_rate_def
        timeout_manager_new_def default_tick_rate_def duration_nanos_from_millis manager_new_eq
        collect_machines_def)
  have s: "set_timeout game_rex ping_2 test_timeout ?w = (Returned (), ?w')"
    by (simp add: set_timeout_def cmd_simps request_set_timeout_def from_duration_def instant_add_def
        test_timeout_nanos instant_limit_def nanos_per_sec_def priority_notify_def)
  obtain rx nq ch where run: "nm_poll game_rex (nm_new [?p]) 7 stream (notification_queue ?w') channels_new = (rx, nq, ch)"
    by (metis prod_cases3)
  have "front_values (snd (tick game_rex sorted_list_of_set 11000001
      (fold (timeout_notified game_rex) (chan_queue ch 3) ledger_new, deque_new))) =
    [\<lparr>sig_id = ping_2, sig_input = Input_Ping (Ping_RecvTimeout 11000001)\<rparr>]"
    using timeout_round_trip [OF _ _ b _ _ s _ _ sorted_hash_order refl,
        where wk = 7 and rx = stream and rx' = rx and nq = nq and ch = ch and u = 11000001 and q = deque_new and t = "()"] run
    by (simp add: with_timeout_manager_def builder_default_def queue_values_def test_timeout_nanos)
  with run show ?thesis by auto
qed

end
